(* ===== verification/Prelude.thy ===== *)
theory Prelude
  imports Main "HOL-Library.Signed_Division"
begin

text \<open>
  What the component theories share.

  The C integer types of MonetDB (\<^verbatim>\<open>bte\<close>, \<^verbatim>\<open>sht\<close>, \<^verbatim>\<open>int\<close>, \<^verbatim>\<open>lng\<close>) are modelled by
  the type \<^typ>\<open>int\<close> with the conversion to a two's complement width written out as
  \<open>swrap\<close>; C division and remainder, which truncate towards zero, are \<open>sdiv\<close> and
  \<open>smod\<close> of the library.  A C string is a \<^typ>\<open>string\<close> without its terminating NUL;
  reading the position just after it yields the NUL, as \<open>cget\<close> says.
\<close>

named_theorems cint \<open>identities of the two's complement conversions inside their range\<close>
named_theorems cchar \<open>facts on the character classification macros\<close>

subsection \<open>Two's complement conversion\<close>

definition swrap :: "nat \<Rightarrow> int \<Rightarrow> int" where
  "swrap w x = (x + 2 ^ (w - 1)) mod 2 ^ w - 2 ^ (w - 1)"

abbreviation i8 :: "int \<Rightarrow> int" where "i8 \<equiv> swrap 8"
abbreviation i16 :: "int \<Rightarrow> int" where "i16 \<equiv> swrap 16"
abbreviation i32 :: "int \<Rightarrow> int" where "i32 \<equiv> swrap 32"
abbreviation i64 :: "int \<Rightarrow> int" where "i64 \<equiv> swrap 64"

text \<open>The range of a signed type of \<open>w\<close> bits, and the smallest value, which is its nil.\<close>

definition smin :: "nat \<Rightarrow> int" where "smin w = - (2 ^ (w - 1))"
definition smax :: "nat \<Rightarrow> int" where "smax w = 2 ^ (w - 1) - 1"

abbreviation int_nil :: int where "int_nil \<equiv> - 2147483648"
abbreviation int_max :: int where "int_max \<equiv> 2147483647"
abbreviation lng_nil :: int where "lng_nil \<equiv> - 9223372036854775808"
abbreviation lng_max :: int where "lng_max \<equiv> 9223372036854775807"

lemma swrap_id:
  assumes "0 < w" "smin w \<le> x" "x \<le> smax w"
  shows "swrap w x = x"
proof -
  from assms(1) have "(2::int) ^ w = 2 * 2 ^ (w - 1)"
    by (cases w) auto
  with assms(2,3) show ?thesis
    by (simp add: swrap_def smin_def smax_def)
qed

lemma swrap_range:
  assumes "0 < w"
  shows "smin w \<le> swrap w x \<and> swrap w x \<le> smax w"
proof -
  from assms have w: "(2::int) ^ w = 2 * 2 ^ (w - 1)"
    by (cases w) auto
  have "(x + 2 ^ (w - 1)) mod 2 ^ w < 2 ^ w" by simp
  with w show ?thesis
    by (simp add: swrap_def smin_def smax_def)
qed

lemma swrap_add_mult: "swrap w (x + c * 2 ^ w) = swrap w x"
proof -
  have "x + c * 2 ^ w + 2 ^ (w - 1) = (x + 2 ^ (w - 1)) + c * 2 ^ w" by simp
  then show ?thesis by (simp only: swrap_def mod_mult_self1)
qed

lemma i32_id [cint]: "int_nil \<le> x \<Longrightarrow> x \<le> int_max \<Longrightarrow> i32 x = x"
  using swrap_id [of 32 x] by (simp add: smin_def smax_def)

lemma i64_id [cint]: "lng_nil \<le> x \<Longrightarrow> x \<le> lng_max \<Longrightarrow> i64 x = x"
  using swrap_id [of 64 x] by (simp add: smin_def smax_def)

lemma i32_range: "int_nil \<le> i32 x \<and> i32 x \<le> int_max"
  using swrap_range [of 32 x] by (simp add: smin_def smax_def)

lemma nonneg_not_nil: "0 \<le> x \<Longrightarrow> x \<noteq> int_nil"
  by auto

subsection \<open>Truncating division\<close>

lemma sdiv_nonneg: "0 \<le> a \<Longrightarrow> 0 < b \<Longrightarrow> a sdiv b = a div (b::int)"
  by (auto simp: signed_divide_int_def sgn_if)

lemma sdiv_nonpos: "a \<le> 0 \<Longrightarrow> 0 < b \<Longrightarrow> a sdiv b = - ((- a) div (b::int))"
  by (auto simp: signed_divide_int_def sgn_if)

lemma smod_nonneg: "0 \<le> a \<Longrightarrow> 0 < b \<Longrightarrow> a smod b = a mod (b::int)"
  by (simp add: smod_mod_positive)

lemma smod_nonpos: "a \<le> 0 \<Longrightarrow> 0 < b \<Longrightarrow> a smod b = - ((- a) mod (b::int))"
  by (auto simp: signed_modulo_int_def sgn_if)

lemma smod_eq_0_iff: "a smod b = 0 \<longleftrightarrow> b dvd (a::int)"
  by (auto simp: signed_modulo_int_def sgn_0_0 simp flip: dvd_eq_mod_eq_0)

lemma smod_smod_cancel:
  assumes "c dvd b" "0 < c" "0 < (b::int)"
  shows "a smod b smod c = a smod c"
proof (cases "0 \<le> a")
  case True
  then show ?thesis using assms by (simp add: smod_nonneg mod_mod_cancel)
next
  case False
  have "a smod b smod c = - ((- a) mod b mod c)"
    using False assms by (simp add: smod_nonpos smod_nonneg)
  also have "\<dots> = a smod c"
    using False assms by (simp add: mod_mod_cancel smod_nonpos)
  finally show ?thesis .
qed

subsection \<open>C strings\<close>

definition cget :: "string \<Rightarrow> nat \<Rightarrow> char" where
  "cget s i = (if i < length s then s ! i else CHR 0x00)"

definition GDKisdigit :: "char \<Rightarrow> bool" where
  "GDKisdigit c \<longleftrightarrow> (48::nat) \<le> of_char c \<and> of_char c \<le> (57::nat)"

definition GDKisspace :: "char \<Rightarrow> bool" where
  "GDKisspace c \<longleftrightarrow> of_char c = (32::nat) \<or> ((9::nat) \<le> of_char c \<and> of_char c \<le> (13::nat))"

definition digit_val :: "char \<Rightarrow> int" where
  "digit_val c = int (of_char c) - 48"

definition digit_char :: "nat \<Rightarrow> char" where
  "digit_char n = char_of (48 + n)"

lemma cget_Nil [simp]: "cget [] i = CHR 0x00"
  by (simp add: cget_def)

lemma cget_0 [simp]: "cget (c # s) 0 = c"
  by (simp add: cget_def)

lemma cget_Suc [simp]: "cget (c # s) (Suc i) = cget s i"
  by (simp add: cget_def)

lemma cget_append [simp]:
  "cget (s @ t) i = (if i < length s then s ! i else cget t (i - length s))"
  by (auto simp: cget_def nth_append)

lemma GDKisdigit_NUL [simp, cchar]: "\<not> GDKisdigit (CHR 0x00)"
  by (simp add: GDKisdigit_def)

lemma of_char_digit_char: "n < 10 \<Longrightarrow> of_char (digit_char n) = (48 + n :: nat)"
  by (simp add: digit_char_def)

lemma GDKisdigit_digit_char [cchar]: "n < 10 \<Longrightarrow> GDKisdigit (digit_char n)"
  by (simp add: GDKisdigit_def of_char_digit_char)

lemma digit_val_digit_char [cchar]: "n < 10 \<Longrightarrow> digit_val (digit_char n) = int n"
  by (simp add: digit_val_def of_char_digit_char)

lemma digit_val_range: "GDKisdigit c \<Longrightarrow> 0 \<le> digit_val c \<and> digit_val c \<le> 9"
  by (auto simp: GDKisdigit_def digit_val_def)

end
