(* ===== verification/Mtime_Calendar.thy ===== *)
theory Mtime_Calendar
  imports Prelude
begin

text \<open>
  The calendar core of \<^verbatim>\<open>monetdb5/modules/atoms/mtime.c\<close>: the conversion between a day
  number (the atom \<^verbatim>\<open>date\<close>, a 32-bit count of days) and its day, month and year, and
  between a number of milliseconds (the atom \<^verbatim>\<open>daytime\<close>) and its clock fields.

  The code has no year 0: the year before 1 is -1.  Its arithmetic runs on the
  year with that gap closed, here called the astronomical year \<open>astro y\<close>.
\<close>

subsection \<open>Tables and macros\<close>

text \<open>Entry 0 is nil once the module has been loaded.\<close>

definition NODAYS :: "int list" where
  "NODAYS = [int_nil, 31, 29, 31, 30, 31, 30, 31, 31, 30, 31, 30, 31]"

definition CUMDAYS :: "int list" where
  "CUMDAYS = [0, 31, 59, 90, 120, 151, 181, 212, 243, 273, 304, 334, 365]"

definition YEAR_MAX :: int where "YEAR_MAX = 5867411"
definition YEAR_MIN :: int where "YEAR_MIN = - YEAR_MAX"

abbreviation date_nil :: int where "date_nil \<equiv> int_nil"
abbreviation daytime_nil :: int where "daytime_nil \<equiv> int_nil"

definition leapyear :: "int \<Rightarrow> bool" where
  "leapyear y \<longleftrightarrow> y smod 4 = 0 \<and> (y smod 100 \<noteq> 0 \<or> y smod 400 = 0)"

definition leapyears :: "int \<Rightarrow> int" where
  "leapyears year =
    (let y4 = year sdiv 4; y100 = year sdiv 100; y400 = year sdiv 400
     in y4 + y400 - y100)"

definition MONTHDAYS :: "int \<Rightarrow> int \<Rightarrow> int" where
  "MONTHDAYS m y = (if m \<noteq> 2 then NODAYS ! nat m else if leapyear y then 29 else 28)"

definition YEARDAYS :: "int \<Rightarrow> int" where
  "YEARDAYS y = (if leapyear y then 366 else 365)"

definition LEAPYEARS :: "int \<Rightarrow> int" where
  "LEAPYEARS y = leapyears y + (if y \<ge> 0 then 1 else 0)"

definition DATE :: "int \<Rightarrow> int \<Rightarrow> int \<Rightarrow> bool" where
  "DATE d m y \<longleftrightarrow> m > 0 \<and> m \<le> 12 \<and> d > 0 \<and> y \<noteq> 0 \<and> y \<ge> YEAR_MIN \<and> y \<le> YEAR_MAX
     \<and> d \<le> MONTHDAYS m y"

definition TIME :: "int \<Rightarrow> int \<Rightarrow> int \<Rightarrow> int \<Rightarrow> bool" where
  "TIME h m s x \<longleftrightarrow> h \<ge> 0 \<and> h < 24 \<and> m \<ge> 0 \<and> m < 60 \<and> s \<ge> 0 \<and> s < 60 \<and> x \<ge> 0 \<and> x < 1000"

subsection \<open>Dates\<close>

definition todate :: "int \<Rightarrow> int \<Rightarrow> int \<Rightarrow> int" where
  "todate day month year =
    (if DATE day month year then
       let year = (if year < 0 then year + 1 else year);
           n = day - 1;
           n = (if month > 2 \<and> leapyear year then n + 1 else n);
           n = n + CUMDAYS ! nat (month - 1)
       in i32 (n + (365 * year + LEAPYEARS (if year \<ge> 0 then year - 1 else year)))
     else date_nil)"

lemma YEARDAYS_bounds: "365 \<le> YEARDAYS y" "YEARDAYS y \<le> 366"
  by (simp_all add: YEARDAYS_def)

text \<open>The two loops of \<^verbatim>\<open>fromdate\<close> that correct the estimated year.\<close>

function fromdate_up :: "int \<Rightarrow> int \<Rightarrow> int \<times> int" where
  "fromdate_up year day =
    (if day \<ge> 0 then fromdate_up (year + 1) (day - YEARDAYS (year + 1)) else (year, day))"
  by pat_completeness auto
termination
  by (relation "measure (\<lambda>(year, day). nat (day + 1))") (auto simp: YEARDAYS_def)

function fromdate_down :: "int \<Rightarrow> int \<Rightarrow> int \<times> int" where
  "fromdate_down year day =
    (if day < 0 then fromdate_down (year - 1) (day + YEARDAYS (year - 1)) else (year, day))"
  by pat_completeness auto
termination
  by (relation "measure (\<lambda>(year, day). nat (- day))") (auto simp: YEARDAYS_def)

text \<open>The loop over the months; it ends with \<open>month = 13\<close> when no month matches.\<close>

function fromdate_month :: "int \<Rightarrow> int \<Rightarrow> int \<Rightarrow> int \<times> int" where
  "fromdate_month month day year =
    (if month \<le> 12 then
       let days = MONTHDAYS month year
       in if day \<le> days then (month, day) else fromdate_month (month + 1) (day - days) year
     else (month, day))"
  by pat_completeness auto
termination
  by (relation "measure (\<lambda>(month, day, year). nat (13 - month))") auto

declare fromdate_up.simps [simp del] fromdate_down.simps [simp del] fromdate_month.simps [simp del]

definition fromdate :: "int \<Rightarrow> int \<times> int \<times> int" where
  "fromdate n =
    (let year = n sdiv 365;
         day = (n - year * 365) - LEAPYEARS (if year \<ge> 0 then year - 1 else year);
         (year, day) =
           (if n < 0 then
              let (year, day) = fromdate_up (year - 1) day in (year, YEARDAYS year + day)
            else fromdate_down year day);
         day = day + 1;
         (month, day) = fromdate_month 1 day year
     in if n \<noteq> int_nil then (day, month, if year \<le> 0 then year - 1 else year)
        else (int_nil, int_nil, int_nil))"

definition date_dayofweek :: "int \<Rightarrow> int" where
  "date_dayofweek v = (let v = v smod 7 in if v \<le> 0 then v + 7 else v)"

subsection \<open>Times of day\<close>

definition totime :: "int \<Rightarrow> int \<Rightarrow> int \<Rightarrow> int \<Rightarrow> int" where
  "totime hour mins sec msec =
    (if TIME hour mins sec msec then (((hour * 60) + mins) * 60 + sec) * 1000 + msec
     else daytime_nil)"

definition fromtime :: "int \<Rightarrow> int \<times> int \<times> int \<times> int" where
  "fromtime n =
    (if n \<noteq> int_nil then
       let hour = n sdiv 3600000; n = n - hour * 3600000;
           mins = n sdiv 60000; n = n - mins * 60000;
           sec = n sdiv 1000; n = n - sec * 1000
       in (hour, mins, sec, n)
     else (int_nil, int_nil, int_nil, int_nil))"

subsection \<open>The proleptic Gregorian calendar\<close>

text \<open>
  The specification side: the astronomical year of a year of the code, the number of the
  first day of an astronomical year, and the number of a day given by day, month and
  astronomical year.
\<close>

definition astro :: "int \<Rightarrow> int" where
  "astro y = (if y < 0 then y + 1 else y)"

definition unastro :: "int \<Rightarrow> int" where
  "unastro Y = (if Y \<le> 0 then Y - 1 else Y)"

definition ceil_quot :: "int \<Rightarrow> int \<Rightarrow> int" where
  "ceil_quot k Y = (Y + (k - 1)) div k"

definition jan1 :: "int \<Rightarrow> int" where
  "jan1 Y = 365 * Y + ceil_quot 4 Y - ceil_quot 100 Y + ceil_quot 400 Y"

definition cumdays :: "int \<Rightarrow> int \<Rightarrow> int" where
  "cumdays m Y = CUMDAYS ! nat (m - 1) + (if m > 2 \<and> leapyear Y then 1 else 0)"

definition daynum :: "int \<Rightarrow> int \<Rightarrow> int \<Rightarrow> int" where
  "daynum d m Y = jan1 Y + cumdays m Y + (d - 1)"

definition valid_dmy :: "int \<Rightarrow> int \<Rightarrow> int \<Rightarrow> bool" where
  "valid_dmy d m Y \<longleftrightarrow> 1 \<le> m \<and> m \<le> 12 \<and> 1 \<le> d \<and> d \<le> MONTHDAYS m Y"

lemma unastro_astro [simp]: "y \<noteq> 0 \<Longrightarrow> unastro (astro y) = y"
  by (simp add: astro_def unastro_def)

lemma astro_unastro [simp]: "astro (unastro Y) = Y"
  by (simp add: astro_def unastro_def)

lemma unastro_nonzero [simp]: "unastro Y \<noteq> 0"
  by (simp add: unastro_def)

lemma leapyear_dvd: "leapyear y \<longleftrightarrow> 4 dvd y \<and> (\<not> 100 dvd y \<or> 400 dvd y)"
  by (simp add: leapyear_def smod_eq_0_iff)

lemma ceil_quot_floor:
  assumes "0 < (k::int)"
  shows "ceil_quot k Y = Y div k + (if k dvd Y then 0 else 1)"
proof -
  define q r where "q = Y div k" and "r = Y mod k"
  from assms have k: "k \<noteq> 0" by simp
  have Y: "Y + (k - 1) = k * q + (r + (k - 1))" and r: "0 \<le> r" "r < k"
    using assms by (simp_all add: q_def r_def)
  have dvd: "k dvd Y \<longleftrightarrow> r = 0"
    by (simp add: r_def dvd_eq_mod_eq_0)
  have "(r + (k - 1)) div k = (if r = 0 then 0 else 1)"
  proof (cases "r = 0")
    case False
    have "(r + (k - 1)) div k = (k + (r - 1)) div k" by (simp add: algebra_simps)
    also have "\<dots> = 1 + (r - 1) div k"
      using div_add_self1 [OF k] by simp
    finally show ?thesis using False r by (simp add: div_pos_pos_trivial)
  qed (use assms in \<open>simp add: div_pos_pos_trivial\<close>)
  then show ?thesis
    unfolding ceil_quot_def Y using k by (simp only: div_mult_self4 dvd q_def) simp
qed

lemma ceil_quot_step:
  assumes "0 < (k::int)"
  shows "ceil_quot k (Y + 1) = ceil_quot k Y + (if k dvd Y then 1 else 0)"
proof -
  from assms have "k \<noteq> 0" by simp
  then have "(Y + k) div k = Y div k + 1" by (rule div_add_self2)
  moreover have "Y + 1 + (k - 1) = Y + k" by simp
  ultimately have "ceil_quot k (Y + 1) = Y div k + 1"
    by (simp only: ceil_quot_def)
  then show ?thesis by (simp add: ceil_quot_floor [OF assms])
qed

lemma ceil_quot_sdiv:
  assumes "0 < (k::int)"
  shows "0 < Y \<Longrightarrow> ceil_quot k Y = (Y - 1) sdiv k + 1"
    and "Y \<le> 0 \<Longrightarrow> ceil_quot k Y = Y sdiv k"
proof -
  assume Y: "0 < Y"
  from assms have "k \<noteq> 0" by simp
  then have "(Y - 1 + k) div k = (Y - 1) div k + 1" by (rule div_add_self2)
  moreover have "Y + (k - 1) = Y - 1 + k" by simp
  ultimately show "ceil_quot k Y = (Y - 1) sdiv k + 1"
    using Y assms by (simp only: ceil_quot_def) (simp add: sdiv_nonneg)
next
  assume "Y \<le> 0"
  then show "ceil_quot k Y = Y sdiv k"
    using assms by (simp add: ceil_quot_floor sdiv_nonpos zdiv_zminus1_eq_if dvd_eq_mod_eq_0)
qed

lemma ceil_quot_bounds:
  assumes "0 < (k::int)"
  shows "Y \<le> k * ceil_quot k Y" "k * ceil_quot k Y \<le> Y + (k - 1)"
proof -
  have m: "(Y + (k - 1)) mod k < k" "0 \<le> (Y + (k - 1)) mod k"
    using assms by simp_all
  have "k * ceil_quot k Y + (Y + (k - 1)) mod k = Y + (k - 1)"
    by (simp only: ceil_quot_def mult_div_mod_eq)
  with m show "Y \<le> k * ceil_quot k Y" "k * ceil_quot k Y \<le> Y + (k - 1)"
    by linarith+
qed

lemma jan1_Suc: "jan1 (Y + 1) = jan1 Y + YEARDAYS Y"
proof -
  have d400: "100 dvd Y" if "400 dvd Y"
    using that by (rule dvd_trans [rotated]) simp
  have d100: "4 dvd Y" if "100 dvd Y"
    using that by (rule dvd_trans [rotated]) simp
  define a b c where "a \<longleftrightarrow> 4 dvd Y" and "b \<longleftrightarrow> 100 dvd Y" and "c \<longleftrightarrow> 400 dvd Y"
  have "leapyear Y \<longleftrightarrow> a \<and> (\<not> b \<or> c)"
    by (simp only: leapyear_dvd a_def b_def c_def)
  moreover have "ceil_quot 4 (Y + 1) = ceil_quot 4 Y + (if a then 1 else 0)"
    "ceil_quot 100 (Y + 1) = ceil_quot 100 Y + (if b then 1 else 0)"
    "ceil_quot 400 (Y + 1) = ceil_quot 400 Y + (if c then 1 else 0)"
    unfolding a_def b_def c_def by (rule ceil_quot_step; simp)+
  moreover have "c \<longrightarrow> b" "b \<longrightarrow> a"
    using d400 d100 unfolding a_def b_def c_def by blast+
  ultimately show ?thesis
    by (cases a; cases b; cases c) (simp_all add: jan1_def YEARDAYS_def)
qed

lemma jan1_0 [simp]: "jan1 0 = 0"
  by (simp add: jan1_def ceil_quot_def)

lemma jan1_leap:
  "365 * Y + LEAPYEARS (if Y \<ge> 0 then Y - 1 else Y) = jan1 Y"
proof (cases "Y > 0")
  case True
  then show ?thesis
    by (simp add: LEAPYEARS_def leapyears_def jan1_def Let_def ceil_quot_sdiv(1))
next
  case False
  then consider "Y = 0" | "Y < 0" by linarith
  then show ?thesis
  proof cases
    case 1
    then show ?thesis
      by (simp add: LEAPYEARS_def leapyears_def jan1_def Let_def ceil_quot_def sdiv_nonneg)
  next
    case 2
    then show ?thesis
      by (simp add: LEAPYEARS_def leapyears_def jan1_def Let_def ceil_quot_sdiv(2))
  qed
qed

lemma jan1_range:
  assumes "YEAR_MIN \<le> Y" "Y \<le> YEAR_MAX"
  shows "- 2143027863 \<le> jan1 Y" "jan1 Y \<le> 2143027863"
  using assms ceil_quot_bounds [of 4 Y] ceil_quot_bounds [of 100 Y] ceil_quot_bounds [of 400 Y]
  unfolding jan1_def YEAR_MIN_def YEAR_MAX_def by linarith+

lemma month_cases:
  assumes "1 \<le> m" "m \<le> (12::int)"
  shows "m \<in> {1, 2, 3, 4, 5, 6, 7, 8, 9, 10, 11, 12}"
proof -
  from assms have "m \<in> {1..12}" by simp
  also have "{1..12::int} = {1, 2, 3, 4, 5, 6, 7, 8, 9, 10, 11, 12}" by code_simp
  finally show ?thesis .
qed

lemma cumdays_1 [simp]: "cumdays 1 Y = 0"
  by (simp add: cumdays_def CUMDAYS_def)

lemma cumdays_step:
  assumes "1 \<le> m" "m < 12"
  shows "cumdays (m + 1) Y = cumdays m Y + MONTHDAYS m Y"
  using month_cases [of m] assms
  by (auto simp: cumdays_def CUMDAYS_def MONTHDAYS_def NODAYS_def)

lemma cumdays_12: "cumdays 12 Y + MONTHDAYS 12 Y = YEARDAYS Y"
  by (simp add: cumdays_def CUMDAYS_def MONTHDAYS_def NODAYS_def YEARDAYS_def)

lemma MONTHDAYS_bounds:
  assumes "1 \<le> m" "m \<le> 12"
  shows "28 \<le> MONTHDAYS m Y" "MONTHDAYS m Y \<le> 31"
  using month_cases [of m] assms by (auto simp: MONTHDAYS_def NODAYS_def)

lemma cumdays_mono:
  assumes "1 \<le> m" "m < m'" "m' \<le> 12"
  shows "cumdays m Y + MONTHDAYS m Y \<le> cumdays m' Y"
  using month_cases [of m] month_cases [of m'] assms
  by (auto simp: cumdays_def CUMDAYS_def MONTHDAYS_def NODAYS_def)

lemma jan1_mono:
  assumes "Y < Y'"
  shows "jan1 (Y + 1) \<le> jan1 Y'"
proof -
  from assms have "Y + 1 \<le> Y'" by simp
  then show ?thesis
  proof (induction Y' rule: int_ge_induct)
    case (step i)
    then show ?case using YEARDAYS_bounds(1) [of i] by (simp add: jan1_Suc)
  qed simp
qed

lemma valid_dmy_year:
  assumes "valid_dmy d m Y"
  shows "0 \<le> cumdays m Y + (d - 1)" "cumdays m Y + (d - 1) < YEARDAYS Y"
proof -
  show "0 \<le> cumdays m Y + (d - 1)"
    using assms month_cases [of m] by (auto simp: valid_dmy_def cumdays_def CUMDAYS_def)
  show "cumdays m Y + (d - 1) < YEARDAYS Y"
    using assms month_cases [of m]
    by (auto simp: valid_dmy_def cumdays_def CUMDAYS_def YEARDAYS_def MONTHDAYS_def NODAYS_def)
qed

lemma daynum_year:
  assumes "valid_dmy d m Y"
  shows "jan1 Y \<le> daynum d m Y" "daynum d m Y < jan1 (Y + 1)"
  using valid_dmy_year [OF assms] by (simp_all add: daynum_def jan1_Suc)

text \<open>A day number has one representation as a day of a month of a year.\<close>

lemma daynum_inj:
  assumes v: "valid_dmy d m Y" and v': "valid_dmy d' m' Y'"
    and eq: "daynum d m Y = daynum d' m' Y'"
  shows "d = d' \<and> m = m' \<and> Y = Y'"
proof -
  have Y: "Y = Y'"
    using daynum_year [OF v] daynum_year [OF v'] eq jan1_mono [of Y Y'] jan1_mono [of Y' Y]
    by (cases Y Y' rule: linorder_cases) auto
  with eq have r: "cumdays m Y + d = cumdays m' Y + d'"
    by (simp add: daynum_def)
  have "m = m'"
    using v v' Y r cumdays_mono [of m m' Y] cumdays_mono [of m' m Y]
    by (cases m m' rule: linorder_cases) (auto simp: valid_dmy_def)
  with r Y show ?thesis by simp
qed

lemma daynum_range:
  assumes "valid_dmy d m Y" "YEAR_MIN \<le> Y" "Y \<le> YEAR_MAX"
  shows "int_nil < daynum d m Y" "daynum d m Y \<le> int_max"
  using valid_dmy_year [OF assms(1)] jan1_range [OF assms(2,3)] YEARDAYS_bounds(2) [of Y]
  by (simp_all add: daynum_def)

subsection \<open>Correctness of the conversions\<close>

lemma todate_daynum:
  assumes "DATE d m y"
  shows "todate d m y = daynum d m (astro y)"
proof -
  let ?Y = "astro y"
  have Y: "YEAR_MIN \<le> ?Y" "?Y \<le> YEAR_MAX" and d: "1 \<le> d" "d \<le> 31" and m: "1 \<le> m" "m \<le> 12"
    using assms MONTHDAYS_bounds(2) [of m y]
    by (auto simp: DATE_def astro_def YEAR_MIN_def YEAR_MAX_def)
  have c: "0 \<le> cumdays m ?Y" "cumdays m ?Y \<le> 335"
    using month_cases [OF m] by (auto simp: cumdays_def CUMDAYS_def)
  have "todate d m y = i32 ((if m > 2 \<and> leapyear ?Y then d - 1 + 1 else d - 1) + CUMDAYS ! nat (m - 1)
      + (365 * ?Y + LEAPYEARS (if ?Y \<ge> 0 then ?Y - 1 else ?Y)))"
    using assms by (simp only: todate_def Let_def astro_def if_True)
  also have "\<dots> = i32 (daynum d m ?Y)"
    unfolding jan1_leap daynum_def cumdays_def by (simp add: algebra_simps)
  finally have "todate d m y = i32 (daynum d m ?Y)" .
  then show ?thesis
    using jan1_range [OF Y] c d by (simp add: daynum_def cint)
qed

lemma todate_not_DATE: "\<not> DATE d m y \<Longrightarrow> todate d m y = date_nil"
  by (simp add: todate_def)

lemma jan1_linear:
  shows "0 \<le> Y \<Longrightarrow> 365 * Y \<le> jan1 Y" and "Y \<le> 0 \<Longrightarrow> jan1 Y \<le> 365 * Y"
proof -
  show "365 * Y \<le> jan1 Y" if "0 \<le> Y"
    using that
  proof (induction Y rule: int_ge_induct)
    case (step i)
    then show ?case using YEARDAYS_bounds(1) [of i] by (simp add: jan1_Suc)
  qed simp
  show "jan1 Y \<le> 365 * Y" if "Y \<le> 0"
    using that
  proof (induction Y rule: int_le_induct)
    case (step i)
    then show ?case using YEARDAYS_bounds(1) [of "i - 1"] jan1_Suc [of "i - 1"] by simp
  qed simp
qed

lemma fromdate_up_spec:
  assumes "- YEARDAYS year \<le> day" "fromdate_up year day = (Y, r)"
  shows "jan1 (Y + 1) + r = jan1 (year + 1) + day \<and> - YEARDAYS Y \<le> r \<and> r < 0"
  using assms
proof (induction year day rule: fromdate_up.induct)
  case (1 year day)
  show ?case
  proof (cases "day \<ge> 0")
    case True
    with "1.prems"(2) have "fromdate_up (year + 1) (day - YEARDAYS (year + 1)) = (Y, r)"
      by (simp add: fromdate_up.simps [of year day])
    with "1.IH" [OF True] True show ?thesis
      using jan1_Suc [of "year + 1"] by simp
  next
    case False
    with "1.prems" show ?thesis by (simp add: fromdate_up.simps [of year day])
  qed
qed

lemma fromdate_down_spec:
  assumes "day < YEARDAYS year" "fromdate_down year day = (Y, r)"
  shows "jan1 Y + r = jan1 year + day \<and> 0 \<le> r \<and> r < YEARDAYS Y"
  using assms
proof (induction year day rule: fromdate_down.induct)
  case (1 year day)
  show ?case
  proof (cases "day < 0")
    case True
    with "1.prems"(2) have "fromdate_down (year - 1) (day + YEARDAYS (year - 1)) = (Y, r)"
      by (simp add: fromdate_down.simps [of year day])
    with "1.IH" [OF True] True show ?thesis
      using jan1_Suc [of "year - 1"] by simp
  next
    case False
    with "1.prems" show ?thesis by (simp add: fromdate_down.simps [of year day])
  qed
qed

lemma fromdate_month_spec:
  assumes "1 \<le> month" "month \<le> 12" "1 \<le> day" "day \<le> YEARDAYS Y - cumdays month Y"
    and "fromdate_month month day Y = (m, d)"
  shows "valid_dmy d m Y \<and> cumdays m Y + d = cumdays month Y + day"
  using assms
proof (induction month day Y rule: fromdate_month.induct)
  case (1 month day Y)
  show ?case
  proof (cases "day \<le> MONTHDAYS month Y")
    case True
    with "1.prems" show ?thesis
      by (auto simp: fromdate_month.simps [of month day Y] valid_dmy_def)
  next
    case False
    with "1.prems" cumdays_12 [of Y] have m12: "month < 12"
      by (cases "month = 12") auto
    with False "1.prems" have "fromdate_month (month + 1) (day - MONTHDAYS month Y) Y = (m, d)"
      by (simp add: fromdate_month.simps [of month day Y])
    with "1.IH" [OF "1.prems"(2) refl False] False m12 "1.prems" show ?thesis
      by (simp add: cumdays_step)
  qed
qed

text \<open>
  \<^verbatim>\<open>fromdate\<close> finds the day, month and year of every day number but nil.
\<close>

lemma fromdate_daynum:
  assumes "n \<noteq> int_nil"
  obtains d m Y where "fromdate n = (d, m, unastro Y)" "valid_dmy d m Y" "daynum d m Y = n"
proof -
  let ?y = "n sdiv 365"
  let ?day = "(n - ?y * 365) - LEAPYEARS (if ?y \<ge> 0 then ?y - 1 else ?y)"
  have day: "?day = n - jan1 ?y"
    using jan1_leap [of ?y] by simp
  define Yr where "Yr = (if n < 0 then
      case fromdate_up (?y - 1) ?day of (year, day) \<Rightarrow> (year, YEARDAYS year + day)
    else fromdate_down ?y ?day)"
  obtain Y r where Y: "Yr = (Y, r)" by (cases Yr)
  have r: "jan1 Y + r = n \<and> 0 \<le> r \<and> r < YEARDAYS Y"
  proof (cases "n < 0")
    case True
    obtain r' where up: "fromdate_up (?y - 1) ?day = (Y, r')" and r': "r = YEARDAYS Y + r'"
      using Y True by (auto simp: Yr_def Let_def split: prod.splits)
    have "?y \<le> 0" "- 365 < n - 365 * ?y"
      using True by (simp_all add: sdiv_nonpos)
    then have "- YEARDAYS (?y - 1) \<le> ?day"
      using jan1_linear(2) [of ?y] YEARDAYS_bounds(1) [of "?y - 1"] day by linarith
    from fromdate_up_spec [OF this up] r' day jan1_Suc [of Y] show ?thesis by auto
  next
    case False
    then have down: "fromdate_down ?y ?day = (Y, r)"
      using Y by (simp add: Yr_def)
    have "0 \<le> ?y" "n - 365 * ?y < 365"
      using False by (simp_all add: sdiv_nonneg)
    then have "?day < YEARDAYS ?y"
      using jan1_linear(1) [of ?y] YEARDAYS_bounds(1) [of ?y] day by linarith
    from fromdate_down_spec [OF this down] day show ?thesis by auto
  qed
  obtain m d where md: "fromdate_month 1 (r + 1) Y = (m, d)" by (cases "fromdate_month 1 (r + 1) Y")
  with fromdate_month_spec [of 1 "r + 1" Y m d] r
  have v: "valid_dmy d m Y" and "cumdays m Y + d = r + 1" by simp_all
  then have "daynum d m Y = n" using r by (simp add: daynum_def)
  moreover have "fromdate n = (d, m, unastro Y)"
    using assms Y md unfolding fromdate_def Let_def Yr_def [symmetric] unastro_def by simp
  ultimately show ?thesis using v that by blast
qed

lemma DATE_valid_dmy:
  assumes "DATE d m y" "\<not> (y < 0 \<and> m = 2 \<and> d = 29)"
  shows "valid_dmy d m (astro y)"
  using assms by (auto simp: DATE_def valid_dmy_def astro_def MONTHDAYS_def split: if_splits)

lemma leapyear_pred:
  assumes "leapyear Y"
  shows "\<not> leapyear (Y - 1)"
proof
  assume "leapyear (Y - 1)"
  with assms have "4 dvd Y" "4 dvd Y - 1" by (simp_all add: leapyear_dvd)
  then have "4 dvd Y - (Y - 1)" by (rule dvd_diff)
  then show False by simp
qed

lemma valid_dmy_DATE:
  assumes "valid_dmy d m Y" "YEAR_MIN \<le> unastro Y" "unastro Y \<le> YEAR_MAX"
  shows "DATE d m (unastro Y) \<longleftrightarrow> \<not> (Y \<le> 0 \<and> m = 2 \<and> d = 29)"
  using assms leapyear_pred [of Y]
  by (auto simp: DATE_def valid_dmy_def unastro_def MONTHDAYS_def split: if_splits)

lemma unastro_neg_iff: "unastro Y < 0 \<longleftrightarrow> Y \<le> 0"
  by (simp add: unastro_def)

lemma fromdate_of_daynum:
  assumes "valid_dmy d m Y" "YEAR_MIN \<le> Y" "Y \<le> YEAR_MAX"
  shows "fromdate (daynum d m Y) = (d, m, unastro Y)"
proof -
  from daynum_range(1) [OF assms] have "daynum d m Y \<noteq> int_nil" by simp
  then obtain d' m' Y' where f: "fromdate (daynum d m Y) = (d', m', unastro Y')"
    and v': "valid_dmy d' m' Y'" and eq: "daynum d' m' Y' = daynum d m Y"
    by (rule fromdate_daynum)
  from daynum_inj [OF assms(1) v' eq [symmetric]] have "d = d'" "m = m'" "Y = Y'" by auto
  with f show ?thesis by simp
qed

lemma todate_unastro:
  assumes "valid_dmy d m Y" "YEAR_MIN \<le> unastro Y" "unastro Y \<le> YEAR_MAX"
  shows "todate d m (unastro Y) = (if Y \<le> 0 \<and> m = 2 \<and> d = 29 then date_nil else daynum d m Y)"
  using valid_dmy_DATE [OF assms] by (auto simp: todate_daynum todate_not_DATE)

lemma bc_leapday:
  assumes "y < 0" "DATE 29 2 y"
  shows "DATE 1 3 y" "todate 29 2 y = todate 1 3 y"
proof -
  have "leapyear y" and r: "YEAR_MIN \<le> y" "y \<le> YEAR_MAX"
    using assms by (auto simp: DATE_def MONTHDAYS_def split: if_splits)
  then have "\<not> leapyear (y + 1)"
    using leapyear_pred [of "y + 1"] by auto
  moreover show "DATE 1 3 y"
    using assms r by (auto simp: DATE_def MONTHDAYS_def NODAYS_def)
  ultimately show "todate 29 2 y = todate 1 3 y"
    using assms by (simp add: todate_daynum daynum_def cumdays_def CUMDAYS_def astro_def)
qed

lemma fromdate_DATE:
  assumes "DATE d m y" "\<not> (y < 0 \<and> m = 2 \<and> d = 29)"
  shows "fromdate (todate d m y) = (d, m, y)"
proof -
  have "y \<noteq> 0" "YEAR_MIN \<le> astro y" "astro y \<le> YEAR_MAX"
    using assms(1) by (auto simp: DATE_def astro_def YEAR_MIN_def YEAR_MAX_def)
  with fromdate_of_daynum [OF DATE_valid_dmy [OF assms]] todate_daynum [OF assms(1)]
  show ?thesis by simp
qed

text \<open>
  C1.  For every day that the validity test accepts, \<^verbatim>\<open>fromdate\<close> recovers the day, month and year
  that \<^verbatim>\<open>todate\<close> was given, except for a 29th of February of a year before the common era,
  which comes back as the 1st of March: the test takes it from the wrong (unshifted) year.
\<close>

theorem fromdate_todate:
  assumes "DATE d m y"
  shows "fromdate (todate d m y) = (if y < 0 \<and> m = 2 \<and> d = 29 then (1, 3, y) else (d, m, y))"
proof (cases "y < 0 \<and> m = 2 \<and> d = 29")
  case True
  with assms have "y < 0" "DATE 29 2 y" by simp_all
  from bc_leapday [OF this] fromdate_DATE [of 1 3 y] True show ?thesis by simp
next
  case False
  with fromdate_DATE [OF assms] show ?thesis by simp
qed

theorem fromdate_todate_witness:
  "DATE 29 2 2012 \<and> fromdate (todate 29 2 2012) = (29, 2, 2012) \<and>
   DATE 29 2 (- 4) \<and> fromdate (todate 29 2 (- 4)) = (1, 3, - 4)"
proof -
  have h: "DATE 29 2 2012" "DATE 29 2 (- 4)" by code_simp+
  show ?thesis using h fromdate_todate [OF h(1)] fromdate_todate [OF h(2)] by simp
qed

text \<open>
  C2.  Every day number whose year lies in the supported range is recovered by \<^verbatim>\<open>todate\<close> from
  the fields \<^verbatim>\<open>fromdate\<close> computes, except that the leap days before year 1 are refused
  and give nil.
\<close>

theorem todate_fromdate:
  assumes "n \<noteq> date_nil" "fromdate n = (d, m, y)" "YEAR_MIN \<le> y" "y \<le> YEAR_MAX"
  shows "todate d m y = (if y < 0 \<and> m = 2 \<and> d = 29 then date_nil else n)"
proof -
  obtain d' m' Y where f: "fromdate n = (d', m', unastro Y)"
    and v: "valid_dmy d' m' Y" and n: "daynum d' m' Y = n"
    using assms(1) by (rule fromdate_daynum)
  with assms(2) have eq: "d' = d" "m' = m" "y = unastro Y" by simp_all
  with todate_unastro [OF v] assms(3,4) n show ?thesis
    by (simp add: unastro_neg_iff)
qed

theorem todate_fromdate_witness:
  "fromdate 719528 = (1, 1, 1970) \<and> todate 1 1 1970 = 719528
   \<and> fromdate 59 = (29, 2, - 1) \<and> todate 29 2 (- 1) = date_nil"
proof -
  have h: "fromdate 719528 = (1, 1, 1970)" by code_simp
  have g: "fromdate 59 = (29, 2, - 1)" by code_simp
  show ?thesis
    using h todate_fromdate [OF _ h] g todate_fromdate [OF _ g]
    by (simp add: YEAR_MIN_def YEAR_MAX_def)
qed



lemma fromtime_fields:
  assumes "0 \<le> h" "0 \<le> m" "m < 60" "0 \<le> s" "s < 60" "0 \<le> x" "x < 1000"
  shows "fromtime (((h * 60) + m) * 60 * 1000 + s * 1000 + x) = (h, m, s, x)"
proof -
  let ?n = "((h * 60) + m) * 60 * 1000 + s * 1000 + x"
  have h: "?n sdiv 3600000 = h" "?n - h * 3600000 = m * 60000 + s * 1000 + x"
    using assms by (simp_all add: sdiv_nonneg)
  have m: "(m * 60000 + s * 1000 + x) sdiv 60000 = m"
    "m * 60000 + s * 1000 + x - m * 60000 = s * 1000 + x"
    using assms by (simp_all add: sdiv_nonneg)
  have s: "(s * 1000 + x) sdiv 1000 = s" "s * 1000 + x - s * 1000 = x"
    using assms by (simp_all add: sdiv_nonneg)
  have "0 \<le> ?n" using assms by simp
  then have "?n \<noteq> int_nil" by (rule nonneg_not_nil)
  then show ?thesis
    by (simp only: fromtime_def Let_def h m s if_True simp_thms)
qed

lemma fromtime_div_mod:
  assumes "0 \<le> n"
  shows "fromtime n = (n div 3600000, n mod 3600000 div 60000, n mod 60000 div 1000, n mod 1000)"
proof -
  have "n mod 3600000 mod 60000 = n mod 60000" "n mod 60000 mod 1000 = n mod 1000"
    by (rule mod_mod_cancel; simp)+
  moreover have "n sdiv 3600000 = n div 3600000"
    "n mod 3600000 sdiv 60000 = n mod 3600000 div 60000"
    "n mod 60000 sdiv 1000 = n mod 60000 div 1000"
    using assms by (simp_all add: sdiv_nonneg)
  ultimately show ?thesis
    using nonneg_not_nil [OF assms]
    by (simp only: fromtime_def Let_def if_True simp_thms minus_div_mult_eq_mod)
qed

lemma fromtime_TIME:
  assumes "0 \<le> n" "n < 86400000" "fromtime n = (h, m, s, x)"
  shows "TIME h m s x \<and> ((h * 60 + m) * 60 + s) * 1000 + x = n"
proof -
  define a b where "a = n mod 3600000" and "b = n mod 60000"
  have f: "h = n div 3600000" "m = a div 60000" "s = b div 1000" "x = b mod 1000"
    using assms(3) fromtime_div_mod [OF assms(1)]
    by (simp_all add: a_def b_def mod_mod_cancel)
  have ab: "0 \<le> a" "a < 3600000" "0 \<le> b" "b < 60000" "a mod 60000 = b"
    by (simp_all add: a_def b_def mod_mod_cancel)
  have "0 \<le> h" "h < 24" "0 \<le> m" "m < 60" "0 \<le> s" "s < 60" "0 \<le> x" "x < 1000"
    using assms(1,2) ab unfolding f by simp_all
  moreover have "n = h * 3600000 + a" "a = m * 60000 + b" "b = s * 1000 + x"
    unfolding f using div_mult_mod_eq [of n 3600000] div_mult_mod_eq [of a 60000]
      div_mult_mod_eq [of b 1000] ab(5) by (simp_all only: a_def)
  ultimately show ?thesis
    by (simp add: TIME_def)
qed

text \<open>
  \<^verbatim>\<open>totime\<close> and \<^verbatim>\<open>fromtime\<close> are inverse to each other between the valid clock readings
  and the milliseconds of a day.
\<close>

theorem time_roundtrip:
  "(TIME h m s x \<longrightarrow> 0 \<le> totime h m s x \<and> totime h m s x < 86400000
      \<and> fromtime (totime h m s x) = (h, m, s, x))
   \<and> (0 \<le> n \<and> n < 86400000 \<longrightarrow>
      (case fromtime n of (h, m, s, x) \<Rightarrow> TIME h m s x \<and> totime h m s x = n))"
proof (intro conjI impI)
  assume t: "TIME h m s x"
  then show "0 \<le> totime h m s x" "totime h m s x < 86400000"
    by (auto simp: TIME_def totime_def)
  have "totime h m s x = ((h * 60) + m) * 60 * 1000 + s * 1000 + x"
    using t by (simp add: totime_def)
  with t fromtime_fields [of h m s x] show "fromtime (totime h m s x) = (h, m, s, x)"
    by (simp add: TIME_def)
next
  assume "0 \<le> n \<and> n < 86400000"
  then show "case fromtime n of (h, m, s, x) \<Rightarrow> TIME h m s x \<and> totime h m s x = n"
    using fromtime_TIME [of n] by (auto simp: totime_def split: prod.splits)
qed

theorem time_roundtrip_witness:
  "totime 23 59 59 999 = 86399999 \<and> fromtime 86399999 = (23, 59, 59, 999)"
  using time_roundtrip [of 23 59 59 999 86399999]
  by (simp add: TIME_def totime_def)

end
