(* ===== verification/Mtime_Arith.thy ===== *)
theory Mtime_Arith
  imports Mtime_Calendar
begin

text \<open>
  Date and timestamp arithmetic of \<^verbatim>\<open>mtime.c\<close>: adding days, months, years and
  milliseconds, differences, and the field extraction functions.

  The clients of \<^verbatim>\<open>date_adddays\<close> rely on one contract: inside the supported range it
  adds, outside it answers nil, and nil is absorbing.  It is the locale
  \<open>day_adder\<close>; the loops over months and years are chains of such additions.
\<close>

subsection \<open>Dates\<close>

definition DATE_MAX :: int where "DATE_MAX = todate 31 12 YEAR_MAX"
definition DATE_MIN :: int where "DATE_MIN = todate 1 1 YEAR_MIN"

definition date_adddays :: "int \<Rightarrow> int \<Rightarrow> int" where
  "date_adddays v delta =
    (let cur = v; inc = delta in
     if cur = int_nil \<or> inc = int_nil \<or> (inc > 0 \<and> DATE_MAX - cur < inc)
        \<or> (inc < 0 \<and> DATE_MIN - cur > inc)
     then date_nil else i32 (v + delta))"

function addmonths_up :: "int \<Rightarrow> int \<Rightarrow> int \<Rightarrow> int \<Rightarrow> int" where
  "addmonths_up z m y ret =
    (if z > 0 then
       let x = MONTHDAYS m y; (m, y) = (if m + 1 = 13 then (1, y + 1) else (m + 1, y))
       in addmonths_up (z - 1) m y (date_adddays ret x)
     else ret)"
  by pat_completeness auto
termination
  by (relation "measure (\<lambda>(z, m, y, ret). nat z)") auto

function addmonths_down :: "int \<Rightarrow> int \<Rightarrow> int \<Rightarrow> int \<Rightarrow> int" where
  "addmonths_down z m y ret =
    (if z < 0 then
       let (m, y) = (if m - 1 = 0 then (12, y - 1) else (m - 1, y)); x = - MONTHDAYS m y
       in addmonths_down (z + 1) m y (date_adddays ret x)
     else ret)"
  by pat_completeness auto
termination
  by (relation "measure (\<lambda>(z, m, y, ret). nat (- z))") auto

definition date_addmonths :: "int \<Rightarrow> int \<Rightarrow> int" where
  "date_addmonths v delta =
    (if v = date_nil \<or> delta = int_nil then date_nil
     else let (d, m, y) = fromdate v
          in if delta > 0 then addmonths_up delta m y v else addmonths_down delta m y v)"

function addyears_up :: "int \<Rightarrow> int \<Rightarrow> int \<Rightarrow> int" where
  "addyears_up z y ret =
    (if z > 0 then addyears_up (z - 1) (y + 1) (date_adddays ret (YEARDAYS y)) else ret)"
  by pat_completeness auto
termination
  by (relation "measure (\<lambda>(z, y, ret). nat z)") auto

function addyears_down :: "int \<Rightarrow> int \<Rightarrow> int \<Rightarrow> int" where
  "addyears_down z y ret =
    (if z < 0 then addyears_down (z + 1) (y - 1) (date_adddays ret (- YEARDAYS (y - 1))) else ret)"
  by pat_completeness auto
termination
  by (relation "measure (\<lambda>(z, y, ret). nat (- z))") auto

declare addmonths_up.simps [simp del] addmonths_down.simps [simp del]
  addyears_up.simps [simp del] addyears_down.simps [simp del]

definition MTIMEdate_addyears :: "int \<Rightarrow> int \<Rightarrow> int" where
  "MTIMEdate_addyears v delta =
    (if v = date_nil \<or> delta = int_nil then date_nil
     else let (d, m, y) = fromdate v; y = (if m \<ge> 3 then y + 1 else y)
          in if delta > 0 then addyears_up delta y v else addyears_down delta y v)"

definition MTIMEdate_diff :: "int \<Rightarrow> int \<Rightarrow> int" where
  "MTIMEdate_diff v1 v2 =
    (if v1 = date_nil \<or> v2 = date_nil then int_nil else i32 (v1 - v2))"

subsection \<open>The contract of date_adddays and chains of additions\<close>

locale day_adder =
  fixes add :: "int \<Rightarrow> int \<Rightarrow> int" and lo hi :: int
  assumes add_in: "lo \<le> v \<Longrightarrow> v \<le> hi \<Longrightarrow> k \<noteq> int_nil \<Longrightarrow> lo \<le> v + k \<Longrightarrow> v + k \<le> hi \<Longrightarrow> add v k = v + k"
    and add_out: "lo \<le> v \<Longrightarrow> v \<le> hi \<Longrightarrow> \<not> (lo \<le> v + k \<and> v + k \<le> hi) \<Longrightarrow> add v k = int_nil"
    and add_nil: "add int_nil k = int_nil"
begin

lemma chain_nil: "foldl add int_nil ks = int_nil"
  by (induction ks) (simp_all add: add_nil)

lemma chain_nonneg:
  assumes "\<forall>k\<in>set ks. 0 \<le> k" "lo \<le> v" "v \<le> hi"
  shows "foldl add v ks = (if v + sum_list ks \<le> hi then v + sum_list ks else int_nil)"
  using assms
proof (induction ks arbitrary: v)
  case (Cons k ks)
  have s: "0 \<le> sum_list ks" using Cons.prems(1) by (simp add: sum_list_nonneg)
  show ?case
  proof (cases "v + k \<le> hi")
    case True
    with Cons.prems have "add v k = v + k" by (intro add_in) auto
    with Cons.IH [of "v + k"] Cons.prems True show ?thesis by (simp add: add.assoc)
  next
    case False
    with Cons.prems have "add v k = int_nil" by (intro add_out) auto
    with False s show ?thesis by (simp add: chain_nil)
  qed
qed simp

lemma chain_nonpos:
  assumes "\<forall>k\<in>set ks. int_nil < k \<and> k \<le> 0" "lo \<le> v" "v \<le> hi"
  shows "foldl add v ks = (if lo \<le> v + sum_list ks then v + sum_list ks else int_nil)"
  using assms
proof (induction ks arbitrary: v)
  case (Cons k ks)
  have s: "sum_list ks \<le> 0" using Cons.prems(1) by (simp add: sum_list_nonpos)
  show ?case
  proof (cases "lo \<le> v + k")
    case True
    with Cons.prems have "add v k = v + k" by (intro add_in) auto
    with Cons.IH [of "v + k"] Cons.prems True show ?thesis by (simp add: add.assoc)
  next
    case False
    with Cons.prems have "add v k = int_nil" by (intro add_out) auto
    with False s show ?thesis by (simp add: chain_nil)
  qed
qed simp

end

lemma DATE_MAX_eq: "DATE_MAX = 2143028226"
  by code_simp

lemma DATE_MIN_eq: "DATE_MIN = - 2143027496"
  by code_simp

interpretation dates: day_adder date_adddays DATE_MIN DATE_MAX
  by unfold_locales (auto simp: date_adddays_def DATE_MAX_eq DATE_MIN_eq cint)

text \<open>The day counts that the loops over months and years add, in their order.\<close>

fun month_steps :: "nat \<Rightarrow> int \<Rightarrow> int \<Rightarrow> int list" where
  "month_steps 0 m y = []"
| "month_steps (Suc k) m y =
     MONTHDAYS m y # (if m = 12 then month_steps k 1 (y + 1) else month_steps k (m + 1) y)"

fun month_steps_back :: "nat \<Rightarrow> int \<Rightarrow> int \<Rightarrow> int list" where
  "month_steps_back 0 m y = []"
| "month_steps_back (Suc k) m y =
     (if m = 1 then - MONTHDAYS 12 (y - 1) # month_steps_back k 12 (y - 1)
      else - MONTHDAYS (m - 1) y # month_steps_back k (m - 1) y)"

lemma addmonths_up_steps:
  "addmonths_up z m y ret = foldl date_adddays ret (month_steps (nat z) m y)"
proof (induction z m y ret rule: addmonths_up.induct)
  case (1 z m y ret)
  show ?case
  proof (cases "z > 0")
    case True
    then have "nat z = Suc (nat (z - 1))" by simp
    with True "1.IH" [OF True refl] show ?thesis
      by (auto simp: addmonths_up.simps [of z m y ret] Let_def)
  qed (simp add: addmonths_up.simps [of z m y ret])
qed

lemma addmonths_down_steps:
  "addmonths_down z m y ret = foldl date_adddays ret (month_steps_back (nat (- z)) m y)"
proof (induction z m y ret rule: addmonths_down.induct)
  case (1 z m y ret)
  show ?case
  proof (cases "z < 0")
    case True
    then have "nat (- z) = Suc (nat (- (z + 1)))" by simp
    with True "1.IH" [OF True] show ?thesis
      by (auto simp: addmonths_down.simps [of z m y ret] Let_def)
  qed (simp add: addmonths_down.simps [of z m y ret])
qed

lemma daynum_next_month:
  assumes "1 \<le> m" "m \<le> 12"
  shows "daynum d m Y + MONTHDAYS m Y = (if m = 12 then daynum d 1 (Y + 1) else daynum d (m + 1) Y)"
proof (cases "m = 12")
  case True
  then show ?thesis using cumdays_12 [of Y] by (simp add: daynum_def jan1_Suc)
next
  case False
  with assms cumdays_step [of m Y] show ?thesis by (simp add: daynum_def)
qed

text \<open>The month \<open>k\<close> months after month \<open>m\<close> of year \<open>Y\<close>.\<close>

definition month_shift :: "int \<Rightarrow> int \<Rightarrow> int \<Rightarrow> int \<times> int" where
  "month_shift m Y k = (let i = 12 * Y + (m - 1) + k in (i mod 12 + 1, i div 12))"

lemma month_shift_0 [simp]: "1 \<le> m \<Longrightarrow> m \<le> 12 \<Longrightarrow> month_shift m Y 0 = (m, Y)"
  by (simp add: month_shift_def Let_def)

lemma month_shift_step:
  "month_shift m Y (k + 1) = (if m = 12 then month_shift 1 (Y + 1) k else month_shift (m + 1) Y k)"
  "month_shift m Y (k - 1) = (if m = 1 then month_shift 12 (Y - 1) k else month_shift (m - 1) Y k)"
  by (simp_all add: month_shift_def Let_def algebra_simps)

lemma month_steps_sum:
  assumes "1 \<le> m" "m \<le> 12"
  shows "daynum d m Y + sum_list (month_steps k m Y)
    = (case month_shift m Y (int k) of (m', Y') \<Rightarrow> daynum d m' Y')"
  using assms
proof (induction k arbitrary: m Y)
  case (Suc k)
  have "daynum d m Y + sum_list (month_steps (Suc k) m Y) =
      (if m = 12 then daynum d 1 (Y + 1) + sum_list (month_steps k 1 (Y + 1))
       else daynum d (m + 1) Y + sum_list (month_steps k (m + 1) Y))"
    using daynum_next_month [of m d Y] Suc.prems by auto
  also have "\<dots> = (case month_shift m Y (int k + 1) of (m', Y') \<Rightarrow> daynum d m' Y')"
    using Suc.IH [of 1 "Y + 1"] Suc.IH [of "m + 1" Y] Suc.prems by (auto simp: month_shift_step(1))
  finally show ?case by (simp add: add.commute)
qed simp

lemma month_steps_back_sum:
  assumes "1 \<le> m" "m \<le> 12"
  shows "daynum d m Y + sum_list (month_steps_back k m Y)
    = (case month_shift m Y (- int k) of (m', Y') \<Rightarrow> daynum d m' Y')"
  using assms
proof (induction k arbitrary: m Y)
  case (Suc k)
  have "daynum d m Y + sum_list (month_steps_back (Suc k) m Y) =
      (if m = 1 then daynum d 12 (Y - 1) + sum_list (month_steps_back k 12 (Y - 1))
       else daynum d (m - 1) Y + sum_list (month_steps_back k (m - 1) Y))"
    using daynum_next_month [of "m - 1" d Y] daynum_next_month [of 12 d "Y - 1"] Suc.prems by auto
  also have "\<dots> = (case month_shift m Y (- int k - 1) of (m', Y') \<Rightarrow> daynum d m' Y')"
    using Suc.IH [of 12 "Y - 1"] Suc.IH [of "m - 1" Y] Suc.prems by (auto simp: month_shift_step(2))
  moreover have "- int (Suc k) = - int k - 1" by simp
  ultimately show ?case by (simp only:)
qed simp

lemma month_steps_nonneg: "1 \<le> m \<Longrightarrow> m \<le> 12 \<Longrightarrow> \<forall>x\<in>set (month_steps k m Y). 0 \<le> x"
proof (induction k arbitrary: m Y)
  case (Suc k)
  then show ?case
    using MONTHDAYS_bounds(1) [of m Y] Suc.IH [of 1 "Y + 1"] Suc.IH [of "m + 1" Y] by auto
qed simp

lemma month_steps_back_nonpos:
  "1 \<le> m \<Longrightarrow> m \<le> 12 \<Longrightarrow> \<forall>x\<in>set (month_steps_back k m Y). int_nil < x \<and> x \<le> 0"
proof (induction k arbitrary: m Y)
  case (Suc k)
  then show ?case
    using MONTHDAYS_bounds [of "m - 1" Y] MONTHDAYS_bounds [of 12 "Y - 1"]
      Suc.IH [of 12 "Y - 1"] Suc.IH [of "m - 1" Y] by auto
qed simp

fun year_steps :: "nat \<Rightarrow> int \<Rightarrow> int list" where
  "year_steps 0 y = []"
| "year_steps (Suc k) y = YEARDAYS y # year_steps k (y + 1)"

fun year_steps_back :: "nat \<Rightarrow> int \<Rightarrow> int list" where
  "year_steps_back 0 y = []"
| "year_steps_back (Suc k) y = - YEARDAYS (y - 1) # year_steps_back k (y - 1)"

lemma addyears_up_steps:
  "addyears_up z y ret = foldl date_adddays ret (year_steps (nat z) y)"
proof (induction z y ret rule: addyears_up.induct)
  case (1 z y ret)
  show ?case
  proof (cases "z > 0")
    case True
    then have "nat z = Suc (nat (z - 1))" by simp
    with True "1.IH" [OF True] show ?thesis by (simp add: addyears_up.simps [of z y ret])
  qed (simp add: addyears_up.simps [of z y ret])
qed

lemma addyears_down_steps:
  "addyears_down z y ret = foldl date_adddays ret (year_steps_back (nat (- z)) y)"
proof (induction z y ret rule: addyears_down.induct)
  case (1 z y ret)
  show ?case
  proof (cases "z < 0")
    case True
    then have "nat (- z) = Suc (nat (- (z + 1)))" by simp
    with True "1.IH" [OF True] show ?thesis by (simp add: addyears_down.simps [of z y ret])
  qed (simp add: addyears_down.simps [of z y ret])
qed

text \<open>The year whose February lies between a day and the same day of the next year.\<close>

abbreviation leap_from :: "int \<Rightarrow> int \<Rightarrow> int" where
  "leap_from m Y \<equiv> (if m \<ge> 3 then Y + 1 else Y)"

lemma daynum_next_year: "daynum d m (Y + 1) = daynum d m Y + YEARDAYS (leap_from m Y)"
  by (auto simp: daynum_def jan1_Suc cumdays_def YEARDAYS_def)

lemma year_steps_sum:
  "daynum d m Y + sum_list (year_steps k (leap_from m Y)) = daynum d m (Y + int k)"
proof (induction k arbitrary: Y)
  case (Suc k)
  have "daynum d m Y + sum_list (year_steps (Suc k) (leap_from m Y))
      = daynum d m (Y + 1) + sum_list (year_steps k (leap_from m (Y + 1)))"
    by (simp add: daynum_next_year)
  then show ?case using Suc.IH [of "Y + 1"] by (simp add: algebra_simps)
qed simp

lemma year_steps_back_sum:
  "daynum d m Y + sum_list (year_steps_back k (leap_from m Y)) = daynum d m (Y - int k)"
proof (induction k arbitrary: Y)
  case (Suc k)
  have "daynum d m Y = daynum d m (Y - 1) + YEARDAYS (leap_from m (Y - 1))"
    using daynum_next_year [of d m "Y - 1"] by simp
  then have "daynum d m Y + sum_list (year_steps_back (Suc k) (leap_from m Y))
      = daynum d m (Y - 1) + sum_list (year_steps_back k (leap_from m (Y - 1)))"
    by (simp split: if_splits)
  then show ?case using Suc.IH [of "Y - 1"] by (simp add: algebra_simps)
qed simp

lemma year_steps_nonneg: "\<forall>x\<in>set (year_steps k y). 0 \<le> x"
  by (induction k arbitrary: y) (simp_all add: YEARDAYS_def)

lemma year_steps_back_nonpos: "\<forall>x\<in>set (year_steps_back k y). int_nil < x \<and> x \<le> 0"
  by (induction k arbitrary: y) (simp_all add: YEARDAYS_def)

text \<open>A day number restricted to the supported range, nil outside it.\<close>

definition in_dates :: "int \<Rightarrow> int" where
  "in_dates n = (if DATE_MIN \<le> n \<and> n \<le> DATE_MAX then n else date_nil)"

lemma DATE_in_range:
  assumes "valid_dmy d m y" "0 < y" "y \<le> YEAR_MAX"
  shows "DATE_MIN \<le> daynum d m y" "daynum d m y \<le> DATE_MAX"
proof -
  have "DATE 31 12 YEAR_MAX" by code_simp
  then have mx: "DATE_MAX = daynum 31 12 YEAR_MAX"
    by (simp add: DATE_MAX_def todate_daynum astro_def YEAR_MAX_def)
  have "jan1 (y + 1) \<le> jan1 (YEAR_MAX + 1)"
    using assms(3) jan1_mono [of y "YEAR_MAX + 1"] by simp
  moreover have "daynum 31 12 YEAR_MAX + 1 = jan1 (YEAR_MAX + 1)"
    using cumdays_12 [of YEAR_MAX]
    by (simp add: daynum_def jan1_Suc MONTHDAYS_def NODAYS_def)
  ultimately show "daynum d m y \<le> DATE_MAX"
    using daynum_year(2) [OF assms(1)] mx by simp
  show "DATE_MIN \<le> daynum d m y"
    using daynum_year(1) [OF assms(1)] jan1_linear(1) [of y] assms(2) by (simp add: DATE_MIN_eq)
qed

text \<open>
  C26.  Adding months to a date of the common era keeps the day offset within the month and
  moves the month: the result is day \<open>d\<close> counted from the first of the month that lies
  \<open>k\<close> months away, or nil when that leaves the supported range.
\<close>

theorem date_addmonths_correct:
  assumes "DATE d m y" "0 < y" "k \<noteq> int_nil"
  shows "date_addmonths (todate d m y) k =
    in_dates (case month_shift m y k of (m', Y') \<Rightarrow> daynum d m' Y')"
proof -
  have v: "valid_dmy d m y" and y: "y \<le> YEAR_MAX" "YEAR_MIN \<le> y" and m: "1 \<le> m" "m \<le> 12"
    using assms(1,2) by (auto simp: DATE_def valid_dmy_def YEAR_MIN_def YEAR_MAX_def)
  let ?n = "daynum d m y"
  have n: "todate d m y = ?n" using assms(1,2) by (simp add: todate_daynum astro_def)
  note r = DATE_in_range [OF v assms(2) y(1)]
  have f: "fromdate ?n = (d, m, y)"
    using fromdate_of_daynum [OF v y(2,1)] assms(2) by (simp add: unastro_def)
  have nil: "?n \<noteq> date_nil" using r(1) by (simp add: DATE_MIN_eq)
  show ?thesis
  proof (cases "k > 0")
    case True
    then have "date_addmonths ?n k = foldl date_adddays ?n (month_steps (nat k) m y)"
      using nil f assms(3) by (simp add: date_addmonths_def addmonths_up_steps)
    also have "\<dots> = in_dates (?n + sum_list (month_steps (nat k) m y))"
      using dates.chain_nonneg [OF month_steps_nonneg [OF m] r] r(1)
        sum_list_nonneg [of "month_steps (nat k) m y"] month_steps_nonneg [OF m]
      by (auto simp: in_dates_def)
    finally show ?thesis using month_steps_sum [OF m, of d y "nat k"] True n by simp
  next
    case False
    then have "date_addmonths ?n k = foldl date_adddays ?n (month_steps_back (nat (- k)) m y)"
      using nil f assms(3) by (simp add: date_addmonths_def addmonths_down_steps)
    also have "\<dots> = in_dates (?n + sum_list (month_steps_back (nat (- k)) m y))"
      using dates.chain_nonpos [OF month_steps_back_nonpos [OF m] r] r(2)
        sum_list_nonpos [of "month_steps_back (nat (- k)) m y"] month_steps_back_nonpos [OF m]
      by (auto simp: in_dates_def)
    finally show ?thesis using month_steps_back_sum [OF m, of d y "nat (- k)"] False n by simp
  qed
qed

theorem date_addmonths_witness:
  "DATE 31 1 2011 \<and> date_addmonths (todate 31 1 2011) 1 = todate 3 3 2011
   \<and> date_addmonths (todate 31 1 2011) (- 14) = todate 1 12 2009"
proof -
  have h: "DATE 31 1 2011" by code_simp
  have a: "in_dates (case month_shift 1 2011 1 of (m', Y') \<Rightarrow> daynum 31 m' Y') = todate 3 3 2011"
    by code_simp
  have b: "in_dates (case month_shift 1 2011 (- 14) of (m', Y') \<Rightarrow> daynum 31 m' Y')
      = todate 1 12 2009"
    by code_simp
  show ?thesis
    using h date_addmonths_correct [OF h, of 1] date_addmonths_correct [OF h, of "- 14"] a b by simp
qed

text \<open>
  Adding years to a date of the common era gives the same day and month of the year
  \<open>k\<close> years away, a 29th of February becoming the 1st of March of a common year, or nil
  outside the supported range.
\<close>

theorem MTIMEdate_addyears_correct:
  assumes "DATE d m y" "0 < y" "k \<noteq> int_nil"
  shows "MTIMEdate_addyears (todate d m y) k = in_dates (daynum d m (y + k))"
proof -
  have v: "valid_dmy d m y" and y: "y \<le> YEAR_MAX" "YEAR_MIN \<le> y" and m: "1 \<le> m" "m \<le> 12"
    using assms(1,2) by (auto simp: DATE_def valid_dmy_def YEAR_MIN_def YEAR_MAX_def)
  let ?n = "daynum d m y"
  have n: "todate d m y = ?n" using assms(1,2) by (simp add: todate_daynum astro_def)
  note r = DATE_in_range [OF v assms(2) y(1)]
  have f: "fromdate ?n = (d, m, y)"
    using fromdate_of_daynum [OF v y(2,1)] assms(2) by (simp add: unastro_def)
  have nil: "?n \<noteq> date_nil" using r(1) by (simp add: DATE_MIN_eq)
  show ?thesis
  proof (cases "k > 0")
    case True
    then have "MTIMEdate_addyears ?n k = foldl date_adddays ?n (year_steps (nat k) (leap_from m y))"
      using nil f assms(3) by (simp add: MTIMEdate_addyears_def addyears_up_steps)
    also have "\<dots> = in_dates (?n + sum_list (year_steps (nat k) (leap_from m y)))"
      using dates.chain_nonneg [OF year_steps_nonneg r] r(1)
        sum_list_nonneg [of "year_steps (nat k) (leap_from m y)"] year_steps_nonneg
      by (auto simp: in_dates_def)
    finally show ?thesis using year_steps_sum [of d m y "nat k"] True n by simp
  next
    case False
    then have "MTIMEdate_addyears ?n k
        = foldl date_adddays ?n (year_steps_back (nat (- k)) (leap_from m y))"
      using nil f assms(3) by (simp add: MTIMEdate_addyears_def addyears_down_steps)
    also have "\<dots> = in_dates (?n + sum_list (year_steps_back (nat (- k)) (leap_from m y)))"
      using dates.chain_nonpos [OF year_steps_back_nonpos r] r(2)
        sum_list_nonpos [of "year_steps_back (nat (- k)) (leap_from m y)"] year_steps_back_nonpos
      by (auto simp: in_dates_def)
    finally show ?thesis using year_steps_back_sum [of d m y "nat (- k)"] False n by simp
  qed
qed

theorem MTIMEdate_addyears_witness:
  "DATE 29 2 2012 \<and> MTIMEdate_addyears (todate 29 2 2012) 1 = todate 1 3 2013"
proof -
  have h: "DATE 29 2 2012" by code_simp
  have a: "in_dates (daynum 29 2 (2012 + 1)) = todate 1 3 2013" by code_simp
  show ?thesis using h MTIMEdate_addyears_correct [OF h, of 1] a by simp
qed

subsection \<open>Timestamps\<close>

record timestamp =
  days :: int
  msecs :: int

abbreviation DAY_MSECS :: int where "DAY_MSECS \<equiv> 86400000"

definition timestamp_nil :: timestamp where
  "timestamp_nil = \<lparr>days = int_nil, msecs = 0\<rparr>"

definition ts_isnil :: "timestamp \<Rightarrow> bool" where
  "ts_isnil t \<longleftrightarrow> days t = days timestamp_nil \<and> msecs t = msecs timestamp_nil"

definition MTIMEtimestamp_add :: "timestamp \<Rightarrow> int \<Rightarrow> timestamp" where
  "MTIMEtimestamp_add v k =
    (if \<not> ts_isnil v \<and> k \<noteq> lng_nil then
       let dd = i32 (k sdiv DAY_MSECS);
           ms = i32 (i64 (msecs v + i64 (k - dd * DAY_MSECS)));
           (dd, ms) = (if ms \<ge> DAY_MSECS then (i32 (dd + 1), ms - DAY_MSECS)
                       else if ms < 0 then (i32 (dd - 1), ms + DAY_MSECS) else (dd, ms))
       in if dd \<noteq> 0 then
            let n = date_adddays (days v) dd
            in if n = int_nil then timestamp_nil else \<lparr>days = n, msecs = ms\<rparr>
          else \<lparr>days = days v, msecs = ms\<rparr>
     else timestamp_nil)"

definition MTIMEtimestamp_diff :: "timestamp \<Rightarrow> timestamp \<Rightarrow> int" where
  "MTIMEtimestamp_diff v1 v2 =
    (if ts_isnil v1 \<or> ts_isnil v2 then lng_nil
     else i64 (i32 (days v1 - days v2) * DAY_MSECS + i32 (msecs v1 - msecs v2)))"

definition ts_valid :: "timestamp \<Rightarrow> bool" where
  "ts_valid t \<longleftrightarrow> 0 \<le> msecs t \<and> msecs t < DAY_MSECS \<and> DATE_MIN \<le> days t \<and> days t \<le> DATE_MAX"

definition ts_msecs :: "timestamp \<Rightarrow> int" where
  "ts_msecs t = days t * DAY_MSECS + msecs t"

definition in_timestamps :: "int \<Rightarrow> timestamp" where
  "in_timestamps t =
    (if DATE_MIN \<le> t div DAY_MSECS \<and> t div DAY_MSECS \<le> DATE_MAX
     then \<lparr>days = t div DAY_MSECS, msecs = t mod DAY_MSECS\<rparr> else timestamp_nil)"

lemma ts_valid_not_nil: "ts_valid t \<Longrightarrow> \<not> ts_isnil t"
  by (simp add: ts_valid_def ts_isnil_def timestamp_nil_def DATE_MIN_eq)

lemma in_timestamps_eq:
  assumes "t = D * DAY_MSECS + ms" "0 \<le> ms" "ms < DAY_MSECS"
  shows "in_timestamps t =
    (if DATE_MIN \<le> D \<and> D \<le> DATE_MAX then \<lparr>days = D, msecs = ms\<rparr> else timestamp_nil)"
proof -
  have "t div DAY_MSECS = D"
    using assms by (intro int_div_pos_eq [of _ _ _ ms]) auto
  moreover have "t mod DAY_MSECS = ms"
    using assms by (intro int_mod_pos_eq [of _ _ D]) auto
  ultimately show ?thesis by (simp add: in_timestamps_def)
qed

lemma ts_add_exact:
  assumes "ts_valid v" "\<bar>k\<bar> < 2147483647 * DAY_MSECS"
  shows "MTIMEtimestamp_add v k = in_timestamps (ts_msecs v + k)"
proof -
  define q r where "q = k sdiv DAY_MSECS" and "r = k - q * DAY_MSECS"
  have q: "\<bar>q\<bar> < 2147483647" and r: "- DAY_MSECS < r" "r < DAY_MSECS"
    using assms(2) unfolding q_def r_def
    by (cases "0 \<le> k"; simp add: sdiv_nonneg sdiv_nonpos abs_if split: if_splits; linarith)+
  define ms0 where "ms0 = msecs v + r"
  define a where "a = (if ms0 \<ge> DAY_MSECS then 1 else if ms0 < 0 then - 1 else (0::int))"
  have ms0: "- DAY_MSECS < ms0" "ms0 < 2 * DAY_MSECS"
    using r assms(1) by (auto simp: ms0_def ts_valid_def)
  then have ms: "0 \<le> ms0 - a * DAY_MSECS" "ms0 - a * DAY_MSECS < DAY_MSECS"
    by (auto simp: a_def)
  have d: "DATE_MIN \<le> days v" "days v \<le> DATE_MAX" "\<not> ts_isnil v" "k \<noteq> lng_nil"
    using assms ts_valid_not_nil by (auto simp: ts_valid_def)
  have qa: "\<bar>q + a\<bar> < 2147483648" using q by (auto simp: a_def)
  have conv: "i32 q = q" "i64 r = r" "i32 (i64 (msecs v + r)) = ms0"
    using q r ms0 by (simp_all add: cint abs_if ms0_def split: if_splits)
  have split: "(if ms0 \<ge> DAY_MSECS then (i32 (q + 1), ms0 - DAY_MSECS)
      else if ms0 < 0 then (i32 (q - 1), ms0 + DAY_MSECS) else (q, ms0)) = (q + a, ms0 - a * DAY_MSECS)"
    using q by (auto simp: a_def cint abs_if split: if_splits)
  have "MTIMEtimestamp_add v k = (if q + a \<noteq> 0 then
      (if date_adddays (days v) (q + a) = int_nil then timestamp_nil
       else \<lparr>days = date_adddays (days v) (q + a), msecs = ms0 - a * DAY_MSECS\<rparr>)
      else \<lparr>days = days v, msecs = ms0 - a * DAY_MSECS\<rparr>)"
    using d(3,4) by (simp only: MTIMEtimestamp_add_def Let_def q_def [symmetric] conv
        r_def [symmetric] split prod.case simp_thms if_True)
  also have "\<dots> = (if DATE_MIN \<le> days v + (q + a) \<and> days v + (q + a) \<le> DATE_MAX
      then \<lparr>days = days v + (q + a), msecs = ms0 - a * DAY_MSECS\<rparr> else timestamp_nil)"
    using d(1,2) qa dates.add_in [of "days v" "q + a"] dates.add_out [of "days v" "q + a"]
    by (auto simp: DATE_MIN_eq)
  also have "\<dots> = in_timestamps (ts_msecs v + k)"
  proof (rule in_timestamps_eq [symmetric, OF _ ms])
    show "ts_msecs v + k = (days v + (q + a)) * DAY_MSECS + (ms0 - a * DAY_MSECS)"
      by (simp add: ts_msecs_def ms0_def r_def algebra_simps)
  qed
  finally show ?thesis .
qed

text \<open>
  C27.  Adding a number of milliseconds to a valid timestamp is exact: the result is the
  timestamp of that point in time, normalised to a day and the milliseconds of the
  day, or nil when the day leaves the supported range.  It holds for every interval
  shorter than \<open>2^31 - 1\<close> days.
\<close>

theorem MTIMEtimestamp_add_correct:
  assumes "ts_valid v" "\<bar>k\<bar> < 2147483647 * DAY_MSECS"
  shows "MTIMEtimestamp_add v k = in_timestamps (ts_msecs v + k)"
  using assms by (rule ts_add_exact)

theorem MTIMEtimestamp_add_witness:
  "ts_valid \<lparr>days = 719528, msecs = 86399999\<rparr>
   \<and> MTIMEtimestamp_add \<lparr>days = 719528, msecs = 86399999\<rparr> 1 = \<lparr>days = 719529, msecs = 0\<rparr>"
proof -
  have h: "ts_valid \<lparr>days = 719528, msecs = 86399999\<rparr>" by code_simp
  have a: "in_timestamps (ts_msecs \<lparr>days = 719528, msecs = 86399999\<rparr> + 1)
      = \<lparr>days = 719529, msecs = 0\<rparr>" by code_simp
  show ?thesis using h MTIMEtimestamp_add_correct [OF h, of 1] a by simp
qed

lemma in_timestamps_valid: "\<not> ts_isnil (in_timestamps t) \<Longrightarrow> ts_valid (in_timestamps t) \<and> ts_msecs (in_timestamps t) = t"
  by (auto simp: in_timestamps_def ts_valid_def ts_msecs_def ts_isnil_def)

lemma MTIMEtimestamp_diff_msecs:
  assumes "ts_valid v1" "ts_valid v2" "\<bar>ts_msecs v1 - ts_msecs v2\<bar> < 2147483647 * DAY_MSECS"
  shows "MTIMEtimestamp_diff v1 v2 = ts_msecs v1 - ts_msecs v2"
proof -
  have "\<bar>days v1 - days v2\<bar> \<le> 2147483647" "\<bar>msecs v1 - msecs v2\<bar> < DAY_MSECS"
    using assms by (auto simp: ts_valid_def ts_msecs_def)
  then have "i32 (days v1 - days v2) = days v1 - days v2"
    "i32 (msecs v1 - msecs v2) = msecs v1 - msecs v2"
    by (simp_all add: cint)
  moreover have "(days v1 - days v2) * DAY_MSECS + (msecs v1 - msecs v2) = ts_msecs v1 - ts_msecs v2"
    by (simp add: ts_msecs_def algebra_simps)
  ultimately show ?thesis
    using assms ts_valid_not_nil by (simp add: MTIMEtimestamp_diff_def cint)
qed

text \<open>
  The difference of two timestamps undoes the addition: if adding \<open>k\<close> milliseconds to
  a valid timestamp does not give nil, the difference of the result and the start is \<open>k\<close>,
  for intervals below \<open>2^31 - 1\<close> days.
\<close>

theorem timestamp_diff_add:
  assumes "ts_valid v" "\<bar>k\<bar> < 2147483647 * DAY_MSECS" "\<not> ts_isnil (MTIMEtimestamp_add v k)"
  shows "MTIMEtimestamp_diff (MTIMEtimestamp_add v k) v = k"
proof -
  let ?t = "in_timestamps (ts_msecs v + k)"
  have add: "MTIMEtimestamp_add v k = ?t"
    using assms(1,2) by (rule ts_add_exact)
  with assms(3) in_timestamps_valid have t: "ts_valid ?t" "ts_msecs ?t = ts_msecs v + k" by simp_all
  with MTIMEtimestamp_diff_msecs [OF t(1) assms(1)] assms(2) add show ?thesis by simp
qed

theorem timestamp_diff_add_witness:
  "MTIMEtimestamp_diff (MTIMEtimestamp_add \<lparr>days = 719528, msecs = 5\<rparr> (- 6)) \<lparr>days = 719528, msecs = 5\<rparr> = - 6"
proof -
  have h: "ts_valid \<lparr>days = 719528, msecs = 5\<rparr>"
    "\<not> ts_isnil (MTIMEtimestamp_add \<lparr>days = 719528, msecs = 5\<rparr> (- 6))" by code_simp+
  show ?thesis by (rule timestamp_diff_add [OF h(1) _ h(2)]) simp
qed

text \<open>
  The conversion of the day count to 32 bits is not guarded: an interval of \<open>2^32\<close> days
  is added to a valid timestamp as if it were zero instead of giving nil.
\<close>

theorem MTIMEtimestamp_add_wraps:
  assumes "ts_valid v"
  shows "MTIMEtimestamp_add v (4294967296 * DAY_MSECS) = v"
proof -
  have "i32 (4294967296 * DAY_MSECS sdiv DAY_MSECS) = 0"
    by (simp add: swrap_def)
  moreover have "i64 (4294967296 * DAY_MSECS) = 4294967296 * DAY_MSECS"
    "i64 (msecs v + 4294967296 * DAY_MSECS) = msecs v + 4294967296 * DAY_MSECS"
    using assms by (simp_all add: cint ts_valid_def)
  moreover have "i32 (msecs v + 4294967296 * DAY_MSECS) = msecs v"
    using assms swrap_add_mult [of 32 "msecs v" DAY_MSECS] by (simp add: cint ts_valid_def)
  ultimately show ?thesis
    using assms ts_valid_not_nil [OF assms]
    by (simp add: MTIMEtimestamp_add_def Let_def ts_valid_def)
qed

theorem MTIMEtimestamp_add_wraps_witness:
  "MTIMEtimestamp_add \<lparr>days = 719528, msecs = 5\<rparr> (4294967296 * DAY_MSECS) = \<lparr>days = 719528, msecs = 5\<rparr>"
  by (rule MTIMEtimestamp_add_wraps) code_simp

end
