(* ===== verification/Mtime_Extract.thy ===== *)
theory Mtime_Extract
  imports Mtime_Arith
begin

text \<open>
  The field extraction and interval functions of \<^verbatim>\<open>mtime.c\<close>: year, month, day, day of the
  year, week of the year and day of the week of a date; hours to milliseconds of a time
  of day; the SQL interval fields; and the interval wrappers that add or subtract seconds
  and milliseconds.  A wrapper that leaves its result unassigned takes the previous
  content of the result as the argument \<open>ret\<close>.
\<close>

subsection \<open>Fields of a date\<close>

definition date_extract_year :: "int \<Rightarrow> int" where
  "date_extract_year v = (if v = date_nil then int_nil else case fromdate v of (d, m, y) \<Rightarrow> y)"

definition date_extract_month :: "int \<Rightarrow> int" where
  "date_extract_month v = (if v = date_nil then int_nil else case fromdate v of (d, m, y) \<Rightarrow> m)"

definition date_extract_day :: "int \<Rightarrow> int" where
  "date_extract_day v = (if v = date_nil then int_nil else case fromdate v of (d, m, y) \<Rightarrow> d)"

definition date_extract_dayofyear :: "int \<Rightarrow> int" where
  "date_extract_dayofyear v =
    (if v = date_nil then int_nil
     else case fromdate v of (d, m, year) \<Rightarrow> i32 (1 + v - todate 1 1 year))"

definition date_extract_dayofweek :: "int \<Rightarrow> int" where
  "date_extract_dayofweek v = (if v = date_nil then int_nil else date_dayofweek v)"

text \<open>When the week of January 1st belongs to the year before, the function recurses on the
  last day of that year; that this recursion stops is proved from the calendar.\<close>

definition week_recurses :: "int \<Rightarrow> bool" where
  "week_recurses v \<longleftrightarrow> v \<noteq> date_nil \<and>
    (case fromdate v of (d, m, year) \<Rightarrow>
       let jan = todate 1 1 year; dayofweek = date_dayofweek jan
       in \<not> dayofweek \<le> 4 \<and> \<not> v - jan > 7 - dayofweek)"

lemma DATE_dec31_jan1: "DATE 31 12 y \<longleftrightarrow> y \<noteq> 0 \<and> YEAR_MIN \<le> y \<and> y \<le> YEAR_MAX"
  "DATE 1 1 y \<longleftrightarrow> y \<noteq> 0 \<and> YEAR_MIN \<le> y \<and> y \<le> YEAR_MAX"
  by (auto simp: DATE_def MONTHDAYS_def NODAYS_def)

lemma fromdate_todate_dec31:
  assumes "DATE 31 12 y"
  shows "fromdate (todate 31 12 y) = (31, 12, y)"
    "todate 31 12 y - todate 1 1 y = YEARDAYS (astro y) - 1"
proof -
  have y: "y \<noteq> 0" "YEAR_MIN \<le> astro y" "astro y \<le> YEAR_MAX" "DATE 1 1 y"
    using assms by (auto simp: DATE_dec31_jan1 astro_def YEAR_MIN_def YEAR_MAX_def)
  have "valid_dmy 31 12 (astro y)" by (simp add: valid_dmy_def MONTHDAYS_def NODAYS_def)
  from fromdate_of_daynum [OF this y(2,3)] y(1) assms
  show "fromdate (todate 31 12 y) = (31, 12, y)" by (simp add: todate_daynum)
  have "todate 31 12 y = jan1 (astro y) + cumdays 12 (astro y) + 30"
    using assms by (simp add: todate_daynum daynum_def)
  moreover have "todate 1 1 y = jan1 (astro y)"
    using y(4) by (simp add: todate_daynum daynum_def)
  ultimately show "todate 31 12 y - todate 1 1 y = YEARDAYS (astro y) - 1"
    using cumdays_12 [of "astro y"] by (simp add: MONTHDAYS_def NODAYS_def)
qed

lemma date_dayofweek_mod: "date_dayofweek v = (v - 1) mod 7 + 1"
proof (cases "0 \<le> v")
  case True
  then show ?thesis
    by (simp add: date_dayofweek_def Let_def smod_nonneg) presburger
next
  case False
  then show ?thesis
    by (simp add: date_dayofweek_def Let_def smod_nonpos) presburger
qed

lemma date_dayofweek_bounds: "1 \<le> date_dayofweek v" "date_dayofweek v \<le> 7"
  by (simp_all add: date_dayofweek_mod)

lemma week_recurses_dec31: "\<not> week_recurses (todate 31 12 y)"
proof (cases "DATE 31 12 y")
  case True
  then show ?thesis
    using fromdate_todate_dec31 [OF True] YEARDAYS_bounds(1) [of "astro y"]
      date_dayofweek_bounds [of "todate 1 1 y"]
    by (simp add: week_recurses_def Let_def)
next
  case False
  then show ?thesis by (simp add: week_recurses_def todate_not_DATE)
qed

lemma week_recursesI:
  assumes "v \<noteq> date_nil" "(d, b) = fromdate v" "(m, year) = b"
    "\<not> date_dayofweek (todate 1 1 year) \<le> 4"
    "\<not> 7 - date_dayofweek (todate 1 1 year) < v - todate 1 1 year"
  shows "week_recurses v"
proof -
  from assms(2,3) have "fromdate v = (d, m, year)" by simp
  with assms(1,4,5) show ?thesis by (simp add: week_recurses_def Let_def)
qed

function date_extract_weekofyear :: "int \<Rightarrow> int" where
  "date_extract_weekofyear v =
    (if v = date_nil then int_nil
     else case fromdate v of (d, m, year) \<Rightarrow>
       let jan = todate 1 1 year; dayofweek = date_dayofweek jan
       in if dayofweek \<le> 4 then i32 (1 + (v - jan + dayofweek - 1) sdiv 7)
          else if v - jan > 7 - dayofweek then i32 ((v - jan + dayofweek - 1) sdiv 7)
          else date_extract_weekofyear (todate 31 12 (if year = 1 then - 1 else year - 1)))"
  by pat_completeness auto
termination
  by (relation "measure (\<lambda>v. if week_recurses v then 1 else 0)")
    (simp_all add: week_recurses_dec31 week_recursesI)

declare date_extract_weekofyear.simps [simp del]

text \<open>The year part of a date in the supported range.\<close>

lemma fromdate_in_range:
  assumes "DATE_MIN \<le> v" "v \<le> DATE_MAX"
  obtains d m Y where "fromdate v = (d, m, unastro Y)" "valid_dmy d m Y" "daynum d m Y = v"
    "YEAR_MIN \<le> unastro Y" "unastro Y \<le> YEAR_MAX"
    "todate 1 1 (unastro Y) = jan1 Y" "DATE 1 1 (unastro Y)"
proof -
  from assms have "v \<noteq> int_nil" by (auto simp: DATE_MIN_eq)
  then obtain d m Y where f: "fromdate v = (d, m, unastro Y)" "valid_dmy d m Y" "daynum d m Y = v"
    by (rule fromdate_daynum)
  have y: "jan1 Y \<le> v" "v < jan1 (Y + 1)" using daynum_year [OF f(2)] f(3) by simp_all
  have mx: "DATE_MAX < jan1 (YEAR_MAX + 1)" and mn: "DATE_MIN = jan1 (YEAR_MIN + 1)"
    by code_simp+
  have "\<not> YEAR_MAX < Y"
    using jan1_mono [of YEAR_MAX Y] y(1) mx assms(2) by auto
  moreover have "\<not> Y < YEAR_MIN + 1"
    using jan1_mono [of Y "YEAR_MIN + 1"] y(2) mn assms(1) by auto
  ultimately have r: "YEAR_MIN \<le> unastro Y" "unastro Y \<le> YEAR_MAX"
    by (auto simp: unastro_def YEAR_MAX_def YEAR_MIN_def)
  then have D: "DATE 1 1 (unastro Y)"
    by (simp add: DATE_dec31_jan1)
  then have "todate 1 1 (unastro Y) = jan1 Y"
    by (simp add: todate_daynum daynum_def)
  with that f r D show ?thesis by blast
qed

text \<open>
  The day of the year that the code reports is the position of the date in its year,
  counted from 1: the days of the months before plus the day of the month, between 1 and
  the length of the year.
\<close>

theorem date_extract_dayofyear_correct:
  assumes "DATE_MIN \<le> v" "v \<le> DATE_MAX" "fromdate v = (d, m, y)"
  shows "date_extract_dayofyear v = cumdays m (astro y) + d
    \<and> 1 \<le> date_extract_dayofyear v \<and> date_extract_dayofyear v \<le> YEARDAYS (astro y)"
proof -
  obtain d' m' Y where f: "fromdate v = (d', m', unastro Y)" "valid_dmy d' m' Y" "daynum d' m' Y = v"
    "todate 1 1 (unastro Y) = jan1 Y"
    using assms(1,2) by (rule fromdate_in_range)
  with assms(3) have eq: "d' = d" "m' = m" "y = unastro Y" by simp_all
  have r: "1 + v - jan1 Y = cumdays m Y + d" using f(3) eq by (simp add: daynum_def)
  note b = valid_dmy_year [OF f(2)] YEARDAYS_bounds(2) [of Y]
  have "date_extract_dayofyear v = i32 (cumdays m Y + d)"
    using assms f eq r by (simp add: date_extract_dayofyear_def DATE_MIN_eq)
  also have "\<dots> = cumdays m Y + d" using b eq by (simp add: cint)
  finally show ?thesis using b eq by simp
qed

theorem date_extract_dayofyear_witness:
  "date_extract_dayofyear (todate 31 12 2012) = 366"
proof -
  have h: "DATE_MIN \<le> todate 31 12 2012" "todate 31 12 2012 \<le> DATE_MAX"
    "fromdate (todate 31 12 2012) = (31, 12, 2012)" by code_simp+
  have "cumdays 12 (astro 2012) + 31 = 366" by code_simp
  with date_extract_dayofyear_correct [OF h] show ?thesis by simp
qed

lemma weekofyear_direct:
  assumes "DATE_MIN \<le> v" "v \<le> DATE_MAX" "fromdate v = (d, m, y)" "\<not> week_recurses v"
  shows "date_extract_weekofyear v =
    (let k = v - todate 1 1 y + date_dayofweek (todate 1 1 y) - 1
     in (if date_dayofweek (todate 1 1 y) \<le> 4 then 1 else 0) + k div 7)"
    "0 \<le> v - todate 1 1 y" "v - todate 1 1 y < YEARDAYS (astro y)"
proof -
  obtain d' m' Y where f: "fromdate v = (d', m', unastro Y)" "valid_dmy d' m' Y" "daynum d' m' Y = v"
    "todate 1 1 (unastro Y) = jan1 Y"
    using assms(1,2) by (rule fromdate_in_range)
  with assms(3) have eq: "d' = d" "m' = m" "y = unastro Y" by simp_all
  have r: "v - jan1 Y = cumdays m Y + (d - 1)" using f(3) eq by (simp add: daynum_def)
  note b = valid_dmy_year [OF f(2)] YEARDAYS_bounds(2) [of Y] date_dayofweek_bounds [of "jan1 Y"]
  show yr: "0 \<le> v - todate 1 1 y" "v - todate 1 1 y < YEARDAYS (astro y)"
    using b r f eq by simp_all
  let ?k = "v - jan1 Y + date_dayofweek (jan1 Y) - 1"
  have "?k sdiv 7 = ?k div 7" "0 \<le> ?k div 7" "?k div 7 \<le> 53"
    using b r eq by (simp_all add: sdiv_nonneg)
  then show "date_extract_weekofyear v =
    (let k = v - todate 1 1 y + date_dayofweek (todate 1 1 y) - 1
     in (if date_dayofweek (todate 1 1 y) \<le> 4 then 1 else 0) + k div 7)"
    using assms f eq unfolding date_extract_weekofyear.simps [of v]
    by (auto simp: week_recurses_def Let_def cint DATE_MIN_eq)
qed

lemma todate_dec31_in_range:
  assumes "DATE 31 12 y"
  shows "DATE_MIN \<le> todate 31 12 y" "todate 31 12 y \<le> DATE_MAX"
proof -
  let ?Y = "astro y"
  have Y: "YEAR_MIN + 1 \<le> ?Y" "?Y \<le> YEAR_MAX"
    using assms by (auto simp: DATE_dec31_jan1 astro_def YEAR_MIN_def YEAR_MAX_def)
  have mx: "DATE_MAX + 1 = jan1 (YEAR_MAX + 1)" and mn: "DATE_MIN = jan1 (YEAR_MIN + 1)"
    by code_simp+
  have t: "todate 31 12 y + 1 = jan1 (?Y + 1)"
    using assms cumdays_12 [of ?Y]
    by (simp add: todate_daynum daynum_def jan1_Suc MONTHDAYS_def NODAYS_def)
  have "jan1 (?Y + 1) \<le> jan1 (YEAR_MAX + 1)" using Y(2) jan1_mono [of ?Y "YEAR_MAX + 1"] by simp
  with t mx show "todate 31 12 y \<le> DATE_MAX" by simp
  have "jan1 (YEAR_MIN + 1) \<le> jan1 ?Y"
    using Y(1) jan1_mono [of YEAR_MIN ?Y] by simp
  with t mn jan1_Suc [of ?Y] YEARDAYS_bounds(1) [of ?Y] show "DATE_MIN \<le> todate 31 12 y" by simp
qed

lemma weekofyear_direct_bounds:
  assumes "DATE_MIN \<le> v" "v \<le> DATE_MAX" "\<not> week_recurses v"
  shows "1 \<le> date_extract_weekofyear v" "date_extract_weekofyear v \<le> 53"
proof -
  obtain d m y where f: "fromdate v = (d, m, y)" by (cases "fromdate v")
  define a k where "a = date_dayofweek (todate 1 1 y)" and "k = v - todate 1 1 y + a - 1"
  have w: "date_extract_weekofyear v = (if a \<le> 4 then 1 else 0) + k div 7"
    using weekofyear_direct(1) [OF assms(1,2) f assms(3)] by (simp add: Let_def a_def k_def)
  have a: "1 \<le> a" "a \<le> 7" using date_dayofweek_bounds by (simp_all add: a_def)
  have k: "a - 1 \<le> k" "k \<le> 364 + a"
    using weekofyear_direct(2,3) [OF assms(1,2) f assms(3)] YEARDAYS_bounds(2) [of "astro y"]
    by (simp_all add: k_def)
  have "\<not> a \<le> 4 \<Longrightarrow> 7 \<le> k"
    using assms(3) f \<open>DATE_MIN \<le> v\<close>
    by (auto simp: week_recurses_def Let_def a_def k_def DATE_MIN_eq)
  with a k show "1 \<le> date_extract_weekofyear v" "date_extract_weekofyear v \<le> 53"
    unfolding w by (cases "a \<le> 4"; simp; linarith)+
qed

text \<open>
  The week number of every date after the first supported year lies between 1 and 53,
  whether the week of January 1st belongs to the year or to the year before; in
  particular the recursion on the previous year ends after one step.
\<close>

theorem date_extract_weekofyear_bounds:
  assumes "DATE_MIN \<le> v" "v \<le> DATE_MAX" "fromdate v = (d, m, y)" "YEAR_MIN < y"
  shows "1 \<le> date_extract_weekofyear v \<and> date_extract_weekofyear v \<le> 53"
proof (cases "week_recurses v")
  case False
  with weekofyear_direct_bounds [OF assms(1,2)] show ?thesis by simp
next
  case True
  let ?y' = "if y = 1 then - 1 else y - 1" and ?v' = "todate 31 12 (if y = 1 then - 1 else y - 1)"
  obtain d' m' Y where "fromdate v = (d', m', unastro Y)" "unastro Y \<le> YEAR_MAX"
    using assms(1,2) by (rule fromdate_in_range)
  then have "y \<noteq> 0" "y \<le> YEAR_MAX" using assms(3) by auto
  then have D: "DATE 31 12 ?y'"
    using assms(4) by (auto simp: DATE_dec31_jan1 YEAR_MIN_def YEAR_MAX_def)
  have "date_extract_weekofyear v = date_extract_weekofyear ?v'"
    using True assms(3) unfolding date_extract_weekofyear.simps [of v]
    by (auto simp: week_recurses_def Let_def)
  with weekofyear_direct_bounds [OF todate_dec31_in_range [OF D] week_recurses_dec31]
  show ?thesis by simp
qed

theorem date_extract_weekofyear_witness:
  "date_extract_weekofyear (todate 1 1 2011) = 52"
proof -
  have h: "DATE_MIN \<le> todate 1 1 2011" "todate 1 1 2011 \<le> DATE_MAX"
    "fromdate (todate 1 1 2011) = (1, 1, 2011)" "YEAR_MIN < 2011" by code_simp+
  have "date_extract_weekofyear (todate 1 1 2011) = 52" by code_simp
  with date_extract_weekofyear_bounds [OF h] show ?thesis by simp
qed

subsection \<open>Fields of a time of day\<close>

definition daytime_extract_hours :: "int \<Rightarrow> int" where
  "daytime_extract_hours v =
    (if v = daytime_nil then int_nil else case fromtime v of (h, m, s, x) \<Rightarrow> h)"

definition daytime_extract_minutes :: "int \<Rightarrow> int" where
  "daytime_extract_minutes v =
    (if v = daytime_nil then int_nil else case fromtime v of (h, m, s, x) \<Rightarrow> m)"

definition daytime_extract_seconds :: "int \<Rightarrow> int" where
  "daytime_extract_seconds v =
    (if v = daytime_nil then int_nil else case fromtime v of (h, m, s, x) \<Rightarrow> s)"

definition daytime_extract_sql_seconds :: "int \<Rightarrow> int" where
  "daytime_extract_sql_seconds v =
    (if v = daytime_nil then int_nil else case fromtime v of (h, m, s, x) \<Rightarrow> s * 1000 + x)"

definition daytime_extract_milliseconds :: "int \<Rightarrow> int" where
  "daytime_extract_milliseconds v =
    (if v = daytime_nil then int_nil else case fromtime v of (h, m, s, x) \<Rightarrow> x)"

definition daytime_create :: "int \<Rightarrow> int \<Rightarrow> int \<Rightarrow> int \<Rightarrow> int" where
  "daytime_create hour mins sec msec = totime hour mins sec msec"

definition daytime_add :: "int \<Rightarrow> int \<Rightarrow> int" where
  "daytime_add v msec = (if v = daytime_nil then int_nil else i32 (v + i32 msec))"

text \<open>
  For every time of day the extracted fields are a valid clock reading, and creating a
  time from them gives the time back; the SQL seconds are the seconds and milliseconds
  together.
\<close>

theorem daytime_extract_create:
  assumes "0 \<le> v" "v < DAY_MSECS"
  shows "TIME (daytime_extract_hours v) (daytime_extract_minutes v)
      (daytime_extract_seconds v) (daytime_extract_milliseconds v)
    \<and> daytime_create (daytime_extract_hours v) (daytime_extract_minutes v)
      (daytime_extract_seconds v) (daytime_extract_milliseconds v) = v
    \<and> daytime_extract_sql_seconds v
      = daytime_extract_seconds v * 1000 + daytime_extract_milliseconds v"
proof -
  obtain h m s x where f: "fromtime v = (h, m, s, x)" by (cases "fromtime v")
  have nil: "v \<noteq> daytime_nil" using assms(1) by (rule nonneg_not_nil)
  from fromtime_TIME [OF assms f] show ?thesis
    using f nil
    by (simp add: daytime_extract_hours_def daytime_extract_minutes_def daytime_create_def
        daytime_extract_seconds_def daytime_extract_milliseconds_def
        daytime_extract_sql_seconds_def totime_def)
qed

theorem daytime_extract_create_witness:
  "daytime_create (daytime_extract_hours 45296789) (daytime_extract_minutes 45296789)
      (daytime_extract_seconds 45296789) (daytime_extract_milliseconds 45296789) = 45296789
   \<and> daytime_extract_hours 45296789 = 12"
proof -
  have "daytime_extract_hours 45296789 = 12" by code_simp
  with daytime_extract_create [of 45296789] show ?thesis by simp
qed

subsection \<open>SQL intervals\<close>

definition MTIMEsql_year :: "int \<Rightarrow> int" where
  "MTIMEsql_year t = (if t = int_nil then int_nil else t sdiv 12)"

definition MTIMEsql_month :: "int \<Rightarrow> int" where
  "MTIMEsql_month t = (if t = int_nil then int_nil else t smod 12)"

definition MTIMEsql_day :: "int \<Rightarrow> int" where
  "MTIMEsql_day t = (if t = lng_nil then lng_nil else t sdiv 86400000)"

definition MTIMEsql_hours :: "int \<Rightarrow> int" where
  "MTIMEsql_hours t = (if t = lng_nil then int_nil else i32 ((t smod 86400000) sdiv 3600000))"

definition MTIMEsql_minutes :: "int \<Rightarrow> int" where
  "MTIMEsql_minutes t = (if t = lng_nil then int_nil else i32 ((t smod 3600000) sdiv 60000))"

definition MTIMEsql_seconds :: "int \<Rightarrow> int" where
  "MTIMEsql_seconds t = (if t = lng_nil then int_nil else i32 ((t smod 60000) sdiv 1000))"

lemma div_less_of_mult:
  assumes "0 < (c::int)" "x < n * c"
  shows "x div c < n"
proof (rule ccontr)
  assume "\<not> x div c < n"
  then have "n * c \<le> x div c * c" using assms(1) by (intro mult_right_mono) auto
  also have "\<dots> \<le> x"
    using assms(1) pos_mod_sign [of c x] div_mult_mod_eq [of x c] by linarith
  finally show False using assms(2) by simp
qed

lemma smod_sdiv_bound:
  assumes "0 < b" "0 < (c::int)" "b = n * c"
  shows "\<bar>(t smod b) sdiv c\<bar> < n"
proof (cases "0 \<le> t")
  case True
  have "t mod b div c < n" using assms by (intro div_less_of_mult) simp_all
  with True assms(1,2) show ?thesis
    by (simp add: smod_nonneg sdiv_nonneg pos_imp_zdiv_nonneg_iff)
next
  case False
  have "(- t) mod b div c < n" using assms by (intro div_less_of_mult) simp_all
  with False assms(1,2) show ?thesis
    by (simp add: smod_nonpos sdiv_nonpos sdiv_nonneg pos_imp_zdiv_nonneg_iff)
qed

text \<open>
  The fields of an SQL interval recombine to the interval: years and months to a month
  interval, and days, hours, minutes and seconds with the remaining milliseconds to a
  millisecond interval, each field within its own range and with the sign of the
  interval.
\<close>

theorem MTIMEsql_fields:
  "(t \<noteq> int_nil \<longrightarrow> MTIMEsql_year t * 12 + MTIMEsql_month t = t \<and> \<bar>MTIMEsql_month t\<bar> < 12)
   \<and> (u \<noteq> lng_nil \<longrightarrow>
      MTIMEsql_day u * 86400000 + MTIMEsql_hours u * 3600000 + MTIMEsql_minutes u * 60000
        + MTIMEsql_seconds u * 1000 + u smod 1000 = u
      \<and> \<bar>MTIMEsql_hours u\<bar> < 24 \<and> \<bar>MTIMEsql_minutes u\<bar> < 60 \<and> \<bar>MTIMEsql_seconds u\<bar> < 60)"
proof (intro conjI impI)
  assume "t \<noteq> int_nil"
  then show "MTIMEsql_year t * 12 + MTIMEsql_month t = t" "\<bar>MTIMEsql_month t\<bar> < 12"
    using smod_int_range [of 12 t]
    by (auto simp: MTIMEsql_year_def MTIMEsql_month_def sdiv_mult_smod_eq)
next
  assume u: "u \<noteq> lng_nil"
  have b: "\<bar>(u smod 86400000) sdiv 3600000\<bar> < 24" "\<bar>(u smod 3600000) sdiv 60000\<bar> < 60"
    "\<bar>(u smod 60000) sdiv 1000\<bar> < 60"
    by (rule smod_sdiv_bound; simp)+
  then have f: "MTIMEsql_hours u = (u smod 86400000) sdiv 3600000"
    "MTIMEsql_minutes u = (u smod 3600000) sdiv 60000"
    "MTIMEsql_seconds u = (u smod 60000) sdiv 1000"
    using u by (simp_all add: MTIMEsql_hours_def MTIMEsql_minutes_def MTIMEsql_seconds_def cint)
  show "\<bar>MTIMEsql_hours u\<bar> < 24" "\<bar>MTIMEsql_minutes u\<bar> < 60" "\<bar>MTIMEsql_seconds u\<bar> < 60"
    using b by (simp_all only: f)
  have "u smod 86400000 smod 3600000 = u smod 3600000" "u smod 3600000 smod 60000 = u smod 60000"
    "u smod 60000 smod 1000 = u smod 1000"
    by (rule smod_smod_cancel; simp)+
  then show "MTIMEsql_day u * 86400000 + MTIMEsql_hours u * 3600000 + MTIMEsql_minutes u * 60000
        + MTIMEsql_seconds u * 1000 + u smod 1000 = u"
    unfolding f using u sdiv_mult_smod_eq [of u 86400000]
      sdiv_mult_smod_eq [of "u smod 86400000" 3600000]
      sdiv_mult_smod_eq [of "u smod 3600000" 60000] sdiv_mult_smod_eq [of "u smod 60000" 1000]
    by (simp add: MTIMEsql_day_def)
qed

theorem MTIMEsql_fields_witness:
  "MTIMEsql_year (- 25) = - 2 \<and> MTIMEsql_month (- 25) = - 1
   \<and> MTIMEsql_day 90061001 * 86400000 + MTIMEsql_hours 90061001 * 3600000
     + MTIMEsql_minutes 90061001 * 60000 + MTIMEsql_seconds 90061001 * 1000 + 90061001 smod 1000 = 90061001"
proof -
  have "MTIMEsql_year (- 25) = - 2" "MTIMEsql_month (- 25) = - 1" by code_simp+
  with MTIMEsql_fields [of "- 25" 90061001] show ?thesis by simp
qed

subsection \<open>Interval wrappers\<close>

definition MTIMEdate_sub_sec_interval_wrap :: "int \<Rightarrow> int \<Rightarrow> int \<Rightarrow> int" where
  "MTIMEdate_sub_sec_interval_wrap ret t sec =
    (if sec > 0 then let delta = - (sec sdiv 86400) in date_adddays t delta else ret)"

definition MTIMEdate_sub_msec_interval_lng_wrap :: "int \<Rightarrow> int \<Rightarrow> int \<Rightarrow> int" where
  "MTIMEdate_sub_msec_interval_lng_wrap ret t msec =
    (if msec > 0 then let delta = i32 (- (msec sdiv 86400000)) in date_adddays t delta else ret)"

definition MTIMEdate_add_sec_interval_wrap :: "int \<Rightarrow> int \<Rightarrow> int \<Rightarrow> int" where
  "MTIMEdate_add_sec_interval_wrap ret t sec =
    (if sec > 0 then let delta = sec sdiv 86400 in date_adddays t delta else ret)"

definition MTIMEdate_add_msec_interval_lng_wrap :: "int \<Rightarrow> int \<Rightarrow> int \<Rightarrow> int" where
  "MTIMEdate_add_msec_interval_lng_wrap ret t msec =
    (if msec > 0 then let delta = i32 (msec sdiv 86400000) in date_adddays t delta else ret)"

definition MTIMEmsecs :: "int \<Rightarrow> int \<Rightarrow> int \<Rightarrow> int \<Rightarrow> int \<Rightarrow> int" where
  "MTIMEmsecs d h m s ms =
    (if d = int_nil \<or> h = int_nil \<or> m = int_nil \<or> s = int_nil \<or> ms = int_nil then lng_nil
     else ms + i32 (1000 * i32 (s + i32 (60 * i32 (m + i32 (60 * i32 (h + i32 (24 * d))))))))"

text \<open>
  Adding a positive interval in seconds or milliseconds to a date moves it by the whole
  days of the interval, and subtracting it moves it back, unless the date would leave the
  supported range; but an interval that is zero or negative never writes the result, so
  the caller reads whatever the result variable held before.
\<close>

theorem date_interval_wraps:
  assumes "DATE_MIN \<le> t" "t \<le> DATE_MAX" "n \<le> int_max"
  shows
    "MTIMEdate_add_sec_interval_wrap ret t n = (if n > 0 then in_dates (t + n div 86400) else ret)
   \<and> MTIMEdate_sub_sec_interval_wrap ret t n = (if n > 0 then in_dates (t - n div 86400) else ret)
   \<and> MTIMEdate_add_msec_interval_lng_wrap ret t n = (if n > 0 then in_dates (t + n div 86400000) else ret)
   \<and> MTIMEdate_sub_msec_interval_lng_wrap ret t n = (if n > 0 then in_dates (t - n div 86400000) else ret)"
proof -
  have add: "date_adddays t k = in_dates (t + k)" if "int_nil < k" for k
    using that assms dates.add_in [of t k] dates.add_out [of t k] by (auto simp: in_dates_def)
  have q: "0 \<le> n div 86400 \<and> n div 86400 \<le> int_max" "0 \<le> n div 86400000 \<and> n div 86400000 \<le> int_max"
    if "0 < n"
    using that assms(3) by linarith+
  have "date_adddays t (- (n div 86400)) = in_dates (t - n div 86400)"
    "i32 (- (n div 86400000)) = - (n div 86400000)"
    "date_adddays t (- (n div 86400000)) = in_dates (t - n div 86400000)" if "0 < n"
    using q [OF that] add [of "- (n div 86400)"] add [of "- (n div 86400000)"]
      i32_id [of "- (n div 86400000)"] by auto
  then show ?thesis
    using q by (simp add: MTIMEdate_add_sec_interval_wrap_def MTIMEdate_sub_sec_interval_wrap_def
        MTIMEdate_add_msec_interval_lng_wrap_def MTIMEdate_sub_msec_interval_lng_wrap_def
        Let_def sdiv_nonneg add cint)
qed

theorem date_interval_wraps_witness:
  "MTIMEdate_sub_sec_interval_wrap 7 719528 86400 = 719527
   \<and> MTIMEdate_sub_sec_interval_wrap 7 719528 0 = 7"
proof -
  have h: "DATE_MIN \<le> 719528" "719528 \<le> DATE_MAX" by code_simp+
  show ?thesis
    using date_interval_wraps [OF h, of 86400 7] date_interval_wraps [OF h, of 0 7] h
    by (simp add: in_dates_def DATE_MIN_eq DATE_MAX_eq)
qed

text \<open>
  \<^verbatim>\<open>MTIMEmsecs\<close> is exact as long as the milliseconds of the days, hours, minutes and
  seconds fit a 32-bit integer; the arithmetic is carried out at that width although the
  result has 64 bits, so 25 days come out negative.
\<close>

theorem MTIMEmsecs_correct:
  assumes "0 \<le> d" "0 \<le> h" "0 \<le> m" "0 \<le> s" "ms \<noteq> int_nil"
    and "1000 * (s + 60 * (m + 60 * (h + 24 * d))) \<le> int_max"
  shows "MTIMEmsecs d h m s ms = ms + 1000 * (s + 60 * (m + 60 * (h + 24 * d)))
    \<and> MTIMEmsecs 25 0 0 0 0 = - 2134967296"
  using assms by (auto simp: MTIMEmsecs_def cint nonneg_not_nil swrap_def)

theorem MTIMEmsecs_witness:
  "MTIMEmsecs 24 19 59 59 999 = 2145599999 \<and> MTIMEmsecs 25 0 0 0 0 = - 2134967296"
  using MTIMEmsecs_correct [of 24 19 59 59 999] by simp

end
