(* ===== verification/Mtime_Zone.thy ===== *)
theory Mtime_Zone
  imports Mtime_Extract "HOL-Library.Monad_Syntax"
begin

unbundle bit_operations_syntax

text \<open>
  Daylight saving rules and time zones of \<^verbatim>\<open>mtime.c\<close>.  A \<^verbatim>\<open>rule\<close> and a \<^verbatim>\<open>tzone\<close> are C
  bit-field structs; a field is an integer that a store truncates to its width
  (\<open>take_bit\<close>).  The union view \<^verbatim>\<open>asint\<close> of a rule and the nil patterns follow the little
  endian layout in which the first field takes the lowest bits.  The loops of
  \<^verbatim>\<open>compute_rule\<close> are partial functions; that they return is part of what is proved.
\<close>

subsection \<open>Rules\<close>

record rule =
  r_month :: int
  r_minutes :: int
  r_day :: int
  r_weekday :: int
  r_empty :: int

abbreviation WEEKDAY_ZERO :: int where "WEEKDAY_ZERO \<equiv> 8"
abbreviation DAY_ZERO :: int where "DAY_ZERO \<equiv> 32"
abbreviation OFFSET_ZERO :: int where "OFFSET_ZERO \<equiv> 4096"

definition rule_asint :: "rule \<Rightarrow> int" where
  "rule_asint r = i32 (r_month r + r_minutes r * 2 ^ 4 + r_day r * 2 ^ 15 + r_weekday r * 2 ^ 21
     + r_empty r * 2 ^ 25)"

definition rule_nil :: rule where
  "rule_nil = \<lparr>r_month = 0, r_minutes = 0, r_day = 0, r_weekday = 0, r_empty = 64\<rparr>"

definition rule_isnil :: "rule \<Rightarrow> bool" where
  "rule_isnil r \<longleftrightarrow> rule_asint r = int_nil"

definition rule_set :: "rule \<Rightarrow> int \<Rightarrow> int \<Rightarrow> int \<Rightarrow> int \<Rightarrow> rule" where
  "rule_set r mo d wd mi = r\<lparr>r_month := take_bit 4 mo, r_day := take_bit 6 d,
     r_weekday := take_bit 4 wd, r_minutes := take_bit 11 mi\<rparr>"

definition get_rule :: "rule \<Rightarrow> int" where
  "get_rule r = r_weekday r OR push_bit 6 (r_day r) OR push_bit 10 (r_minutes r)
     OR push_bit 21 (r_month r)"

definition set_rule :: "int \<Rightarrow> rule" where
  "set_rule i = rule_set rule_nil
     (drop_bit 21 (i AND push_bit 21 15)) (drop_bit 6 (i AND push_bit 6 63))
     (i AND 15) (drop_bit 10 (i AND push_bit 10 2047))"

definition rule_create :: "int \<Rightarrow> int \<Rightarrow> int \<Rightarrow> int \<Rightarrow> rule" where
  "rule_create mo d wd mi =
    (if mo \<noteq> int_nil \<and> mo \<ge> 1 \<and> mo \<le> 12 \<and>
        wd \<noteq> int_nil \<and> \<bar>wd\<bar> \<le> 7 \<and>
        mi \<noteq> int_nil \<and> mi \<ge> 0 \<and> mi < 24 * 60 \<and>
        d \<noteq> int_nil \<and> \<bar>d\<bar> \<ge> 1 \<and> \<bar>d\<bar> \<le> NODAYS ! nat mo \<and>
        (wd \<noteq> 0 \<or> d > 0)
     then rule_set rule_nil mo (DAY_ZERO + d) (WEEKDAY_ZERO + wd) mi
     else rule_nil)"

definition MTIMErule_extract_month :: "rule \<Rightarrow> int" where
  "MTIMErule_extract_month r = (if rule_isnil r then int_nil else r_month r)"

definition MTIMErule_extract_day :: "rule \<Rightarrow> int" where
  "MTIMErule_extract_day r = (if rule_isnil r then int_nil else r_day r - DAY_ZERO)"

definition MTIMErule_extract_weekday :: "rule \<Rightarrow> int" where
  "MTIMErule_extract_weekday r = (if rule_isnil r then int_nil else r_weekday r - WEEKDAY_ZERO)"

definition MTIMErule_extract_minutes :: "rule \<Rightarrow> int" where
  "MTIMErule_extract_minutes r = (if rule_isnil r then int_nil else r_minutes r)"

text \<open>The loops that step to the next and to the previous matching weekday.\<close>

partial_function (option) rule_forward :: "int \<Rightarrow> int \<Rightarrow> int \<Rightarrow> int \<Rightarrow> int option" where
  "rule_forward cnt dayofweek w d =
    (if dayofweek \<noteq> w then
       rule_forward cnt (if dayofweek + 1 = WEEKDAY_ZERO then 1 else dayofweek + 1) w (d + 1)
     else if cnt - 1 > 0 then
       rule_forward (cnt - 1) (if dayofweek + 1 = WEEKDAY_ZERO then 1 else dayofweek + 1) w (d + 1)
     else Some d)"

partial_function (option) rule_backward :: "int \<Rightarrow> int \<Rightarrow> int \<Rightarrow> int \<Rightarrow> int option" where
  "rule_backward cnt dayofweek w d =
    (if dayofweek \<noteq> w then
       rule_backward cnt (if dayofweek - 1 = 0 then 7 else dayofweek - 1) w (d - 1)
     else if cnt - 1 > 0 then
       rule_backward (cnt - 1) (if dayofweek - 1 = 0 then 7 else dayofweek - 1) w (d - 1)
     else Some d)"

definition SKIP_DAYS :: "int \<Rightarrow> int \<Rightarrow> int \<Rightarrow> int \<times> int" where
  "SKIP_DAYS d w i = (let w' = (w + i) smod 7 in (d + i, if w' \<le> 0 then w' + 7 else w'))"

definition compute_rule :: "rule \<Rightarrow> int \<Rightarrow> int option" where
  "compute_rule val y =
    (let m = r_month val; cnt = \<bar>r_day val - DAY_ZERO\<bar>;
         d = todate 1 m y;
         dayofweek = date_dayofweek d;
         w = \<bar>r_weekday val - WEEKDAY_ZERO\<bar>
     in if r_weekday val = WEEKDAY_ZERO \<or> w = WEEKDAY_ZERO then Some (d + (cnt - 1))
        else if r_day val > DAY_ZERO then
          let (d, dayofweek, cnt) =
            (if r_weekday val < WEEKDAY_ZERO
             then let (d, dow) = SKIP_DAYS d dayofweek (cnt - 1) in (d, dow, 1)
             else (d, dayofweek, cnt))
          in rule_forward cnt dayofweek w d
        else
          let (d, dayofweek, cnt) =
            (if r_weekday val > WEEKDAY_ZERO
             then let (d, dow) = SKIP_DAYS d dayofweek (MONTHDAYS m y - 1) in (d, dow, cnt)
             else let (d, dow) = SKIP_DAYS d dayofweek (cnt - 1) in (d, dow, 1))
          in rule_backward cnt dayofweek w d)"

definition MTIMEcompute_rule_foryear :: "rule \<Rightarrow> int \<Rightarrow> int option" where
  "MTIMEcompute_rule_foryear val year =
    (if rule_isnil val \<or> year < YEAR_MIN \<or> year > YEAR_MAX then Some date_nil
     else compute_rule val year)"

subsection \<open>Time zones\<close>

record tzone =
  tz_dst :: int
  tz_off1 :: int
  tz_dst_start :: int
  tz_off2 :: int
  tz_dst_end :: int

definition tzone_nil :: tzone where
  "tzone_nil = \<lparr>tz_dst = 0, tz_off1 = 0, tz_dst_start = 0, tz_off2 = 0, tz_dst_end = 2 ^ 24\<rparr>"

definition get_offset :: "tzone \<Rightarrow> int" where
  "get_offset z = push_bit 7 (tz_off1 z) + tz_off2 z - OFFSET_ZERO"

definition set_offset :: "tzone \<Rightarrow> int \<Rightarrow> tzone" where
  "set_offset z i = z\<lparr>tz_off1 := drop_bit 7 ((i + OFFSET_ZERO) AND 8064),
     tz_off2 := (i + OFFSET_ZERO) AND 127\<rparr>"

definition tz_isnil :: "tzone \<Rightarrow> bool" where
  "tz_isnil z \<longleftrightarrow> get_offset z = get_offset tzone_nil"

definition tzone_create_dst :: "int \<Rightarrow> rule \<Rightarrow> rule \<Rightarrow> tzone" where
  "tzone_create_dst mins start end =
    (if mins \<noteq> int_nil \<and> \<bar>mins\<bar> < 24 * 60 \<and> \<not> rule_isnil start \<and> \<not> rule_isnil end
     then (set_offset tzone_nil mins)\<lparr>tz_dst := 1,
       tz_dst_start := take_bit 25 (get_rule start), tz_dst_end := take_bit 25 (get_rule end)\<rparr>
     else tzone_nil)"

definition tzone_create :: "int \<Rightarrow> tzone" where
  "tzone_create mins =
    (if mins \<noteq> int_nil \<and> \<bar>mins\<bar> < 24 * 60 then (set_offset tzone_nil mins)\<lparr>tz_dst := 0\<rparr>
     else tzone_nil)"

definition MTIMEtzone_extract_start :: "tzone \<Rightarrow> rule" where
  "MTIMEtzone_extract_start t =
    (if tz_isnil t \<or> tz_dst t = 0 then rule_nil else set_rule (tz_dst_start t))"

definition MTIMEtzone_extract_end :: "tzone \<Rightarrow> rule" where
  "MTIMEtzone_extract_end t =
    (if tz_isnil t \<or> tz_dst t = 0 then rule_nil else set_rule (tz_dst_end t))"

definition MTIMEtzone_extract_minutes :: "tzone \<Rightarrow> int" where
  "MTIMEtzone_extract_minutes t = (if tz_isnil t then int_nil else get_offset t)"

text \<open>The global \<^verbatim>\<open>tzone_local\<close> is passed in and the new one returned, with the error if any.\<close>

definition tzone_set_local :: "tzone \<Rightarrow> tzone \<Rightarrow> tzone \<times> string option" where
  "tzone_set_local tz_local z =
    (if tz_isnil z then (tz_local, Some ''cannot set timezone to nil'') else (z, None))"

definition tzone_local_prelude :: "tzone \<Rightarrow> tzone" where
  "tzone_local_prelude z = set_offset (z\<lparr>tz_dst := 0\<rparr>) 0"

subsection \<open>Timestamps in a time zone\<close>

definition BEFORE :: "int \<Rightarrow> int \<Rightarrow> int \<Rightarrow> int \<Rightarrow> bool" where
  "BEFORE d1 m1 d2 m2 \<longleftrightarrow> d1 < d2 \<or> (d1 = d2 \<and> m1 \<le> m2)"

text \<open>
  \<^verbatim>\<open>timestamp_inside\<close> both stores the shifted time through \<^verbatim>\<open>ret\<close> and returns a truth value;
  the model returns the pair.
\<close>

definition timestamp_inside :: "timestamp \<Rightarrow> tzone \<Rightarrow> int \<Rightarrow> (timestamp \<times> bool) option" where
  "timestamp_inside t z offset =
    (let add = (if offset \<noteq> 0 then offset else get_offset z * 60000);
         ret = MTIMEtimestamp_add t add
     in if ts_isnil ret \<or> tz_dst z = 0 then Some (ret, False)
        else
          let start = set_rule (tz_dst_start z); end = set_rule (tz_dst_end z);
              start_msecs = r_minutes start * 60000; end_msecs = r_minutes end * 60000;
              (_, _, year) = fromdate (days ret)
          in do {
            start_days \<leftarrow> compute_rule start year;
            end_days \<leftarrow> compute_rule end year;
            Some (ret,
              if BEFORE start_days start_msecs end_days end_msecs
              then BEFORE start_days start_msecs (days ret) (msecs ret) \<and>
                   BEFORE (days ret) (msecs ret) end_days end_msecs
              else BEFORE start_days start_msecs (days ret) (msecs ret) \<or>
                   BEFORE (days ret) (msecs ret) end_days end_msecs)
          })"

definition timestamp_create :: "int \<Rightarrow> int \<Rightarrow> tzone \<Rightarrow> timestamp option" where
  "timestamp_create d t z =
    (if d = date_nil \<or> t = daytime_nil \<or> tz_isnil z then Some timestamp_nil
     else
       let add = get_offset z * (- 60000); ret = \<lparr>days = d, msecs = t\<rparr>
       in do {
         ret \<leftarrow> (if tz_dst z \<noteq> 0
                then do {
                  (tmp, inside) \<leftarrow> timestamp_inside ret z (- 3600000);
                  Some (if inside then tmp else ret)
                }
                else Some ret);
         Some (MTIMEtimestamp_add ret add)
       })"

definition timestamp_local :: "timestamp \<Rightarrow> tzone \<Rightarrow> timestamp option" where
  "timestamp_local t z = do {
     (tmp, inside) \<leftarrow> timestamp_inside t z 0;
     Some (if inside then MTIMEtimestamp_add tmp 3600000 else tmp)
   }"

definition timestamp_extract_daytime :: "timestamp \<Rightarrow> tzone \<Rightarrow> int option" where
  "timestamp_extract_daytime t z =
    (if ts_isnil t \<or> tz_isnil z then Some daytime_nil
     else do {
       tmp \<leftarrow> timestamp_local t z;
       Some (if ts_isnil tmp then daytime_nil else msecs tmp)
     })"

definition timestamp_extract_date :: "timestamp \<Rightarrow> tzone \<Rightarrow> int option" where
  "timestamp_extract_date t z =
    (if ts_isnil t \<or> tz_isnil z then Some date_nil
     else do {
       tmp \<leftarrow> timestamp_local t z;
       Some (if ts_isnil tmp then date_nil else days tmp)
     })"

abbreviation bit_nil :: int where "bit_nil \<equiv> - 128"

definition MTIMEtimestamp_inside_dst :: "timestamp \<Rightarrow> tzone \<Rightarrow> int option" where
  "MTIMEtimestamp_inside_dst p z =
    (if tz_isnil z then Some bit_nil
     else if tz_dst z \<noteq> 0
     then do { (tmp, inside) \<leftarrow> timestamp_inside p z 0; Some (if inside then 1 else 0) }
     else Some 0)"

definition MTIMEtimestamp_add_month_interval_wrap :: "tzone \<Rightarrow> timestamp \<Rightarrow> int \<Rightarrow> timestamp option" where
  "MTIMEtimestamp_add_month_interval_wrap tz_local v months = do {
     t \<leftarrow> timestamp_extract_daytime v tz_local;
     d \<leftarrow> timestamp_extract_date v tz_local;
     timestamp_create (date_addmonths d months) t tz_local
   }"

definition MTIMEtimestamp_sub_month_interval_wrap :: "tzone \<Rightarrow> timestamp \<Rightarrow> int \<Rightarrow> timestamp option" where
  "MTIMEtimestamp_sub_month_interval_wrap tz_local v months =
    (let m = i32 (0 - months) in do {
     t \<leftarrow> timestamp_extract_daytime v tz_local;
     d \<leftarrow> timestamp_extract_date v tz_local;
     timestamp_create (date_addmonths d m) t tz_local
   })"

definition MTIMEtimestamp_sub_msec_interval_lng_wrap :: "timestamp \<Rightarrow> int \<Rightarrow> timestamp" where
  "MTIMEtimestamp_sub_msec_interval_lng_wrap t msec = MTIMEtimestamp_add t (i64 (msec * (- 1)))"

definition MTIMEruleDef0 :: "int \<Rightarrow> int \<Rightarrow> int \<Rightarrow> int \<Rightarrow> int \<Rightarrow> rule" where
  "MTIMEruleDef0 m d w h mint = rule_create m d w (i32 (i32 (60 * h) + mint))"

definition MTIMEtimestamp_year :: "tzone \<Rightarrow> timestamp \<Rightarrow> int option" where
  "MTIMEtimestamp_year tz_local t = map_option date_extract_year (timestamp_extract_date t tz_local)"

definition MTIMEtimestamp_month :: "tzone \<Rightarrow> timestamp \<Rightarrow> int option" where
  "MTIMEtimestamp_month tz_local t = map_option date_extract_month (timestamp_extract_date t tz_local)"

definition MTIMEtimestamp_day :: "tzone \<Rightarrow> timestamp \<Rightarrow> int option" where
  "MTIMEtimestamp_day tz_local t = map_option date_extract_day (timestamp_extract_date t tz_local)"

definition MTIMEtimestamp_hours :: "tzone \<Rightarrow> timestamp \<Rightarrow> int option" where
  "MTIMEtimestamp_hours tz_local t = map_option daytime_extract_hours (timestamp_extract_daytime t tz_local)"

definition MTIMEtimestamp_minutes :: "tzone \<Rightarrow> timestamp \<Rightarrow> int option" where
  "MTIMEtimestamp_minutes tz_local t = map_option daytime_extract_minutes (timestamp_extract_daytime t tz_local)"

definition MTIMEtimestamp_seconds :: "tzone \<Rightarrow> timestamp \<Rightarrow> int option" where
  "MTIMEtimestamp_seconds tz_local t = map_option daytime_extract_seconds (timestamp_extract_daytime t tz_local)"

definition MTIMEtimestamp_sql_seconds :: "tzone \<Rightarrow> timestamp \<Rightarrow> int option" where
  "MTIMEtimestamp_sql_seconds tz_local t = map_option daytime_extract_sql_seconds (timestamp_extract_daytime t tz_local)"

definition MTIMEtimestamp_milliseconds :: "tzone \<Rightarrow> timestamp \<Rightarrow> int option" where
  "MTIMEtimestamp_milliseconds tz_local t = map_option daytime_extract_milliseconds (timestamp_extract_daytime t tz_local)"

subsection \<open>The weekday loops\<close>

lemma mod_7_small: "- 7 < x \<Longrightarrow> x < 7 \<Longrightarrow> x mod 7 = (if 0 \<le> x then x else x + 7)" for x :: int
  using mod_add_self2 [of x 7] mod_pos_pos_trivial [of "x + 7" 7] mod_pos_pos_trivial [of x 7] by auto

text \<open>Both loops walk day by day in one direction until the weekday \<open>w\<close> was met \<open>cnt\<close> times.\<close>

locale weekday_walk =
  fixes walk :: "int \<Rightarrow> int \<Rightarrow> int \<Rightarrow> int \<Rightarrow> int option"
    and nxt :: "int \<Rightarrow> int"
    and dir :: int
  assumes walk_unfold: "walk cnt dow w d =
      (if dow \<noteq> w then walk cnt (nxt dow) w (d + dir)
       else if cnt - 1 > 0 then walk (cnt - 1) (nxt dow) w (d + dir) else Some d)"
    and nxt_range: "1 \<le> dow \<Longrightarrow> dow \<le> 7 \<Longrightarrow> 1 \<le> nxt dow \<and> nxt dow \<le> 7"
    and nxt_dist: "1 \<le> dow \<Longrightarrow> dow \<le> 7 \<Longrightarrow> 1 \<le> w \<Longrightarrow> w \<le> 7 \<Longrightarrow>
      (dir * (w - nxt dow)) mod 7 = (if dow = w then 6 else (dir * (w - dow)) mod 7 - 1)"
begin

lemma walk_result:
  assumes "1 \<le> dow" "dow \<le> 7" "1 \<le> w" "w \<le> 7"
  shows "walk cnt dow w d = Some (d + dir * ((dir * (w - dow)) mod 7 + 7 * (max cnt 1 - 1)))"
  using assms
proof (induction "nat ((dir * (w - dow)) mod 7 + 7 * (max cnt 1 - 1))" arbitrary: cnt dow d rule: less_induct)
  case less
  have n: "1 \<le> nxt dow" "nxt dow \<le> 7" using nxt_range less.prems by auto
  note dist = nxt_dist [OF less.prems]
  have "0 \<le> (dir * (w - nxt dow)) mod 7" by simp
  then have ge: "dow \<noteq> w \<Longrightarrow> 1 \<le> (dir * (w - dow)) mod 7" using dist by simp
  have IH: "nat ((dir * (w - nxt dow)) mod 7 + 7 * (max c 1 - 1)) < nat ((dir * (w - dow)) mod 7 + 7 * (max cnt 1 - 1)) \<Longrightarrow>
     walk c (nxt dow) w (d + dir) = Some (d + dir + dir * ((dir * (w - nxt dow)) mod 7 + 7 * (max c 1 - 1)))" for c
    using less.hyps less.prems(3,4) n by blast
  consider "dow \<noteq> w" | "dow = w" "cnt > 1" | "dow = w" "cnt \<le> 1" by linarith
  then show ?case
  proof cases
    case 1
    then have "walk cnt (nxt dow) w (d + dir) = Some (d + dir + dir * ((dir * (w - dow)) mod 7 - 1 + 7 * (max cnt 1 - 1)))"
      using IH [of cnt] ge by (simp add: dist)
    with 1 show ?thesis by (subst walk_unfold) (simp add: algebra_simps)
  next
    case 2
    then have six: "(dir * (w - nxt dow)) mod 7 = 6" using dist by simp
    from 2 have "walk (cnt - 1) (nxt dow) w (d + dir) = Some (d + dir + dir * (6 + 7 * (cnt - 1 - 1)))"
      using IH [of "cnt - 1", unfolded six] by simp
    with 2 show ?thesis by (subst walk_unfold) (simp add: algebra_simps)
  next
    case 3
    then show ?thesis by (subst walk_unfold) simp
  qed
qed

end

interpretation fwd: weekday_walk rule_forward "\<lambda>w. if w + 1 = WEEKDAY_ZERO then 1 else w + 1" 1
proof
  show "rule_forward cnt dow w d =
      (if dow \<noteq> w then rule_forward cnt (if dow + 1 = 8 then 1 else dow + 1) w (d + 1)
       else if cnt - 1 > 0 then rule_forward (cnt - 1) (if dow + 1 = 8 then 1 else dow + 1) w (d + 1)
       else Some d)" for cnt dow w d
    by (rule rule_forward.simps)
  show "(1 * (w - (if dow + 1 = 8 then 1 else dow + 1))) mod 7 =
      (if dow = w then 6 else (1 * (w - dow)) mod 7 - 1)"
    if "1 \<le> dow" "dow \<le> 7" "1 \<le> w" "w \<le> 7" for dow w :: int
    using that by (simp add: mod_7_small)
qed auto

interpretation bwd: weekday_walk rule_backward "\<lambda>w. if w - 1 = 0 then 7 else w - 1" "- 1"
proof
  show "rule_backward cnt dow w d =
      (if dow \<noteq> w then rule_backward cnt (if dow - 1 = 0 then 7 else dow - 1) w (d + - 1)
       else if cnt - 1 > 0 then rule_backward (cnt - 1) (if dow - 1 = 0 then 7 else dow - 1) w (d + - 1)
       else Some d)" for cnt dow w d
    by (subst rule_backward.simps) simp
  show "(- 1 * (w - (if dow - 1 = 0 then 7 else dow - 1))) mod 7 =
      (if dow = w then 6 else (- 1 * (w - dow)) mod 7 - 1)"
    if "1 \<le> dow" "dow \<le> 7" "1 \<le> w" "w \<le> 7" for dow w :: int
    using that by (simp add: mod_7_small)
qed auto

lemma dayofweek_mod_7: "date_dayofweek d mod 7 = d mod 7"
  by (simp add: date_dayofweek_mod mod_add_left_eq)

lemma dayofweek_cong: "a mod 7 = b mod 7 \<Longrightarrow> date_dayofweek a = date_dayofweek b"
  unfolding date_dayofweek_mod using mod_diff_cong [of a 7 b 1 1] by simp

lemma dayofweek_eq: "1 \<le> w \<Longrightarrow> w \<le> 7 \<Longrightarrow> e mod 7 = w mod 7 \<Longrightarrow> date_dayofweek e = w"
  using dayofweek_cong [of e w] by (simp add: date_dayofweek_mod)

lemma SKIP_DAYS_dayofweek: "SKIP_DAYS d (date_dayofweek d) i = (d + i, date_dayofweek (d + i))"
proof -
  define w where "w = date_dayofweek d + i"
  have "w mod 7 = (d + i) mod 7"
    unfolding w_def by (rule mod_add_cong [OF dayofweek_mod_7 refl])
  moreover have "(let w' = w smod 7 in if w' \<le> 0 then w' + 7 else w') = date_dayofweek w"
    by (simp only: date_dayofweek_def)
  ultimately show ?thesis
    using dayofweek_cong [of w "d + i"] by (simp add: SKIP_DAYS_def w_def [symmetric] Let_def)
qed

lemma weekday_forward_mod: "(d + (w - date_dayofweek d) mod 7 + 7 * k) mod 7 = w mod 7"
proof -
  have "(d + (w - date_dayofweek d) mod 7 + 7 * k) mod 7 = (d + (w - date_dayofweek d)) mod 7"
    by (simp add: mod_add_right_eq)
  also have "\<dots> = (date_dayofweek d + (w - date_dayofweek d)) mod 7"
    by (rule mod_add_cong [OF dayofweek_mod_7 [symmetric] refl])
  finally show ?thesis by simp
qed

lemma weekday_backward_mod: "(d - (date_dayofweek d - w) mod 7 - 7 * k) mod 7 = w mod 7"
proof -
  have "(d - (date_dayofweek d - w) mod 7 - 7 * k) mod 7
      = (d - (date_dayofweek d - w) mod 7 - 7 * k + 7 * k) mod 7"
    by (rule mod_mult_self2 [symmetric])
  also have "\<dots> = (d - (date_dayofweek d - w)) mod 7"
    by (simp add: mod_diff_right_eq)
  also have "\<dots> = (date_dayofweek d - (date_dayofweek d - w)) mod 7"
    by (rule mod_diff_cong [OF dayofweek_mod_7 [symmetric] refl])
  finally show ?thesis by simp
qed

lemma forward_from:
  assumes "1 \<le> w" "w \<le> 7" "1 \<le> cnt"
  obtains e where "rule_forward cnt (date_dayofweek d) w d = Some e" "date_dayofweek e = w"
    "d + 7 * (cnt - 1) \<le> e" "e < d + 7 * cnt"
proof
  let ?e = "d + (w - date_dayofweek d) mod 7 + 7 * (cnt - 1)"
  show "rule_forward cnt (date_dayofweek d) w d = Some ?e"
    using fwd.walk_result [OF date_dayofweek_bounds [of d] assms(1,2), of cnt d] assms(3) by (simp add: max_def)
  show "date_dayofweek ?e = w" by (rule dayofweek_eq [OF assms(1,2) weekday_forward_mod])
  have "0 \<le> (w - date_dayofweek d) mod 7" "(w - date_dayofweek d) mod 7 < 7" by simp_all
  then show "d + 7 * (cnt - 1) \<le> ?e" "?e < d + 7 * cnt" by simp_all
qed

lemma backward_from:
  assumes "1 \<le> w" "w \<le> 7" "1 \<le> cnt"
  obtains e where "rule_backward cnt (date_dayofweek d) w d = Some e" "date_dayofweek e = w"
    "d - 7 * cnt < e" "e \<le> d - 7 * (cnt - 1)"
proof
  let ?e = "d - (date_dayofweek d - w) mod 7 - 7 * (cnt - 1)"
  show "rule_backward cnt (date_dayofweek d) w d = Some ?e"
    using bwd.walk_result [OF date_dayofweek_bounds [of d] assms(1,2), of cnt d] assms(3) by (simp add: max_def)
  show "date_dayofweek ?e = w" by (rule dayofweek_eq [OF assms(1,2) weekday_backward_mod])
  have "0 \<le> (date_dayofweek d - w) mod 7" "(date_dayofweek d - w) mod 7 < 7" by simp_all
  then show "d - 7 * cnt < ?e" "?e \<le> d - 7 * (cnt - 1)" by simp_all
qed

definition rule_valid :: "rule \<Rightarrow> bool" where
  "rule_valid r \<longleftrightarrow> 1 \<le> r_month r \<and> r_month r \<le> 12 \<and> 0 \<le> r_minutes r \<and> r_minutes r < 1440
     \<and> 1 \<le> \<bar>r_day r - DAY_ZERO\<bar> \<and> \<bar>r_day r - DAY_ZERO\<bar> \<le> NODAYS ! nat (r_month r)
     \<and> \<bar>r_weekday r - WEEKDAY_ZERO\<bar> \<le> 7 \<and> (r_weekday r \<noteq> WEEKDAY_ZERO \<or> r_day r > DAY_ZERO)
     \<and> r_empty r = 64"

text \<open>
  What a rule asks for in a month with first day number \<open>f\<close> and last day number \<open>l\<close>, and the last
  day number of a month in the closed form of the calendar.
\<close>

definition rule_date :: "int \<Rightarrow> int \<Rightarrow> int \<Rightarrow> int \<Rightarrow> int \<Rightarrow> bool" where
  "rule_date f l day wd e \<longleftrightarrow>
    (if wd = 0 then e = f + day - 1
     else date_dayofweek e = \<bar>wd\<bar> \<and>
       (if wd > 0 then
          (if day > 0 then f + 7 * (day - 1) \<le> e \<and> e < f + 7 * day
           else l + 7 * day < e \<and> e \<le> l + 7 * (day + 1))
        else
          (if day > 0 then f + day - 1 \<le> e \<and> e < f + day - 1 + 7
           else f - day - 1 - 7 < e \<and> e \<le> f - day - 1)))"

definition month_last :: "int \<Rightarrow> int \<Rightarrow> int" where
  "month_last m Y = (if m = 12 then daynum 1 1 (Y + 1) else daynum 1 (m + 1) Y) - 1"

lemma month_last_days:
  assumes "1 \<le> m" "m \<le> 12"
  shows "month_last m Y = daynum 1 m Y + (MONTHDAYS m Y - 1)"
  using assms cumdays_step [of m Y] cumdays_12 [of Y] by (cases "m = 12") (simp_all add: month_last_def daynum_def jan1_Suc)

lemma rule_date_last: "wd \<le> 0 \<or> day > 0 \<Longrightarrow> rule_date f l day wd e \<longleftrightarrow> rule_date f l' day wd e"
  by (auto simp: rule_date_def)

text \<open>The loops of \<^verbatim>\<open>compute_rule\<close>, for a month of \<open>MONTHDAYS m y\<close> days.\<close>

lemma compute_rule_date:
  assumes "rule_valid r"
  shows "\<exists>e. compute_rule r y = Some e \<and> rule_date (todate 1 (r_month r) y) (todate 1 (r_month r) y + (MONTHDAYS (r_month r) y - 1))
    (r_day r - DAY_ZERO) (r_weekday r - WEEKDAY_ZERO) e"
proof -
  define f n day wd where "f = todate 1 (r_month r) y" and "n = MONTHDAYS (r_month r) y"
    and "day = r_day r - DAY_ZERO" and "wd = r_weekday r - WEEKDAY_ZERO"
  have v: "day \<noteq> 0" "\<bar>wd\<bar> \<le> 7" "wd \<noteq> 0 \<or> day > 0"
    using assms(1) by (auto simp: rule_valid_def day_def wd_def)
  have eq: "compute_rule r y =
     (if wd = 0 then Some (f + (\<bar>day\<bar> - 1))
      else if day > 0 then
        (if wd < 0 then rule_forward 1 (date_dayofweek (f + (\<bar>day\<bar> - 1))) \<bar>wd\<bar> (f + (\<bar>day\<bar> - 1))
         else rule_forward \<bar>day\<bar> (date_dayofweek f) \<bar>wd\<bar> f)
      else if wd > 0 then rule_backward \<bar>day\<bar> (date_dayofweek (f + (n - 1))) \<bar>wd\<bar> (f + (n - 1))
      else rule_backward 1 (date_dayofweek (f + (\<bar>day\<bar> - 1))) \<bar>wd\<bar> (f + (\<bar>day\<bar> - 1)))"
    using v(2) by (simp add: compute_rule_def Let_def SKIP_DAYS_dayofweek f_def [symmetric] n_def [symmetric])
      (auto simp: day_def wd_def)
  consider "wd = 0" | "wd < 0" "day > 0" | "wd > 0" "day > 0" | "wd > 0" "day < 0" | "wd < 0" "day < 0"
    using v by linarith
  then have "\<exists>e. compute_rule r y = Some e \<and> rule_date f (f + (n - 1)) day wd e" (is ?goal)
  proof cases
    case 1 then show ?goal using v by (auto simp: eq rule_date_def)
  next
    case 2
    then have h: "1 \<le> \<bar>wd\<bar>" by simp
    show ?goal
      by (rule forward_from [OF h v(2), of 1 "f + (\<bar>day\<bar> - 1)"]) (use 2 v(1) in \<open>simp_all add: eq rule_date_def\<close>)
  next
    case 3
    then have h: "1 \<le> \<bar>wd\<bar>" by simp
    show ?goal
      by (rule forward_from [OF h v(2), of "\<bar>day\<bar>" f]) (use 3 v(1) in \<open>simp_all add: eq rule_date_def\<close>)
  next
    case 4
    then have h: "1 \<le> \<bar>wd\<bar>" by simp
    show ?goal
      by (rule backward_from [OF h v(2), of "\<bar>day\<bar>" "f + (n - 1)"]) (use 4 v(1) in \<open>simp_all add: eq rule_date_def\<close>)
  next
    case 5
    then have h: "1 \<le> \<bar>wd\<bar>" by simp
    show ?goal
      by (rule backward_from [OF h v(2), of 1 "f + (\<bar>day\<bar> - 1)"]) (use 5 v(1) in \<open>simp_all add: eq rule_date_def\<close>)
  qed
  then show ?thesis by (simp only: f_def n_def day_def wd_def)
qed

text \<open>
  C23.  For every well-formed rule and every month of a year that exists the loops of
  \<^verbatim>\<open>compute_rule\<close> end, and the day they return is the one the rule asks for: the given day
  of the month, the n-th or n-last such weekday of the month, or the first such
  weekday on or after, respectively on or before, the given day.  The exception is the n-last
  weekday of February in a year before year 1, which is counted from the end that February
  has in the unshifted year.
\<close>

theorem compute_rule_correct:
  assumes "rule_valid r" "DATE 1 (r_month r) y"
    and f: "f = daynum 1 (r_month r) (astro y)"
    and l: "l = (if y < 0 \<and> r_month r = 2 \<and> r_day r < DAY_ZERO \<and> r_weekday r > WEEKDAY_ZERO then f + MONTHDAYS 2 y - 1 else month_last (r_month r) (astro y))"
  shows "\<exists>e. compute_rule r y = Some e \<and> rule_date f l (r_day r - DAY_ZERO) (r_weekday r - WEEKDAY_ZERO) e"
proof -
  have m: "1 \<le> r_month r" "r_month r \<le> 12" using assms(1) by (simp_all add: rule_valid_def)
  have t: "todate 1 (r_month r) y = f" unfolding f by (rule todate_daynum [OF assms(2)])
  have "MONTHDAYS (r_month r) y = MONTHDAYS (r_month r) (astro y)" if "\<not> (y < 0 \<and> r_month r = 2)"
    using that by (auto simp: astro_def MONTHDAYS_def)
  then have "l = f + (MONTHDAYS (r_month r) y - 1) \<or> y < 0 \<and> r_month r = 2 \<and> \<not> (r_day r < DAY_ZERO \<and> r_weekday r > WEEKDAY_ZERO)"
    unfolding l month_last_days [OF m] f by (cases "y < 0 \<and> r_month r = 2") auto
  then consider "l = f + (MONTHDAYS (r_month r) y - 1)" | "r_weekday r - WEEKDAY_ZERO \<le> 0 \<or> r_day r - DAY_ZERO > 0"
    using assms(1) by (auto simp: rule_valid_def)
  then show ?thesis
  proof cases
    case 1
    then show ?thesis using compute_rule_date [OF assms(1), of y] unfolding t by simp
  next
    case 2
    then show ?thesis using compute_rule_date [OF assms(1), of y] rule_date_last [OF 2] unfolding t by blast
  qed
qed

theorem compute_rule_witness:
  "let r = \<lparr>r_month = 3, r_minutes = 120, r_day = 31, r_weekday = 9, r_empty = 64\<rparr> in
   rule_valid r \<and> DATE 1 3 2000 \<and> (\<exists>e. compute_rule r 2000 = Some e \<and> date_dayofweek e = 1
     \<and> todate 31 3 2000 - 7 < e \<and> e \<le> todate 31 3 2000)"
proof -
  let ?r = "\<lparr>r_month = 3, r_minutes = 120, r_day = 31, r_weekday = 9, r_empty = 64\<rparr>"
  have h: "rule_valid ?r" "DATE 1 (r_month ?r) 2000" by code_simp+
  have n: "month_last 3 (astro 2000) = todate 31 3 2000" by code_simp
  show ?thesis using compute_rule_correct [OF h refl refl] h by (simp add: rule_date_def n)
qed

subsection \<open>Packing rules and offsets\<close>

lemma i32_mod_16: "i32 x mod 16 = x mod 16"
proof -
  have "i32 x mod 16 = ((x + 2147483648) mod 4294967296 mod 16 - 2147483648) mod 16"
    by (simp add: swrap_def mod_diff_left_eq)
  also have "(x + 2147483648) mod 4294967296 mod 16 = (x + 2147483648) mod 16"
    by (rule mod_mod_cancel) simp
  also have "((x + 2147483648) mod 16 - 2147483648) mod 16 = x mod 16"
    by (simp add: mod_diff_left_eq)
  finally show ?thesis .
qed

lemma rule_asint_mod: "rule_asint r mod 16 = r_month r mod 16"
proof -
  have "rule_asint r mod 16 = (r_month r + r_minutes r * 2 ^ 4 + r_day r * 2 ^ 15 + r_weekday r * 2 ^ 21
     + r_empty r * 2 ^ 25) mod 16"
    unfolding rule_asint_def by (rule i32_mod_16)
  also have "\<dots> = (r_month r + 16 * (r_minutes r + r_day r * 2 ^ 11 + r_weekday r * 2 ^ 17 + r_empty r * 2 ^ 21)) mod 16"
    by (simp add: algebra_simps)
  also have "\<dots> = r_month r mod 16" by (rule mod_mult_self2)
  finally show ?thesis .
qed

lemma rule_valid_not_nil: "rule_valid r \<Longrightarrow> \<not> rule_isnil r"
  using rule_asint_mod [of r] by (auto simp: rule_valid_def rule_isnil_def)

lemma rule_nil_isnil: "rule_isnil rule_nil" by code_simp

lemma take_bit_small: "0 \<le> x \<Longrightarrow> x < 2 ^ k \<Longrightarrow> take_bit k x = x" for x :: int
  by (simp add: take_bit_int_eq_self)

lemma NODAYS_le: "1 \<le> m \<Longrightarrow> m \<le> 12 \<Longrightarrow> NODAYS ! nat m \<le> 31"
proof -
  assume m: "1 \<le> m" "m \<le> 12"
  have "\<forall>k\<in>{1..12}. NODAYS ! k \<le> 31" by code_simp
  moreover have "nat m \<in> {1..12}" using m by auto
  ultimately show ?thesis by blast
qed

definition rule_args :: "int \<Rightarrow> int \<Rightarrow> int \<Rightarrow> int \<Rightarrow> bool" where
  "rule_args mo d wd mi \<longleftrightarrow> 1 \<le> mo \<and> mo \<le> 12 \<and> \<bar>wd\<bar> \<le> 7 \<and> 0 \<le> mi \<and> mi < 1440
     \<and> 1 \<le> \<bar>d\<bar> \<and> \<bar>d\<bar> \<le> NODAYS ! nat mo \<and> (wd \<noteq> 0 \<or> d > 0)"

lemma rule_create_eq:
  "rule_create mo d wd mi = (if rule_args mo d wd mi
     then \<lparr>r_month = mo, r_minutes = mi, r_day = DAY_ZERO + d, r_weekday = WEEKDAY_ZERO + wd, r_empty = 64\<rparr>
     else rule_nil)"
proof (cases "rule_args mo d wd mi")
  case True
  then have "\<bar>d\<bar> \<le> 31" using NODAYS_le [of mo] by (auto simp: rule_args_def)
  moreover have "take_bit 4 (WEEKDAY_ZERO + wd) = WEEKDAY_ZERO + wd"
    using True by (intro take_bit_small) (auto simp: rule_args_def)
  moreover have "wd \<noteq> int_nil" "d \<noteq> int_nil" using True \<open>\<bar>d\<bar> \<le> 31\<close> by (auto simp: rule_args_def)
  ultimately show ?thesis using True
    by (simp add: rule_create_def rule_set_def rule_nil_def rule_args_def take_bit_small)
next
  case False
  then have "rule_create mo d wd mi = rule_nil" unfolding rule_create_def rule_args_def by (intro if_not_P) auto
  with False show ?thesis by simp
qed

text \<open>
  The fields extracted from a rule are the ones it was created from, and when an
  argument is out of range the rule is nil and every extracted field is nil.
\<close>

theorem rule_create_extract:
  "let r = rule_create mo d wd mi in
    (MTIMErule_extract_month r, MTIMErule_extract_day r, MTIMErule_extract_weekday r, MTIMErule_extract_minutes r)
    = (if rule_args mo d wd mi then (mo, d, wd, mi) else (int_nil, int_nil, int_nil, int_nil))"
proof -
  have "rule_args mo d wd mi \<Longrightarrow> rule_valid (rule_create mo d wd mi)"
    by (simp add: rule_create_eq) (simp add: rule_valid_def rule_args_def)
  then show ?thesis using rule_valid_not_nil rule_nil_isnil
    by (simp add: rule_create_eq MTIMErule_extract_month_def MTIMErule_extract_day_def
        MTIMErule_extract_weekday_def MTIMErule_extract_minutes_def Let_def)
qed

lemma get_rule_decode:
  fixes w d m mo :: int
  defines "i \<equiv> take_bit 4 w OR push_bit 6 (take_bit 6 d) OR push_bit 10 (take_bit 11 m) OR push_bit 21 (take_bit 4 mo)"
  shows "i AND 15 = take_bit 4 w"
    and "drop_bit 6 (i AND push_bit 6 63) = take_bit 6 d OR push_bit 4 (take_bit 2 m)"
    and "drop_bit 10 (i AND push_bit 10 2047) = take_bit 11 m OR drop_bit 4 (take_bit 6 d)"
    and "drop_bit 21 (i AND push_bit 21 15) = take_bit 4 mo"
    and "take_bit 25 i = i"
proof -
  have m: "(15::int) = mask 4" "(63::int) = mask 6" "(2047::int) = mask 11"
    by (simp_all add: mask_eq_exp_minus_1)
  show "i AND 15 = take_bit 4 w" unfolding m i_def by (rule bit_eqI) (auto simp: bit_simps)
  show "drop_bit 6 (i AND push_bit 6 63) = take_bit 6 d OR push_bit 4 (take_bit 2 m)" 
    unfolding m i_def by (rule bit_eqI) (auto simp: bit_simps)
  show "drop_bit 10 (i AND push_bit 10 2047) = take_bit 11 m OR drop_bit 4 (take_bit 6 d)"
    unfolding m i_def by (rule bit_eqI) (auto simp: bit_simps)
  show "drop_bit 21 (i AND push_bit 21 15) = take_bit 4 mo"
    unfolding m i_def by (rule bit_eqI) (auto simp: bit_simps)
  show "take_bit 25 i = i"
    unfolding m i_def by (rule bit_eqI) (auto simp: bit_simps)
qed

lemma rule_valid_bits:
  assumes "rule_valid r"
  shows "take_bit 4 (r_month r) = r_month r" "take_bit 11 (r_minutes r) = r_minutes r"
    "take_bit 6 (r_day r) = r_day r" "take_bit 4 (r_weekday r) = r_weekday r"
  using assms NODAYS_le [of "r_month r"] by (auto simp: rule_valid_def intro!: take_bit_small)

lemma set_get_rule:
  assumes "rule_valid r"
  shows "set_rule (get_rule r) = r\<lparr>r_day := r_day r OR push_bit 4 (take_bit 2 (r_minutes r)),
      r_minutes := r_minutes r OR drop_bit 4 (r_day r)\<rparr>"
    and "take_bit 25 (get_rule r) = get_rule r"
proof -
  note b = rule_valid_bits [OF assms] and
    dec = get_rule_decode [of "r_weekday r" "r_day r" "r_minutes r" "r_month r"]
  let ?d = "r_day r OR push_bit 4 (take_bit 2 (r_minutes r))" and ?m = "r_minutes r OR drop_bit 4 (r_day r)"
  have i: "get_rule r AND 15 = r_weekday r" "drop_bit 6 (get_rule r AND push_bit 6 63) = ?d"
    "drop_bit 10 (get_rule r AND push_bit 10 2047) = ?m" "drop_bit 21 (get_rule r AND push_bit 21 15) = r_month r"
    using dec unfolding b get_rule_def by simp_all
  have "take_bit 6 ?d = ?d" "take_bit 11 ?m = ?m"
    by (subst (1 2) b(3) [symmetric]; rule bit_eqI; auto simp: bit_simps)
       (subst (1 2) b(2) [symmetric], subst (1 2) b(3) [symmetric], rule bit_eqI, auto simp: bit_simps)
  then show "set_rule (get_rule r) = r\<lparr>r_day := ?d, r_minutes := ?m\<rparr>"
    using b assms unfolding set_rule_def i by (simp add: rule_set_def rule_nil_def rule_valid_def)
  show "take_bit 25 (get_rule r) = get_rule r" using dec(5) unfolding b get_rule_def .
qed

lemma offset_split:
  fixes i :: int
  assumes "0 \<le> i" "i < 8192"
  shows "push_bit 7 (drop_bit 7 (i AND 8064)) + (i AND 127) = i"
proof -
  have m: "(127::int) = mask 7" "(8064::int) = push_bit 7 (mask 6)"
    by (simp_all add: mask_eq_exp_minus_1 push_bit_eq_mult)
  have 1: "i AND 127 = i mod 128" unfolding m by (simp add: take_bit_eq_mod flip: take_bit_eq_mask)
  have "drop_bit 7 (i AND 8064) = take_bit 6 (drop_bit 7 i)"
    unfolding m by (rule bit_eqI) (auto simp: bit_simps)
  also have "\<dots> = i div 128" using assms
    by (simp add: drop_bit_eq_div take_bit_eq_mod)
  finally show ?thesis unfolding 1 by (simp add: push_bit_eq_mult)
qed

lemma get_set_offset: "\<bar>i\<bar> < OFFSET_ZERO \<Longrightarrow> get_offset (set_offset z i) = i"
  using offset_split [of "i + OFFSET_ZERO"] by (auto simp: get_offset_def set_offset_def)

lemma get_offset_upd [simp]: "get_offset (z\<lparr>tz_dst := b\<rparr>) = get_offset z"
  "get_offset (z\<lparr>tz_dst_start := s\<rparr>) = get_offset z" "get_offset (z\<lparr>tz_dst_end := s\<rparr>) = get_offset z"
  by (simp_all add: get_offset_def)

lemma tz_isnil_iff: "tz_isnil z \<longleftrightarrow> get_offset z = - OFFSET_ZERO"
  by (simp add: tz_isnil_def get_offset_def tzone_nil_def)

lemma set_offset_dst [simp]: "tz_dst (set_offset z i) = tz_dst z"
  by (simp add: set_offset_def)

text \<open>
  Reading back a time zone with daylight saving: the offset is the one given, but the
  two rules are not.  The packing shifts the 6-bit day by 6 and the minutes by 10, so
  the fields overlap in two bits: the day comes back with the low bits of the minutes
  or-ed in, and the minutes with the high bits of the day.
\<close>

theorem tzone_create_dst_extract:
  assumes "\<bar>mins\<bar> < 1440" "rule_valid s" "rule_valid e"
  shows "MTIMEtzone_extract_minutes (tzone_create_dst mins s e) = mins \<and>
    MTIMEtzone_extract_start (tzone_create_dst mins s e) =
      s\<lparr>r_day := r_day s OR push_bit 4 (take_bit 2 (r_minutes s)),
        r_minutes := r_minutes s OR drop_bit 4 (r_day s)\<rparr> \<and>
    MTIMEtzone_extract_end (tzone_create_dst mins s e) =
      e\<lparr>r_day := r_day e OR push_bit 4 (take_bit 2 (r_minutes e)),
        r_minutes := r_minutes e OR drop_bit 4 (r_day e)\<rparr>"
proof -
  have "mins \<noteq> int_nil" using assms(1) by auto
  then show ?thesis using assms rule_valid_not_nil set_get_rule [OF assms(2)] set_get_rule [OF assms(3)]
    by (simp add: tzone_create_dst_def MTIMEtzone_extract_minutes_def MTIMEtzone_extract_start_def
      MTIMEtzone_extract_end_def tz_isnil_iff get_set_offset)
qed

theorem tzone_create_dst_witness:
  "let s = rule_create 3 (- 1) 1 120; e = rule_create 10 (- 1) 1 180; z = tzone_create_dst 60 s e in
   rule_valid s \<and> rule_valid e \<and> MTIMEtzone_extract_minutes z = 60
   \<and> MTIMErule_extract_minutes s = 120 \<and> MTIMErule_extract_minutes (MTIMEtzone_extract_start z) = 121"
proof -
  let ?s = "rule_create 3 (- 1) 1 120" and ?e = "rule_create 10 (- 1) 1 180"
  have h: "\<bar>60\<bar> < (1440::int)" "rule_valid ?s" "rule_valid ?e" by code_simp+
  have "MTIMErule_extract_minutes ?s = 120" "MTIMErule_extract_minutes (?s\<lparr>r_day := r_day ?s OR
      push_bit 4 (take_bit 2 (r_minutes ?s)), r_minutes := r_minutes ?s OR drop_bit 4 (r_day ?s)\<rparr>) = 121"
    by code_simp+
  with tzone_create_dst_extract [OF h] h show ?thesis by (simp add: Let_def)
qed

lemma in_timestamps_near:
  assumes "DATE_MIN < d" "d < DATE_MAX" "0 \<le> t" "t < DAY_MSECS" "\<bar>k\<bar> \<le> DAY_MSECS"
  shows "ts_valid (in_timestamps (d * DAY_MSECS + t + k))" "ts_msecs (in_timestamps (d * DAY_MSECS + t + k)) = d * DAY_MSECS + t + k"
proof -
  define a where "a = (if t + k < 0 then - 1 else if t + k \<ge> DAY_MSECS then 1 else (0::int))"
  have "in_timestamps (d * DAY_MSECS + t + k) = \<lparr>days = d + a, msecs = t + k - a * DAY_MSECS\<rparr>"
    using assms by (subst in_timestamps_eq [of _ "d + a" "t + k - a * DAY_MSECS"])
      (auto simp: a_def algebra_simps)
  moreover from this have "ts_valid \<dots>" using assms by (auto simp: ts_valid_def a_def)
  ultimately show "ts_valid (in_timestamps (d * DAY_MSECS + t + k))"
    "ts_msecs (in_timestamps (d * DAY_MSECS + t + k)) = d * DAY_MSECS + t + k"
    using in_timestamps_valid [of "d * DAY_MSECS + t + k"] ts_valid_not_nil by auto
qed

text \<open>
  In a zone without daylight saving the timestamp of a local date and time is the
  moment shifted back by the zone's offset, and extracting the date and the time of
  day in the same zone gives the local ones again.
\<close>

theorem timestamp_create_extract:
  assumes "tz_dst z = 0" "\<not> tz_isnil z" "\<bar>get_offset z\<bar> < 1440" "DATE_MIN < d" "d < DATE_MAX" "0 \<le> t" "t < DAY_MSECS"
  shows "\<exists>ts. timestamp_create d t z = Some ts \<and> ts_msecs ts = d * DAY_MSECS + t - get_offset z * 60000 \<and>
    timestamp_extract_date ts z = Some d \<and> timestamp_extract_daytime ts z = Some t"
proof -
  define k where "k = get_offset z * 60000"
  have k: "\<bar>k\<bar> \<le> DAY_MSECS" "\<bar>- k\<bar> \<le> DAY_MSECS" "k = 0 \<longleftrightarrow> get_offset z = 0" using assms(3) by (auto simp: k_def)
  let ?l = "\<lparr>days = d, msecs = t\<rparr>" and ?ts = "in_timestamps (d * DAY_MSECS + t + - k)"
  have l: "ts_valid ?l" "ts_msecs ?l = d * DAY_MSECS + t" "d \<noteq> int_nil" "t \<noteq> int_nil" "\<not> ts_isnil ?l"
    using assms(4-7) ts_valid_not_nil [of ?l] by (auto simp: ts_valid_def ts_msecs_def DATE_MIN_eq)
  note ts = in_timestamps_near [OF assms(4-7) k(2)]
  have c: "timestamp_create d t z = Some ?ts"
    using l assms(1,2) ts_add_exact [OF l(1), of "- k"] k by (simp add: timestamp_create_def Let_def k_def)
  have "in_timestamps (d * DAY_MSECS + t) = ?l"
    using assms by (subst in_timestamps_eq [of _ d t]) auto
  then have "MTIMEtimestamp_add ?ts k = ?l"
    using ts_add_exact [OF ts(1), of k] ts(2) k(1) by simp
  then have "timestamp_local ?ts z = Some ?l"
    using assms(1) by (simp add: timestamp_local_def timestamp_inside_def Let_def k_def)
  then have "timestamp_extract_date ?ts z = Some d \<and> timestamp_extract_daytime ?ts z = Some t"
    using assms(2) l(5) ts_valid_not_nil [OF ts(1)]
    by (simp add: timestamp_extract_date_def timestamp_extract_daytime_def)
  with c ts(2) show ?thesis by (auto simp: k_def)
qed

theorem timestamp_create_witness:
  "tz_dst (tzone_create 60) = 0 \<and> (\<exists>ts. timestamp_create 730000 0 (tzone_create 60) = Some ts
     \<and> ts_msecs ts = 730000 * DAY_MSECS - 3600000
     \<and> timestamp_extract_date ts (tzone_create 60) = Some 730000
     \<and> timestamp_extract_daytime ts (tzone_create 60) = Some 0)"
proof -
  have h: "tz_dst (tzone_create 60) = 0" "\<not> tz_isnil (tzone_create 60)" "\<bar>get_offset (tzone_create 60)\<bar> < 1440"
    "get_offset (tzone_create 60) = 60" "DATE_MIN < 730000" "730000 < DATE_MAX" by code_simp+
  show ?thesis using timestamp_create_extract [OF h(1-3,5,6), of 0] h(1,4) by simp
qed

end
