(* ===== verification/Digits.thy ===== *)
theory Digits
  imports Prelude
begin

text \<open>
  Decimal text: what \<^verbatim>\<open>sprintf\<close> prints for \<^verbatim>\<open>%d\<close>, \<^verbatim>\<open>%02d\<close> and \<^verbatim>\<open>%03d\<close>, and the locale
  \<open>digit_loop\<close>, the contract of the loops of the scanners that read such text.
\<close>

subsection \<open>Printing numbers\<close>

fun dec :: "nat \<Rightarrow> string" where
  "dec n = (if n < 10 then [digit_char n] else dec (n div 10) @ [digit_char (n mod 10)])"

declare dec.simps [simp del]

definition fmt_d :: "int \<Rightarrow> string" where
  "fmt_d x = (if x < 0 then CHR ''-'' # dec (nat (- x)) else dec (nat x))"

text \<open>\<^verbatim>\<open>%02d\<close> and \<^verbatim>\<open>%03d\<close>.\<close>

definition fmt_0d :: "nat \<Rightarrow> int \<Rightarrow> string" where
  "fmt_0d w x =
    (let s = dec (nat \<bar>x\<bar>)
     in if x < 0 then CHR ''-'' # replicate (w - 1 - length s) (CHR ''0'') @ s
        else replicate (w - length s) (CHR ''0'') @ s)"

subsection \<open>Digit loops\<close>

lemma digit_in_range: "GDKisdigit (cget buf pos) \<Longrightarrow> pos < length buf"
  by (rule ccontr) (simp add: cget_def)

definition digits_value :: "int \<Rightarrow> string \<Rightarrow> int" where
  "digits_value v ds = foldl (\<lambda>v c. digit_val c + v * 10) v ds"

abbreviation all_digits :: "string \<Rightarrow> bool" where
  "all_digits ds \<equiv> list_all GDKisdigit ds"

lemma digits_value_simps [simp]:
  "digits_value v [] = v" "digits_value v (c # ds) = digits_value (digit_val c + v * 10) ds"
  "digits_value v (ds @ es) = digits_value (digits_value v ds) es"
  by (simp_all add: digits_value_def)

lemma digits_value_mono: "0 \<le> v \<Longrightarrow> all_digits ds \<Longrightarrow> v \<le> digits_value v ds"
proof (induction ds arbitrary: v)
  case (Cons c ds)
  then have "v \<le> digit_val c + v * 10" "0 \<le> digit_val c + v * 10"
    using digit_val_range [of c] by auto
  with Cons show ?case by fastforce
qed simp

locale digit_loop =
  fixes loop :: "string \<Rightarrow> nat \<Rightarrow> int \<Rightarrow> nat \<times> int" and limit :: int
  assumes step: "0 < limit \<Longrightarrow> GDKisdigit (cget buf pos) \<Longrightarrow> 0 \<le> v \<Longrightarrow>
      digit_val (cget buf pos) + v * 10 \<le> limit \<Longrightarrow>
      loop buf pos v = loop buf (pos + 1) (digit_val (cget buf pos) + v * 10)"
    and stop: "\<not> GDKisdigit (cget buf pos) \<Longrightarrow> loop buf pos v = (pos, v)"
begin

lemma reads:
  assumes "0 < limit" "all_digits ds" "\<not> GDKisdigit (cget post 0)" "0 \<le> v" "digits_value v ds \<le> limit"
  shows "loop (pre @ ds @ post) (length pre) v = (length pre + length ds, digits_value v ds)"
  using assms(2,4,5)
proof (induction ds arbitrary: pre v)
  case Nil
  then show ?case using assms(3) by (subst stop) simp_all
next
  case (Cons c ds)
  let ?v = "digit_val c + v * 10"
  have v: "0 \<le> ?v" using Cons.prems digit_val_range [of c] by simp
  have "?v \<le> limit" using digits_value_mono [OF v, of ds] Cons.prems by simp
  then have "loop (pre @ (c # ds) @ post) (length pre) v = loop ((pre @ [c]) @ ds @ post) (length (pre @ [c])) ?v"
    using assms(1) Cons.prems step [of "pre @ (c # ds) @ post" "length pre" v] by simp
  also have "\<dots> = (length (pre @ [c]) + length ds, digits_value ?v ds)"
    using Cons.prems v by (intro Cons.IH) simp_all
  finally show ?case by simp
qed

lemma reads_at:
  assumes "0 < limit" "all_digits ds" "\<not> GDKisdigit (cget post 0)" "digits_value 0 ds \<le> limit"
    "buf = pre @ ds @ post" "pos = length pre"
  shows "loop buf pos 0 = (pos + length ds, digits_value 0 ds)"
  using reads [OF assms(1-3) _ assms(4)] assms(5,6) by simp

end

lemma limit_not_reached: "0 < limit \<Longrightarrow> 0 \<le> v \<Longrightarrow> GDKisdigit c \<Longrightarrow> digit_val c + v * 10 \<le> limit \<Longrightarrow> v < limit"
  using digit_val_range [of c] by linarith

subsection \<open>The value of what is printed\<close>

lemma dec_digits: "all_digits (dec n) \<and> dec n \<noteq> [] \<and> digits_value 0 (dec n) = int n"
proof (induction n rule: dec.induct)
  case (1 n)
  then show ?case
    by (subst (1 2 3) dec.simps) (auto simp: GDKisdigit_digit_char digit_val_digit_char zmod_int zdiv_int)
qed

lemma zeros_value [simp]: "digits_value 0 (replicate k (CHR ''0'')) = 0"
  by (induction k) (simp_all add: digit_val_def)

lemma zero_isdigit: "GDKisdigit (CHR ''0'')"
  by (simp add: GDKisdigit_def)

lemma fmt_0d_digits:
  assumes "0 \<le> x"
  shows "all_digits (fmt_0d w x)" "fmt_0d w x \<noteq> []" "digits_value 0 (fmt_0d w x) = x"
  using assms dec_digits [of "nat x"]
  by (auto simp: fmt_0d_def Let_def list_all_iff zero_isdigit)

end
