(* ===== verification/Mtime_Text.thy ===== *)
theory Mtime_Text
  imports Mtime_Zone Digits "HOL-Library.Char_ord"
begin

text \<open>
  Text form of dates, times of day and timestamps (\<^verbatim>\<open>mtime.c\<close>).  A buffer is a \<^typ>\<open>string\<close> that
  \<^verbatim>\<open>cget\<close> reads at a position, giving NUL from its end on; a pointer into it is the
  remaining string.  A parser returns the position it reached together with the value it
  stored, 0 being a syntax error.  The flag \<^verbatim>\<open>synonyms\<close> is the global of that name.
\<close>

subsection \<open>Matching words\<close>

definition LOWER :: "char \<Rightarrow> char" where
  "LOWER c = (if CHR ''A'' \<le> c \<and> c \<le> CHR ''Z'' then char_of (of_char c + (32::nat)) else c)"

function fleximatch_loop :: "string \<Rightarrow> string \<Rightarrow> bool \<Rightarrow> nat \<Rightarrow> nat \<Rightarrow> nat \<times> nat" where
  "fleximatch_loop s [] spacy hit mins = (hit, mins)"
| "fleximatch_loop s (p # pat) spacy hit mins =
    (if LOWER (cget s 0) \<noteq> p then
       if GDKisspace (cget s 0) \<and> spacy
       then fleximatch_loop (tl s) (p # pat) spacy (hit + 1) (mins + 1)
       else (hit, mins)
     else fleximatch_loop (tl s) pat (GDKisspace p) (hit + 1) mins)"
  by pat_completeness auto
termination
proof (relation "measure (\<lambda>(s, pat, _). length s + length pat)", goal_cases)
  case (2 s p pat spacy hit mins)
  then have "s \<noteq> []" by (auto simp: GDKisspace_def)
  then show ?case by (cases s) auto
qed (auto simp: less_Suc_eq_le)

definition fleximatch :: "string \<Rightarrow> string \<Rightarrow> nat \<Rightarrow> nat" where
  "fleximatch s pat mins =
    (let mins = (if mins = 0 then length pat else mins);
         (hit, mins) = fleximatch_loop s pat False 0 mins
     in if hit \<ge> mins then hit else 0)"

text \<open>The search runs over \<^verbatim>\<open>list[1]\<close> to \<^verbatim>\<open>list[size]\<close>; the model's list starts there.\<close>

fun parse_substr_from :: "int \<Rightarrow> string \<Rightarrow> nat \<Rightarrow> string list \<Rightarrow> nat \<times> int" where
  "parse_substr_from i s mins [] = (0, int_nil)"
| "parse_substr_from i s mins (w # ws) =
    (let j = fleximatch s w mins in if j > 0 then (j, i) else parse_substr_from (i + 1) s mins ws)"

definition parse_substr :: "string \<Rightarrow> nat \<Rightarrow> string list \<Rightarrow> nat \<times> int" where
  "parse_substr s mins ws = parse_substr_from 1 s mins ws"

definition MONTHS :: "string list" where
  "MONTHS = [''january'', ''february'', ''march'', ''april'', ''may'', ''june'', ''july'',
     ''august'', ''september'', ''october'', ''november'', ''december'']"

definition DAYS :: "string list" where
  "DAYS = [''sunday'', ''monday'', ''tuesday'', ''wednesday'', ''thursday'', ''friday'', ''saturday'']"

definition COUNT1 :: "string list" where
  "COUNT1 = [''first'', ''second'', ''third'', ''fourth'', ''fifth'', ''last'']"

definition COUNT2 :: "string list" where
  "COUNT2 = [''1st'', ''2nd'', ''3rd'', ''4th'', ''5th'', ''last'']"

subsection \<open>Reading numbers\<close>

text \<open>
  The four shapes of digit loop: stop on the digit that passes the limit, stop after it,
  ignore the digits after it, and stop before a digit once the limit is reached.
\<close>

function digits_on :: "int \<Rightarrow> string \<Rightarrow> nat \<Rightarrow> int \<Rightarrow> nat \<times> int" where
  "digits_on limit buf pos v =
    (if GDKisdigit (cget buf pos) then
       let v = digit_val (cget buf pos) + v * 10
       in if v > limit then (pos, v) else digits_on limit buf (pos + 1) v
     else (pos, v))"
  by pat_completeness auto
termination
  by (relation "measure (\<lambda>(limit, buf, pos, v). length buf - pos)") (auto dest: digit_in_range)

function digits_after :: "int \<Rightarrow> string \<Rightarrow> nat \<Rightarrow> int \<Rightarrow> nat \<times> int" where
  "digits_after limit buf pos v =
    (if GDKisdigit (cget buf pos) then
       let v = digit_val (cget buf pos) + v * 10
       in if v > limit then (pos + 1, v) else digits_after limit buf (pos + 1) v
     else (pos, v))"
  by pat_completeness auto
termination
  by (relation "measure (\<lambda>(limit, buf, pos, v). length buf - pos)") (auto dest: digit_in_range)

function digits_all :: "int \<Rightarrow> string \<Rightarrow> nat \<Rightarrow> int \<Rightarrow> nat \<times> int" where
  "digits_all limit buf pos v =
    (if GDKisdigit (cget buf pos)
     then digits_all limit buf (pos + 1) (if v \<le> limit then digit_val (cget buf pos) + v * 10 else v)
     else (pos, v))"
  by pat_completeness auto
termination
  by (relation "measure (\<lambda>(limit, buf, pos, v). length buf - pos)") (auto dest: digit_in_range)

function digits_before :: "int \<Rightarrow> string \<Rightarrow> nat \<Rightarrow> int \<Rightarrow> nat \<times> int" where
  "digits_before limit buf pos v =
    (if GDKisdigit (cget buf pos) \<and> v < limit
     then digits_before limit buf (pos + 1) (digit_val (cget buf pos) + v * 10)
     else (pos, v))"
  by pat_completeness auto
termination
  by (relation "measure (\<lambda>(limit, buf, pos, v). length buf - pos)") (auto dest: digit_in_range)

function digits_msec :: "string \<Rightarrow> nat \<Rightarrow> int \<Rightarrow> int \<Rightarrow> nat \<times> int" where
  "digits_msec buf pos fac msec =
    (if GDKisdigit (cget buf pos)
     then digits_msec buf (pos + 1) (fac sdiv 10) (msec + digit_val (cget buf pos) * fac)
     else (pos, msec))"
  by pat_completeness auto
termination
  by (relation "measure (\<lambda>(buf, pos, fac, msec). length buf - pos)") (auto dest: digit_in_range)

function skip_blanks :: "string \<Rightarrow> nat \<Rightarrow> nat" where
  "skip_blanks buf pos = (if cget buf pos = CHR '' '' then skip_blanks buf (pos + 1) else pos)"
  by pat_completeness auto
termination
  by (relation "measure (\<lambda>(buf, pos). length buf - pos)") (auto simp: cget_def split: if_splits)

declare digits_on.simps [simp del] digits_after.simps [simp del] digits_all.simps [simp del]
  digits_before.simps [simp del] digits_msec.simps [simp del] skip_blanks.simps [simp del]

subsection \<open>Dates\<close>

text \<open>The part of \<^verbatim>\<open>date_fromstr\<close> up to the month: whether the year comes last, the position,
  the year and the separator.\<close>

definition date_from_year :: "bool \<Rightarrow> string \<Rightarrow> (bool \<times> nat \<times> int \<times> char) option" where
  "date_from_year synonyms buf =
    (let yearneg = (cget buf 0 = CHR ''-'') in
     if \<not> yearneg \<and> \<not> GDKisdigit (cget buf 0) then
       if \<not> synonyms then None else Some (True, 0, 0, CHR '' '')
     else
       let (pos, year) = digits_on YEAR_MAX buf (if yearneg then 1 else 0) 0;
           sep = cget buf pos; pos = pos + 1
       in if \<not> synonyms \<and> sep \<noteq> CHR ''-'' then None
          else
            let sep = LOWER sep
            in if CHR ''a'' \<le> sep \<and> sep \<le> CHR ''z'' then Some (False, pos, year, CHR 0x00)
               else if sep = CHR '' '' then Some (False, skip_blanks buf pos, year, sep)
               else if sep \<noteq> CHR ''-'' \<and> sep \<noteq> CHR ''/'' \<and> sep \<noteq> CHR 0x5C then None
               else Some (False, pos, year, sep))"

definition date_from_month :: "bool \<Rightarrow> string \<Rightarrow> nat \<Rightarrow> (nat \<times> int) option" where
  "date_from_month synonyms buf pos =
    (if GDKisdigit (cget buf pos) then
       let month = digit_val (cget buf pos)
       in if GDKisdigit (cget buf (pos + 1))
          then Some (pos + 2, digit_val (cget buf (pos + 1)) + month * 10)
          else Some (pos + 1, month)
     else if \<not> synonyms then None
     else let (j, month) = parse_substr (drop pos buf) 3 MONTHS in Some (pos + j, month))"

text \<open>A year that follows the day and a comma.\<close>

definition date_from_lastyear :: "string \<Rightarrow> nat \<Rightarrow> bool \<Rightarrow> int \<Rightarrow> nat \<times> bool \<times> int" where
  "date_from_lastyear buf pos yearneg year =
    (let pos = skip_blanks buf (pos + 1);
         (pos, yearneg) = (if cget buf pos = CHR ''-'' then (pos + 1, True) else (pos, yearneg));
         (pos, year) = digits_after YEAR_MAX buf pos year
     in (pos, yearneg, year))"

definition date_parse :: "bool \<Rightarrow> string \<Rightarrow> (nat \<times> int) option" where
  "date_parse synonyms buf = do {
     (yearlast, pos, year, sep) \<leftarrow> date_from_year synonyms buf;
     (pos, month) \<leftarrow> date_from_month synonyms buf pos;
     pos \<leftarrow> (if month = int_nil then None
             else if sep = CHR 0x00 then Some pos
             else if cget buf pos \<noteq> sep then None else Some (pos + 1));
     let pos = (if sep = CHR '' '' then skip_blanks buf pos else pos);
     pos \<leftarrow> (if GDKisdigit (cget buf pos) then Some pos else None);
     let (pos, day) = digits_after 31 buf pos 0;
     let yearneg = (cget buf 0 = CHR ''-'');
     let (pos, yearneg, year) =
       (if yearlast \<and> cget buf pos = CHR '','' then date_from_lastyear buf pos yearneg year
        else (pos, yearneg, year));
     Some (pos, todate day month (if yearneg then - year else year))
   }"

definition date_fromstr :: "bool \<Rightarrow> string \<Rightarrow> nat \<times> int" where
  "date_fromstr synonyms buf =
    (case date_parse synonyms buf of None \<Rightarrow> (0, date_nil) | Some r \<Rightarrow> r)"

definition date_tostr :: "int \<Rightarrow> string" where
  "date_tostr val =
    (let (day, month, year) = fromdate val
     in if val = date_nil \<or> \<not> DATE day month year then ''nil''
        else fmt_d year @ ''-'' @ fmt_0d 2 month @ ''-'' @ fmt_0d 2 day)"

subsection \<open>Times of day and timestamps\<close>

definition daytime_parse :: "bool \<Rightarrow> string \<Rightarrow> (nat \<times> int) option" where
  "daytime_parse synonyms buf =
    (if \<not> GDKisdigit (cget buf 0) then None
     else
       let (pos, hour) = digits_all 24 buf 0 0
       in if cget buf pos \<noteq> CHR '':'' \<or> \<not> GDKisdigit (cget buf (pos + 1)) then None
          else
            let (pos, mins) = digits_all 60 buf (pos + 1) 0;
                (pos, sec, msec) =
                  (if cget buf pos = CHR '':'' \<and> GDKisdigit (cget buf (pos + 1)) then
                     let (pos, sec) = digits_all 60 buf (pos + 1) 0
                     in if (cget buf pos = CHR ''.'' \<or> (synonyms \<and> cget buf pos = CHR '':''))
                           \<and> GDKisdigit (cget buf (pos + 1))
                        then let (pos, msec) = digits_msec buf (pos + 1) 100 0 in (pos, sec, msec)
                        else (pos, sec, 0)
                   else (pos, 0, 0))
            in Some (pos, totime hour mins sec msec))"

definition daytime_fromstr :: "bool \<Rightarrow> string \<Rightarrow> nat \<times> int" where
  "daytime_fromstr synonyms buf =
    (case daytime_parse synonyms buf of None \<Rightarrow> (0, daytime_nil) | Some r \<Rightarrow> r)"

definition daytime_tostr :: "int \<Rightarrow> string" where
  "daytime_tostr val =
    (let (hour, mins, sec, msec) = fromtime val
     in if val = daytime_nil \<or> \<not> TIME hour mins sec msec then ''nil''
        else fmt_0d 2 hour @ '':'' @ fmt_0d 2 mins @ '':'' @ fmt_0d 2 sec @ ''.'' @ fmt_0d 3 msec)"

text \<open>The zone that may follow a time, \<^verbatim>\<open>+hh:mm\<close> or \<^verbatim>\<open>+hhmm\<close>: its length and offset.\<close>

definition tz_suffix :: "string \<Rightarrow> (nat \<times> int) option" where
  "tz_suffix s =
    (if (cget s 0 = CHR ''-'' \<or> cget s 0 = CHR ''+'') \<and> GDKisdigit (cget s 1)
        \<and> GDKisdigit (cget s 2) \<and> GDKisdigit (cget s 4)
        \<and> ((cget s 3 = CHR '':'' \<and> GDKisdigit (cget s 5)) \<or> GDKisdigit (cget s 3))
     then
       let pos = (if cget s 3 = CHR '':'' \<and> GDKisdigit (cget s 5) then 4 else 3);
           offset = ((digit_val (cget s 1) * 10 + digit_val (cget s 2)) * 60
             + digit_val (cget s pos) * 10 + digit_val (cget s (pos + 1))) * 60000
       in Some (pos + 2, if cget s 0 \<noteq> CHR ''-'' then - offset else offset)
     else None)"

definition skip_gmt :: "string \<Rightarrow> string" where
  "skip_gmt s = (let s = dropWhile GDKisspace s in if fleximatch s ''gmt'' 0 = 3 then drop 3 s else s)"

definition daytime_tz_fromstr :: "bool \<Rightarrow> tzone \<Rightarrow> string \<Rightarrow> nat \<times> int" where
  "daytime_tz_fromstr synonyms tz_local buf =
    (let (pos, ret) = daytime_fromstr synonyms buf
     in if ret = daytime_nil then (pos, ret)
        else
          let s = skip_gmt (drop pos buf); mtime = 24 * 60 * 60 * 1000;
              (s, offset) = (case tz_suffix s of
                Some (n, off) \<Rightarrow> (drop n s, off)
              | None \<Rightarrow> (s, get_offset tz_local * (- 60000)));
              val = ret + offset;
              val = (if val < 0 then mtime + val else val);
              val = (if val \<ge> mtime then val - mtime else val)
          in (length buf - length s, i32 val))"

text \<open>The date and the time of a timestamp, before the zone: the position and the fields.\<close>

definition timestamp_fields :: "bool \<Rightarrow> string \<Rightarrow> nat \<times> timestamp" where
  "timestamp_fields synonyms buf =
    (let (pos, d) = date_fromstr synonyms buf; c = cget buf pos
     in if pos > 0 \<and> (c = CHR ''@'' \<or> c = CHR '' '' \<or> c = CHR ''-'' \<or> c = CHR ''T'') then
          let pos = skip_blanks buf (pos + 1); (n, t) = daytime_fromstr synonyms (drop pos buf)
          in (if n \<noteq> 0 then pos + n else 0, \<lparr>days = d, msecs = t\<rparr>)
        else (pos, \<lparr>days = d, msecs = (if c \<noteq> CHR 0x00 then daytime_nil else 0)\<rparr>))"

definition timestamp_fromstr :: "bool \<Rightarrow> tzone \<Rightarrow> string \<Rightarrow> (nat \<times> timestamp) option" where
  "timestamp_fromstr synonyms tz_local buf =
    (let (pos, ret) = timestamp_fields synonyms buf
     in if pos = 0 \<or> days ret = date_nil \<or> msecs ret = daytime_nil then Some (pos, timestamp_nil)
        else
          let s = skip_gmt (drop pos buf)
          in case tz_suffix s of
               Some (n, offset) \<Rightarrow>
                 Some (length buf - length (drop n s), MTIMEtimestamp_add ret offset)
             | None \<Rightarrow> do {
                 (tmp, inside) \<leftarrow> timestamp_inside ret tz_local (- 3600000);
                 Some (length buf - length s,
                   MTIMEtimestamp_add (if inside then tmp else ret) (get_offset tz_local * (- 60000)))
               })"

definition timestamp_tz_tostr :: "timestamp \<Rightarrow> tzone \<Rightarrow> string option" where
  "timestamp_tz_tostr val timezone = do {
     tmp \<leftarrow> (if \<not> ts_isnil val then timestamp_local val timezone else Some val);
     Some (if ts_isnil tmp then ''nil'' else date_tostr (days tmp) @ '' '' @ daytime_tostr (msecs tmp))
   }"

definition MTIMEdate_fromstr :: "bool \<Rightarrow> string \<Rightarrow> int" where
  "MTIMEdate_fromstr synonyms s = (if s = ''nil'' then date_nil else snd (date_fromstr synonyms s))"

definition MTIMEdaytime_fromstr :: "bool \<Rightarrow> string \<Rightarrow> string + int" where
  "MTIMEdaytime_fromstr synonyms s =
    (if s = ''nil'' then Inr daytime_nil
     else let (pos, d) = daytime_fromstr synonyms s
          in if pos = 0 then Inl ''syntax error'' else Inr d)"

definition MTIMEtimestamp_fromstr :: "bool \<Rightarrow> tzone \<Rightarrow> string \<Rightarrow> timestamp option" where
  "MTIMEtimestamp_fromstr synonyms tz_local d =
    (if d = ''nil'' then Some \<lparr>days = date_nil, msecs = daytime_nil\<rparr>
     else map_option snd (timestamp_fromstr synonyms tz_local d))"

subsection \<open>The digit loops meet their contract\<close>

interpretation on: digit_loop "digits_on limit" limit for limit
  by unfold_locales (simp_all add: digits_on.simps [of limit] Let_def)

interpretation after: digit_loop "digits_after limit" limit for limit
  by unfold_locales (simp_all add: digits_after.simps [of limit] Let_def)

interpretation all: digit_loop "digits_all limit" limit for limit
proof
  show "digits_all limit buf pos v = digits_all limit buf (pos + 1) (digit_val (cget buf pos) + v * 10)"
    if "0 < limit" "GDKisdigit (cget buf pos)" "0 \<le> v" "digit_val (cget buf pos) + v * 10 \<le> limit" for buf pos v
    using that limit_not_reached [OF that(1,3,2,4)] by (subst digits_all.simps) simp
qed (simp add: digits_all.simps)

interpretation before: digit_loop "digits_before limit" limit for limit
proof
  show "digits_before limit buf pos v = digits_before limit buf (pos + 1) (digit_val (cget buf pos) + v * 10)"
    if "0 < limit" "GDKisdigit (cget buf pos)" "0 \<le> v" "digit_val (cget buf pos) + v * 10 \<le> limit" for buf pos v
    using that limit_not_reached [OF that(1,3,2,4)] by (subst digits_before.simps) simp
qed (simp add: digits_before.simps)

subsection \<open>Reading back what was printed\<close>

lemma digit_not_special: "GDKisdigit c \<Longrightarrow> c \<noteq> CHR ''-'' \<and> c \<noteq> CHR ''+'' \<and> c \<noteq> CHR '':'' \<and> c \<noteq> CHR ''.'' \<and> c \<noteq> CHR '' ''"
  by (auto simp: GDKisdigit_def)

lemma digit_char_0 [simp]: "digit_char 0 = CHR ''0''"
  by code_simp

lemma dec_small:
  "n < 10 \<Longrightarrow> dec n = [digit_char n]"
  "10 \<le> n \<Longrightarrow> n < 100 \<Longrightarrow> dec n = [digit_char (n div 10), digit_char (n mod 10)]"
  "100 \<le> n \<Longrightarrow> n < 1000 \<Longrightarrow> dec n = [digit_char (n div 100), digit_char (n div 10 mod 10), digit_char (n mod 10)]"
proof -
  show one: "dec n = [digit_char n]" if "n < 10" for n using that by (simp add: dec.simps)
  show two: "dec n = [digit_char (n div 10), digit_char (n mod 10)]" if "10 \<le> n" "n < 100" for n
    using that one [of "n div 10"] by (subst dec.simps) simp
  show "dec n = [digit_char (n div 100), digit_char (n div 10 mod 10), digit_char (n mod 10)]" if "100 \<le> n" "n < 1000" for n
    using that two [of "n div 10"] by (subst dec.simps) (simp add: div_mult2_eq [symmetric])
qed

lemma fmt_0d_2:
  assumes "0 \<le> x" "x < 100"
  shows "fmt_0d 2 x = [digit_char (nat x div 10), digit_char (nat x mod 10)]"
proof (cases "nat x < 10")
  case True
  then show ?thesis using assms by (simp add: fmt_0d_def dec_small(1))
next
  case False
  then show ?thesis using assms by (simp add: fmt_0d_def dec_small(2))
qed

lemma fmt_0d_3:
  assumes "0 \<le> x" "x < 1000"
  shows "fmt_0d 3 x = [digit_char (nat x div 100), digit_char (nat x div 10 mod 10), digit_char (nat x mod 10)]"
proof -
  consider "nat x < 10" | "10 \<le> nat x" "nat x < 100" | "100 \<le> nat x" "nat x < 1000" using assms by linarith
  then show ?thesis
  proof cases
    case 1
    then show ?thesis using assms by (simp add: fmt_0d_def dec_small(1) numeral_2_eq_2)
  next
    case 2
    then show ?thesis using assms by (simp add: fmt_0d_def dec_small(2))
  next
    case 3
    then show ?thesis using assms by (simp add: fmt_0d_def dec_small(3))
  qed
qed

lemma cget_Cons: "cget (c # s) i = (if i = 0 then c else cget s (i - 1))"
  by (cases i) simp_all

lemma length_fmt_2 [simp]: "0 \<le> x \<Longrightarrow> x < 100 \<Longrightarrow> length (fmt_0d 2 x) = 2"
  by (simp add: fmt_0d_2)

lemma cget_digits_0: "all_digits ds \<Longrightarrow> ds \<noteq> [] \<Longrightarrow> GDKisdigit (cget (ds @ post) 0)"
  by (cases ds) auto

lemma date_from_year_text:
  assumes "y \<noteq> 0" "YEAR_MIN \<le> y" "y \<le> YEAR_MAX"
  shows "date_from_year syn (fmt_d y @ CHR ''-'' # post) = Some (False, length (fmt_d y) + 1, \<bar>y\<bar>, CHR ''-'')"
    and "cget (fmt_d y @ CHR ''-'' # post) 0 = CHR ''-'' \<longleftrightarrow> y < 0"
proof -
  let ?ds = "dec (nat \<bar>y\<bar>)" and ?pre = "if y < 0 then ''-'' else []"
  have eq: "fmt_d y = ?pre @ ?ds" by (simp add: fmt_d_def)
  have d: "all_digits ?ds" "?ds \<noteq> []" "digits_value 0 ?ds = \<bar>y\<bar>" using dec_digits by auto
  have nd: "\<not> GDKisdigit (CHR ''-'')" by (simp add: GDKisdigit_def)
  have "digits_on YEAR_MAX (fmt_d y @ CHR ''-'' # post) (length ?pre) 0 = (length ?pre + length ?ds, \<bar>y\<bar>)"
    using on.reads_at [of YEAR_MAX ?ds "CHR ''-'' # post" "fmt_d y @ CHR ''-'' # post" ?pre "length ?pre"] assms d nd
    by (auto simp: eq YEAR_MAX_def YEAR_MIN_def)
  moreover have "GDKisdigit (cget (?ds @ CHR ''-'' # post) 0)" by (rule cget_digits_0 [OF d(1,2)])
  ultimately show "date_from_year syn (fmt_d y @ CHR ''-'' # post) = Some (False, length (fmt_d y) + 1, \<bar>y\<bar>, CHR ''-'')"
      "cget (fmt_d y @ CHR ''-'' # post) 0 = CHR ''-'' \<longleftrightarrow> y < 0"
    using digit_not_special by (auto simp: date_from_year_def Let_def eq LOWER_def less_eq_char_def)
qed

lemma date_from_month_text:
  assumes "0 \<le> m" "m < 100" "buf = pre @ fmt_0d 2 m @ post" "pos = length pre"
  shows "date_from_month syn buf pos = Some (pos + 2, m)"
proof -
  have "nat m div 10 < 10" "nat m mod 10 < 10" using assms by auto
  then show ?thesis using assms
    by (simp add: date_from_month_def fmt_0d_2 GDKisdigit_digit_char digit_val_digit_char Let_def zdiv_int zmod_int)
qed

lemma date_parse_text:
  assumes "DATE d m y" "\<not> GDKisdigit (cget post 0)"
  shows "date_parse syn ((fmt_d y @ ''-'' @ fmt_0d 2 m @ ''-'' @ fmt_0d 2 d) @ post)
     = Some (length (fmt_d y @ ''-'' @ fmt_0d 2 m @ ''-'' @ fmt_0d 2 d), todate d m y)"
proof -
  let ?Y = "fmt_d y" and ?M = "fmt_0d 2 m" and ?D = "fmt_0d 2 d"
  have r: "y \<noteq> 0" "YEAR_MIN \<le> y" "y \<le> YEAR_MAX" "1 \<le> m" "m \<le> 12" "1 \<le> d" "d \<le> 31" "m \<noteq> int_nil"
    using assms(1) MONTHDAYS_bounds [of m y] by (auto simp: DATE_def)
  define buf where "buf = ?Y @ CHR ''-'' # ?M @ CHR ''-'' # ?D @ post"
  have y: "date_from_year syn buf = Some (False, length ?Y + 1, \<bar>y\<bar>, CHR ''-'')" "cget buf 0 = CHR ''-'' \<longleftrightarrow> y < 0"
    unfolding buf_def by (rule date_from_year_text [OF r(1-3)])+
  have m: "date_from_month syn buf (length ?Y + 1) = Some (length ?Y + 3, m)"
    using date_from_month_text [of m buf "?Y @ ''-''" "CHR ''-'' # ?D @ post" "length ?Y + 1"] r by (simp add: buf_def)
  have c: "cget buf (length ?Y + 3) = CHR ''-''" "GDKisdigit (cget buf (length ?Y + 4))"
    using r fmt_0d_digits [of d 2] cget_digits_0 [of ?D post] by (simp_all add: buf_def cget_Cons)
  have d: "digits_after 31 buf (length ?Y + 4) 0 = (length ?Y + 6, d)"
    using after.reads_at [of 31 ?D post buf "?Y @ CHR ''-'' # ?M @ ''-''" "length ?Y + 4"] r assms(2) fmt_0d_digits [of d 2]
    by (simp add: buf_def)
  have "date_parse syn buf = Some (length ?Y + 6, todate d m y)"
    using y m c d r by (simp add: date_parse_def Let_def eval_nat_numeral)
  moreover have "length (?Y @ ''-'' @ ?M @ ''-'' @ ?D) = length ?Y + 6" using r by simp
  ultimately show ?thesis by (simp add: buf_def)
qed

definition printable_date :: "int \<Rightarrow> bool" where
  "printable_date v \<longleftrightarrow> DATE_MIN \<le> v \<and> v \<le> DATE_MAX
     \<and> (case fromdate v of (d, m, y) \<Rightarrow> \<not> (y < 0 \<and> m = 2 \<and> d = 29))"

lemma date_text:
  assumes "printable_date v" "\<not> GDKisdigit (cget post 0)"
  shows "date_fromstr syn (date_tostr v @ post) = (length (date_tostr v), v)" "v \<noteq> date_nil" "length (date_tostr v) > 0"
proof -
  from assms(1) have r: "DATE_MIN \<le> v" "v \<le> DATE_MAX" by (simp_all add: printable_date_def)
  then obtain d m Y where f: "fromdate v = (d, m, unastro Y)" "valid_dmy d m Y" "daynum d m Y = v"
    "YEAR_MIN \<le> unastro Y" "unastro Y \<le> YEAR_MAX" by (rule fromdate_in_range)
  then have nl: "\<not> (Y \<le> 0 \<and> m = 2 \<and> d = 29)"
    using assms(1) by (simp add: printable_date_def unastro_neg_iff)
  have D: "DATE d m (unastro Y)" "todate d m (unastro Y) = v"
    using valid_dmy_DATE [OF f(2,4,5)] todate_unastro [OF f(2,4,5)] nl f(3) by auto
  show v: "v \<noteq> date_nil" using r by (auto simp: DATE_MIN_eq)
  have t: "date_tostr v = fmt_d (unastro Y) @ ''-'' @ fmt_0d 2 m @ ''-'' @ fmt_0d 2 d"
    using D v f(1) by (simp add: date_tostr_def)
  then show "length (date_tostr v) > 0" by simp
  show "date_fromstr syn (date_tostr v @ post) = (length (date_tostr v), v)"
    unfolding date_fromstr_def t using date_parse_text [OF D(1) assms(2), of syn] D(2) by simp
qed

lemma date_fromstr_nil: "date_fromstr syn ''nil'' = (0, date_nil)"
  by (cases syn) (simp only:, code_simp)+

text \<open>
  The text of a date is read back as that date, to its last character, whether or not
  synonyms are allowed; the leap days before year 1, which print as nil, are excluded.
\<close>

theorem date_text_roundtrip:
  assumes "printable_date v"
  shows "MTIMEdate_fromstr syn (date_tostr v) = v \<and> date_fromstr syn (date_tostr v) = (length (date_tostr v), v)"
  using date_text(1) [OF assms, of "[]" syn] date_text(2) [OF assms, of "[]"] date_fromstr_nil [of syn]
  by (auto simp: MTIMEdate_fromstr_def)

lemma fmt_0d_first: "0 \<le> x \<Longrightarrow> GDKisdigit (cget (fmt_0d w x @ p) 0)"
  by (rule cget_digits_0) (simp_all add: fmt_0d_digits)

theorem date_text_witness:
  "printable_date 730000 \<and> MTIMEdate_fromstr True ''1998-09-03'' = 730000"
proof -
  have h: "printable_date 730000" "date_tostr 730000 = ''1998-09-03''" by code_simp+
  show ?thesis using date_text_roundtrip [OF h(1), of True] h by simp
qed

lemma colon_not_digit [simp]: "\<not> GDKisdigit (CHR '':'')" "\<not> GDKisdigit (CHR ''.'')"
  by (simp_all add: GDKisdigit_def)

lemma three_digits: "n div 100 * 100 + n div 10 mod 10 * 10 + n mod 10 = (n::nat)"
proof -
  define q where "q = n div 10"
  define a b c where "a = q div 10" and "b = q mod 10" and "c = n mod 10"
  have "q * 10 + c = n" "a * 10 + b = q" by (simp_all add: q_def a_def b_def c_def)
  moreover have "n div 100 = a" by (simp add: a_def q_def div_mult2_eq [symmetric])
  ultimately have "n div 100 * 100 + b * 10 + c = n" by linarith
  then show ?thesis by (simp only: b_def c_def q_def)
qed

lemma digits_msec_step:
  "cget buf pos = digit_char n \<Longrightarrow> n < 10 \<Longrightarrow>
   digits_msec buf pos fac ms = digits_msec buf (pos + 1) (fac sdiv 10) (ms + int n * fac)"
  by (subst digits_msec.simps) (simp add: GDKisdigit_digit_char digit_val_digit_char)

lemma digits_msec_3:
  assumes "0 \<le> x" "x < 1000" "\<not> GDKisdigit (cget post 0)" "buf = pre @ fmt_0d 3 x @ post" "pos = length pre"
  shows "digits_msec buf pos 100 0 = (pos + 3, x)"
proof -
  define a b c where "a = nat x div 100" and "b = nat x div 10 mod 10" and "c = nat x mod 10"
  have lt: "a < 10" "b < 10" "c < 10" using assms(2) by (auto simp: a_def b_def c_def)
  have t: "fmt_0d 3 x = [digit_char a, digit_char b, digit_char c]"
    using fmt_0d_3 [OF assms(1,2)] by (simp only: a_def b_def c_def)
  have at: "cget buf pos = digit_char a" "cget buf (pos + 1) = digit_char b"
    "cget buf (pos + 1 + 1) = digit_char c" "\<not> GDKisdigit (cget buf (pos + 1 + 1 + 1))"
    using assms(3-5) by (simp_all add: t cget_Cons)
  have fac: "100 sdiv 10 = (10::int)" "10 sdiv 10 = (1::int)" by code_simp+
  have "digits_msec buf pos 100 0 = (pos + 1 + 1 + 1, int a * 100 + int b * 10 + int c)"
    using at(4) lt
    by (simp only: digits_msec_step [OF at(1)] digits_msec_step [OF at(2)] digits_msec_step [OF at(3)] fac)
       (simp add: digits_msec.simps)
  moreover have "a * 100 + b * 10 + c = nat x" unfolding a_def b_def c_def by (rule three_digits)
  ultimately show ?thesis using assms(1) by simp
qed

lemma digits_all_2:
  assumes "buf = pre @ fmt_0d 2 x @ post" "pos = length pre" "0 \<le> x" "x \<le> limit" "0 < limit" "x < 100"
    "\<not> GDKisdigit (cget post 0)"
  shows "digits_all limit buf pos 0 = (pos + 2, x)"
  using all.reads_at [OF assms(5) fmt_0d_digits(1) [OF assms(3)] assms(7) _ assms(1,2)]
    fmt_0d_digits(3) [OF assms(3), of 2] assms(3,4,6) by simp

lemma daytime_parse_text:
  assumes "TIME h m s ms" "\<not> GDKisdigit (cget post 0)"
  shows "daytime_parse syn ((fmt_0d 2 h @ '':'' @ fmt_0d 2 m @ '':'' @ fmt_0d 2 s @ ''.'' @ fmt_0d 3 ms) @ post)
    = Some (12, totime h m s ms)"
proof -
  let ?H = "fmt_0d 2 h" and ?M = "fmt_0d 2 m" and ?S = "fmt_0d 2 s" and ?X = "fmt_0d 3 ms"
  define buf where "buf = ?H @ CHR '':'' # ?M @ CHR '':'' # ?S @ CHR ''.'' # ?X @ post"
  have r: "0 \<le> h" "h < 24" "0 \<le> m" "m < 60" "0 \<le> s" "s < 60" "0 \<le> ms" "ms < 1000"
    using assms(1) by (auto simp: TIME_def)
  have l [simp]: "length ?H = 2" "length ?M = 2" "length ?S = 2" using r by simp_all
  have dig: "GDKisdigit (cget (?H @ p) 0)" "GDKisdigit (cget (?M @ p) 0)" "GDKisdigit (cget (?S @ p) 0)" "GDKisdigit (cget (?X @ p) 0)" for p
    using r by (auto simp only: fmt_0d_first)
  have h: "digits_all 24 buf 0 0 = (0 + 2, h)"
    by (rule digits_all_2 [of _ "[]" _ "CHR '':'' # ?M @ CHR '':'' # ?S @ CHR ''.'' # ?X @ post"])
       (use r in \<open>simp_all add: buf_def\<close>)
  have m: "digits_all 60 buf 3 0 = (3 + 2, m)"
    by (rule digits_all_2 [of _ "?H @ '':''" _ "CHR '':'' # ?S @ CHR ''.'' # ?X @ post"])
       (use r in \<open>simp_all add: buf_def\<close>)
  have s: "digits_all 60 buf 6 0 = (6 + 2, s)"
    by (rule digits_all_2 [of _ "?H @ CHR '':'' # ?M @ '':''" _ "CHR ''.'' # ?X @ post"])
       (use r in \<open>simp_all add: buf_def\<close>)
  have x: "digits_msec buf 9 100 0 = (9 + 3, ms)"
    by (rule digits_msec_3 [of _ post _ "?H @ CHR '':'' # ?M @ CHR '':'' # ?S @ ''.''"])
       (use r assms(2) in \<open>simp_all add: buf_def\<close>)
  have c: "cget buf 2 = CHR '':''" "GDKisdigit (cget buf 3)" "cget buf 5 = CHR '':''" "GDKisdigit (cget buf 6)"
    "cget buf 8 = CHR ''.''" "GDKisdigit (cget buf 9)" "GDKisdigit (cget buf 0)"
    using dig(1) [of "CHR '':'' # ?M @ CHR '':'' # ?S @ CHR ''.'' # ?X @ post"] dig(2) [of "CHR '':'' # ?S @ CHR ''.'' # ?X @ post"]
      dig(3) [of "CHR ''.'' # ?X @ post"] dig(4) [of post]
    by (simp_all add: buf_def cget_Cons)
  have "daytime_parse syn buf = Some (12, totime h m s ms)"
    using m s x c h [unfolded add_0] by (simp add: daytime_parse_def Let_def)
  then show ?thesis by (simp add: buf_def)
qed

lemma daytime_text:
  assumes "0 \<le> t" "t < DAY_MSECS" "\<not> GDKisdigit (cget post 0)"
  shows "daytime_fromstr syn (daytime_tostr t @ post) = (12, t)" "length (daytime_tostr t) = 12"
    "GDKisdigit (cget (daytime_tostr t @ post) 0)"
proof -
  obtain h m s x where f: "fromtime t = (h, m, s, x)" by (metis prod_cases4)
  with assms(1,2) fromtime_TIME [of t h m s x] have T: "TIME h m s x" "((h * 60 + m) * 60 + s) * 1000 + x = t" by auto
  have t: "daytime_tostr t = fmt_0d 2 h @ '':'' @ fmt_0d 2 m @ '':'' @ fmt_0d 2 s @ ''.'' @ fmt_0d 3 x"
    using T(1) f nonneg_not_nil [OF assms(1)] by (simp add: daytime_tostr_def)
  show "daytime_fromstr syn (daytime_tostr t @ post) = (12, t)"
    unfolding daytime_fromstr_def t daytime_parse_text [OF T(1) assms(3)] using T by (simp add: totime_def)
  show "length (daytime_tostr t) = 12" using T(1) by (simp add: t TIME_def fmt_0d_3)
  show "GDKisdigit (cget (daytime_tostr t @ post) 0)"
    using T(1) fmt_0d_first [of h 2] by (simp add: t TIME_def)
qed

text \<open>
  The text of a time of day is read back as that time of day.
\<close>

theorem daytime_text_roundtrip:
  assumes "0 \<le> t" "t < DAY_MSECS"
  shows "MTIMEdaytime_fromstr syn (daytime_tostr t) = Inr t"
  using daytime_text(1) [OF assms, of "[]" syn] daytime_text(2) [OF assms, of "[]"] by (auto simp: MTIMEdaytime_fromstr_def)

theorem daytime_text_witness: "MTIMEdaytime_fromstr False ''23:59:59.999'' = Inr 86399999"
proof -
  have h: "daytime_tostr 86399999 = ''23:59:59.999''" by code_simp
  show ?thesis using daytime_text_roundtrip [of 86399999 False] h by simp
qed

lemma skip_blanks_id: "cget buf pos \<noteq> CHR '' '' \<Longrightarrow> skip_blanks buf pos = pos"
  by (simp add: skip_blanks.simps)

lemma timestamp_fields_text:
  assumes "printable_date d" "0 \<le> t" "t < DAY_MSECS"
  shows "timestamp_fields syn (date_tostr d @ '' '' @ daytime_tostr t)
     = (length (date_tostr d @ '' '' @ daytime_tostr t), \<lparr>days = d, msecs = t\<rparr>)"
proof -
  let ?D = "date_tostr d" and ?T = "daytime_tostr t"
  define buf where "buf = ?D @ CHR '' '' # ?T"
  note T = daytime_text [OF assms(2,3), of "[]"]
  have D: "date_fromstr syn buf = (length ?D, d)" "length ?D > 0"
    using date_text(1) [OF assms(1), of "CHR '' '' # ?T" syn] date_text(3) [OF assms(1), of "[]"] by (simp_all add: buf_def GDKisdigit_def)
  have c: "cget buf (length ?D) = CHR '' ''" "drop (Suc (length ?D)) buf = ?T" by (simp_all add: buf_def)
  have "cget buf (Suc (length ?D)) \<noteq> CHR '' ''"
    using T(3) digit_not_special by (auto simp: buf_def cget_Cons)
  then have "skip_blanks buf (Suc (length ?D)) = Suc (length ?D)" by (rule skip_blanks_id)
  then have "timestamp_fields syn buf = (length ?D + 13, \<lparr>days = d, msecs = t\<rparr>)"
    using D c T(1) [of syn] by (simp add: timestamp_fields_def Let_def)
  then show ?thesis using T(2) by (simp add: buf_def)
qed

text \<open>
  C24.  With a local zone without daylight saving, a timestamp printed in local time is read
  back as the same point in time, consuming the whole text, provided the local time is inside the
  supported range and its date is not a 29th of February before year 1, which the scanner refuses.
  The distance of the zone from GMT is less than a day, as for every zone that can be created.
\<close>

theorem timestamp_text_roundtrip:
  assumes "tz_dst z = 0" "\<not> tz_isnil z" "\<bar>get_offset z\<bar> < 1440" "ts_valid v"
    "timestamp_local v z = Some l" "printable_date (days l)" "\<not> ts_isnil l"
  shows "\<exists>s. timestamp_tz_tostr v z = Some s \<and> timestamp_fromstr syn z s = Some (length s, v)"
proof -
  define k where "k = get_offset z * 60000"
  have l: "l = in_timestamps (ts_msecs v + k)"
    using assms(1,3,5) ts_add_exact [OF assms(4), of k] 
    by (auto simp: timestamp_local_def timestamp_inside_def Let_def k_def)
  then have lv: "ts_valid l" "ts_msecs l = ts_msecs v + k" using assms(7) in_timestamps_valid by auto
  let ?s = "date_tostr (days l) @ '' '' @ daytime_tostr (msecs l)"
  have s: "timestamp_tz_tostr v z = Some ?s"
    using assms(5,7) ts_valid_not_nil [OF assms(4)] by (simp add: timestamp_tz_tostr_def)
  have r: "0 \<le> msecs l" "msecs l < DAY_MSECS" "days l \<noteq> int_nil" "msecs l \<noteq> int_nil" using lv(1) nonneg_not_nil by (auto simp: ts_valid_def DATE_MIN_eq)
  have f: "timestamp_fields syn ?s = (length ?s, l)"
    using timestamp_fields_text [OF assms(6) r(1,2)] by simp
  have ret: "MTIMEtimestamp_add l (- k) = v"
    using ts_add_exact [OF lv(1), of "- k"] lv(2) assms(3,4) in_timestamps_eq [of "ts_msecs v" "days v" "msecs v"]
    by (auto simp: k_def ts_msecs_def ts_valid_def)
  have sg: "skip_gmt [] = []" "tz_suffix [] = None" by code_simp+
  have "timestamp_fromstr syn z ?s = Some (length ?s, v)"
    using f r ret sg assms(1) by (simp add: timestamp_fromstr_def Let_def timestamp_inside_def k_def)
  with s show ?thesis by blast
qed

theorem timestamp_text_witness:
  "let z = tzone_create 60; v = \<lparr>days = 730000, msecs = 82800000\<rparr> in
   tz_dst z = 0 \<and> ts_valid v \<and> timestamp_fromstr True z ''1998-09-04 00:00:00.000'' = Some (23, v)"
proof -
  let ?z = "tzone_create 60" and ?v = "\<lparr>days = 730000, msecs = 82800000\<rparr>" and ?l = "\<lparr>days = 730001, msecs = 0\<rparr>"
  have h: "tz_dst ?z = 0" "\<not> tz_isnil ?z" "\<bar>get_offset ?z\<bar> < 1440" "ts_valid ?v"
    "timestamp_local ?v ?z = Some ?l" "printable_date (days ?l)" "\<not> ts_isnil ?l" by code_simp+
  have s: "timestamp_tz_tostr ?v ?z = Some ''1998-09-04 00:00:00.000''" by code_simp
  show ?thesis using timestamp_text_roundtrip [OF h, of True] s h by (auto simp: Let_def)
qed

text \<open>
  A nil timestamp prints as nil, but the text nil is read as a timestamp whose time of
  day is also nil, and that value does not count as nil.
\<close>

theorem timestamp_nil_text:
  "timestamp_tz_tostr timestamp_nil z = Some ''nil''
   \<and> (\<exists>t. MTIMEtimestamp_fromstr syn z ''nil'' = Some t \<and> \<not> ts_isnil t)"
  by (simp add: timestamp_tz_tostr_def MTIMEtimestamp_fromstr_def ts_isnil_def timestamp_nil_def)

text \<open>
  A time of day followed by a zone is shifted to GMT around midnight, staying a valid
  time of day, as long as the zone's distance is at most a day.  The distance is not
  checked: with 99 hours the stored time is negative.
\<close>

theorem daytime_tz_shift:
  assumes "daytime_fromstr syn buf = (pos, t)" "0 \<le> t" "t < DAY_MSECS"
    and "off = (case tz_suffix (skip_gmt (drop pos buf)) of Some (n, f) \<Rightarrow> f | None \<Rightarrow> get_offset z * (- 60000))"
  shows "(\<bar>off\<bar> \<le> DAY_MSECS \<longrightarrow> snd (daytime_tz_fromstr syn z buf) = (t + off) mod DAY_MSECS)
    \<and> snd (daytime_tz_fromstr True z ''00:00+99:00'') = - 270000000"
proof (intro conjI impI)
  have two: "(if t + off < 0 then DAY_MSECS + (t + off) else if t + off \<ge> DAY_MSECS then t + off - DAY_MSECS else t + off)
      = (t + off) mod DAY_MSECS" if "\<bar>off\<bar> \<le> DAY_MSECS"
  proof -
    have "(t + off + DAY_MSECS) mod DAY_MSECS = (t + off) mod DAY_MSECS" "(t + off - DAY_MSECS) mod DAY_MSECS = (t + off) mod DAY_MSECS"
      by simp_all
    then show ?thesis using that assms(2,3) mod_pos_pos_trivial [of "t + off + DAY_MSECS" DAY_MSECS]
      mod_pos_pos_trivial [of "t + off - DAY_MSECS" DAY_MSECS] mod_pos_pos_trivial [of "t + off" DAY_MSECS] by auto
  qed
  assume off: "\<bar>off\<bar> \<le> DAY_MSECS"
  have "0 \<le> (t + off) mod DAY_MSECS" "(t + off) mod DAY_MSECS < DAY_MSECS" by simp_all
  with two [OF off] show "snd (daytime_tz_fromstr syn z buf) = (t + off) mod DAY_MSECS"
    using assms off nonneg_not_nil [OF assms(2)]
    by (auto simp: daytime_tz_fromstr_def Let_def cint split: option.splits)
next
  show "snd (daytime_tz_fromstr True z ''00:00+99:00'') = - 270000000"
  proof -
    have "daytime_fromstr True ''00:00+99:00'' = (5, 0)" "tz_suffix (skip_gmt (drop 5 ''00:00+99:00'')) = Some (6, - 356400000)"
      by code_simp+
    then show ?thesis by (simp add: daytime_tz_fromstr_def Let_def cint)
  qed
qed

theorem daytime_tz_shift_witness:
  "snd (daytime_tz_fromstr True (tzone_create 0) ''01:00+02:00'') = 82800000"
proof -
  have h: "daytime_fromstr True ''01:00+02:00'' = (5, 3600000)"
    "tz_suffix (skip_gmt (drop 5 ''01:00+02:00'')) = Some (6, - 7200000)" by code_simp+
  show ?thesis using daytime_tz_shift [OF h(1), of "- 7200000" "tzone_create 0"] h(2) by simp
qed

end
