(* ===== verification/Mtime_RuleText.thy ===== *)
theory Mtime_RuleText
  imports Mtime_Text
begin

text \<open>
  Text form of daylight saving rules and time zones, the older date formats, and the
  conversions from and to seconds since 1970 (\<^verbatim>\<open>mtime.c\<close>).
\<close>

subsection \<open>Rules\<close>

abbreviation str_nil :: string where "str_nil \<equiv> [CHR 0x80]"

text \<open>The tables of names with the entry 0 that \<^verbatim>\<open>date_prelude\<close> stores.\<close>

definition name_at :: "string list \<Rightarrow> int \<Rightarrow> string" where
  "name_at ws i = (if i = 0 then str_nil else ws ! nat (i - 1))"

definition count1 :: "int \<Rightarrow> string" where
  "count1 i = (if i \<le> 0 then ''(illegal number)'' else if i < 6 then name_at COUNT1 i
     else fmt_d i @ ''th'')"

definition rule_tostr :: "rule \<Rightarrow> string" where
  "rule_tostr r =
    (let hours = r_minutes r sdiv 60; mins = r_minutes r smod 60;
         at = ''@'' @ fmt_0d 2 hours @ '':'' @ fmt_0d 2 mins
     in if rule_isnil r then ''nil''
        else if r_weekday r = WEEKDAY_ZERO then
          name_at MONTHS (r_month r) @ '' '' @ fmt_d (r_day r - DAY_ZERO) @ at
        else if r_weekday r > WEEKDAY_ZERO \<and> r_day r > DAY_ZERO then
          count1 (r_day r - DAY_ZERO) @ '' '' @ name_at DAYS (r_weekday r - WEEKDAY_ZERO)
            @ '' from start of '' @ name_at MONTHS (r_month r) @ at
        else if r_weekday r > WEEKDAY_ZERO \<and> r_day r < DAY_ZERO then
          count1 (DAY_ZERO - r_day r) @ '' '' @ name_at DAYS (r_weekday r - WEEKDAY_ZERO)
            @ '' from end of '' @ name_at MONTHS (r_month r) @ at
        else if r_day r > DAY_ZERO then
          ''first '' @ name_at DAYS (WEEKDAY_ZERO - r_weekday r) @ '' on or after ''
            @ name_at MONTHS (r_month r) @ '' '' @ fmt_d (r_day r - DAY_ZERO) @ at
        else
          ''last '' @ name_at DAYS (WEEKDAY_ZERO - r_weekday r) @ '' on or before ''
            @ name_at MONTHS (r_month r) @ '' '' @ fmt_d (DAY_ZERO - r_day r) @ at)"

text \<open>
  The words before the month and day of a rule: the day or nil when it is still to be
  read, the month, the weekday, the signs of day and weekday, and the rest of the text.
\<close>

definition rule_from_words :: "string \<Rightarrow> (int \<times> int \<times> int \<times> bool \<times> bool \<times> string) option" where
  "rule_from_words buf =
    (let (pos, day) = parse_substr buf 0 COUNT1;
         (pos, day) = (if pos = 0 then parse_substr buf 0 COUNT2 else (pos, day))
     in if pos \<noteq> 0 \<and> cget buf pos = CHR '' '' then
          let cur = drop (pos + 1) buf; (j, weekday) = parse_substr cur 3 DAYS; cur = drop j cur
          in if weekday = int_nil then None
             else
               let start = fleximatch cur '' from start of '' 0;
                   pos = (if start = 0 then fleximatch cur '' from end of '' 0 else start);
                   neg_day = (start = 0 \<and> pos \<noteq> 0)
               in if pos \<noteq> 0 \<and> day < 6 then
                    let cur = drop pos cur; (pos, month) = parse_substr cur 3 MONTHS
                    in if pos = 0 then None
                       else Some (day, month, weekday, neg_day, False, drop pos cur)
                  else if day = 1 then
                    let pos = fleximatch cur '' on or after '' 0
                    in if pos = 0 then None
                       else Some (int_nil, 0, weekday, neg_day, True, drop pos cur)
                  else if day = 6 then
                    let pos = fleximatch cur '' on or before '' 0
                    in if pos = 0 then None
                       else Some (int_nil, 0, weekday, True, True, drop pos cur)
                  else if pos = 0 then None
                  else Some (day, 0, weekday, neg_day, False, drop pos cur)
        else Some (day, 0, 0, False, False, buf))"

definition rule_from_day :: "int \<Rightarrow> int \<Rightarrow> string \<Rightarrow> (int \<times> int \<times> string) option" where
  "rule_from_day day month cur =
    (if day = int_nil then
       let (j, month) = parse_substr cur 3 MONTHS; cur = drop j cur
       in if month = int_nil \<or> cget cur 0 \<noteq> CHR '' '' \<or> \<not> GDKisdigit (cget cur 1) then None
          else let (n, day) = digits_before 31 cur 1 0 in Some (day, month, drop n cur)
     else Some (day, month, cur))"

definition rule_from_time :: "string \<Rightarrow> (int \<times> int \<times> string) option" where
  "rule_from_time cur =
    (if cget cur 0 \<noteq> CHR ''@'' \<or> \<not> GDKisdigit (cget cur 1) then None
     else
       let (n, hours) = digits_before 24 cur 1 0
       in if cget cur n \<noteq> CHR '':'' \<or> \<not> GDKisdigit (cget cur (n + 1)) then None
          else let (k, mins) = digits_before 60 cur (n + 1) 0 in Some (hours, mins, drop k cur))"

definition rule_parse :: "string \<Rightarrow> (nat \<times> rule) option" where
  "rule_parse buf = do {
     (day, month, weekday, neg_day, neg_weekday, cur) \<leftarrow> rule_from_words buf;
     (day, month, cur) \<leftarrow> rule_from_day day month cur;
     (hours, mins, cur) \<leftarrow> rule_from_time cur;
     Some (length buf - length cur,
       if day \<ge> 1 \<and> day \<le> NODAYS ! nat month \<and> hours \<ge> 0 \<and> hours < 60 \<and> mins \<ge> 0 \<and> mins < 60
       then rule_set rule_nil month (DAY_ZERO + (if neg_day then - day else day))
              (WEEKDAY_ZERO + (if neg_weekday then - weekday else weekday)) (hours * 60 + mins)
       else rule_nil)
   }"

definition rule_fromstr :: "string \<Rightarrow> nat \<times> rule" where
  "rule_fromstr buf = (case rule_parse buf of None \<Rightarrow> (0, rule_nil) | Some r \<Rightarrow> r)"

definition MTIMErule_fromstr :: "string \<Rightarrow> rule" where
  "MTIMErule_fromstr s = (if s = ''nil'' then rule_nil else snd (rule_fromstr s))"

subsection \<open>Zones\<close>

definition rule_zero :: rule where
  "rule_zero = \<lparr>r_month = 0, r_minutes = 0, r_day = 0, r_weekday = 0, r_empty = 0\<rparr>"

text \<open>The offset after \<^verbatim>\<open>GMT\<close>: its sign, hours, minutes and the rest of the text.\<close>

definition tzone_from_offset :: "string \<Rightarrow> (bool \<times> int \<times> int \<times> string) option" where
  "tzone_from_offset cur =
    (if cget cur 0 = CHR ''-'' \<or> cget cur 0 = CHR ''+'' then
       if \<not> GDKisdigit (cget cur 1) then None
       else
         let neg_offset = (cget cur 0 = CHR ''-''); (n, hours) = digits_before 9999 cur 1 0
         in if cget cur n = CHR '':'' \<and> GDKisdigit (cget cur (n + 1)) then
              let (k, mins) = digits_before 60 cur (n + 2) (digit_val (cget cur (n + 1)))
              in Some (neg_offset, hours, mins, drop k cur)
            else if cget cur n \<noteq> CHR '':'' \<and> n - 1 = 4 then
              Some (neg_offset, hours sdiv 100, hours smod 100, drop n cur)
            else None
     else Some (False, 0, 0, cur))"

definition tzone_from_dst :: "string \<Rightarrow> ((rule \<times> rule) option \<times> string) option" where
  "tzone_from_dst cur =
    (if fleximatch cur ''-dst['' 0 \<noteq> 0 then
       let cur = drop 5 cur; (pos, r1) = rule_fromstr cur
       in if pos = 0 \<or> cget cur pos \<noteq> CHR '','' then None
          else
            let cur = drop (pos + 1) cur; (pos, r2) = rule_fromstr cur
            in if pos = 0 \<or> cget cur pos \<noteq> CHR '']'' then None
               else Some (Some (r1, r2), drop (pos + 1) cur)
     else Some (None, cur))"

definition tzone_parse :: "string \<Rightarrow> (nat \<times> tzone) option" where
  "tzone_parse buf = do {
     cur \<leftarrow> (if fleximatch buf ''gmt'' 0 = 0 then None else Some (drop 3 buf));
     (neg_offset, hours, mins, cur) \<leftarrow> tzone_from_offset cur;
     (dst, cur) \<leftarrow> tzone_from_dst cur;
     let (r1, r2) = (case dst of None \<Rightarrow> (rule_zero, rule_zero) | Some rs \<Rightarrow> rs);
     Some (length buf - length cur,
       if hours < 24 \<and> mins < 60 \<and> \<not> rule_isnil r1 \<and> \<not> rule_isnil r2 then
         let mins = mins + hours * 60;
             z = set_offset tzone_nil (if neg_offset then - mins else mins)
         in if dst \<noteq> None
            then z\<lparr>tz_dst := 1, tz_dst_start := take_bit 25 (get_rule r1),
                   tz_dst_end := take_bit 25 (get_rule r2)\<rparr>
            else z\<lparr>tz_dst := 0\<rparr>
       else tzone_nil)
   }"

definition tzone_fromstr :: "string \<Rightarrow> nat \<times> tzone" where
  "tzone_fromstr buf = (case tzone_parse buf of None \<Rightarrow> (0, tzone_nil) | Some r \<Rightarrow> r)"

definition tzone_tostr :: "tzone \<Rightarrow> string" where
  "tzone_tostr z =
    (if tz_isnil z then ''nil''
     else
       let mins = get_offset z
       in ''GMT'' @
          (if mins > 0 then ''+'' @ fmt_0d 2 (mins sdiv 60) @ '':'' @ fmt_0d 2 (mins smod 60)
           else if mins < 0 then ''-'' @ fmt_0d 2 (- mins sdiv 60) @ '':'' @ fmt_0d 2 (- mins smod 60)
           else []) @
          (if tz_dst z \<noteq> 0
           then ''-DST['' @ rule_tostr (set_rule (tz_dst_start z)) @ '','' @ rule_tostr (set_rule (tz_dst_end z)) @ '']''
           else []))"

definition MTIMEtzone_fromstr :: "string \<Rightarrow> string + tzone" where
  "MTIMEtzone_fromstr s =
    (if s = ''nil'' then Inr tzone_nil
     else let (pos, d) = tzone_fromstr s in if pos = 0 then Inl ''syntax error'' else Inr d)"

subsection \<open>Seconds since 1970\<close>

definition MTIMEunix_epoch :: "string + timestamp option" where
  "MTIMEunix_epoch =
    (let d0 = todate 1 1 1970; d1 = daytime_create 0 0 0 0
     in case MTIMEtzone_fromstr ''GMT'' of Inl e \<Rightarrow> Inl e | Inr d2 \<Rightarrow> Inr (timestamp_create d0 d1 d2))"

definition MTIMEtimestamp :: "int \<Rightarrow> string + timestamp option" where
  "MTIMEtimestamp sec =
    (if sec = int_nil then Inr (Some timestamp_nil)
     else case MTIMEunix_epoch of Inl e \<Rightarrow> Inl e
       | Inr t \<Rightarrow> Inr (map_option (\<lambda>t. MTIMEtimestamp_add t (sec * 1000)) t))"

definition MTIMEtimestamp_lng :: "int \<Rightarrow> string + timestamp option" where
  "MTIMEtimestamp_lng msec =
    (case MTIMEunix_epoch of Inl e \<Rightarrow> Inl e
       | Inr t \<Rightarrow> Inr (map_option (\<lambda>t. MTIMEtimestamp_add t msec) t))"

definition MTIMEepoch2int :: "timestamp \<Rightarrow> string + int option" where
  "MTIMEepoch2int t =
    (case MTIMEunix_epoch of Inl err \<Rightarrow> Inl err
       | Inr e \<Rightarrow> Inr (map_option (\<lambda>e. let v = MTIMEtimestamp_diff t e
           in if v = lng_nil then int_nil else i32 (v sdiv 1000)) e))"

subsection \<open>Matching names\<close>

definition plain :: "string \<Rightarrow> bool" where
  "plain p \<longleftrightarrow> list_all (\<lambda>c. LOWER c = c) p"

lemma fleximatch_loop_self: "plain p \<Longrightarrow> fleximatch_loop (p @ rest) p spacy hit mins = (hit + length p, mins)"
  by (induction p arbitrary: spacy hit) (simp_all add: plain_def)

lemma fleximatch_self: "plain p \<Longrightarrow> p \<noteq> [] \<Longrightarrow> k \<le> length p \<Longrightarrow> fleximatch (p @ rest) p k = length p"
  by (simp add: fleximatch_def fleximatch_loop_self)

lemma LOWER_plain [simp]:
  "LOWER (CHR ''a'') = CHR ''a''" "LOWER (CHR ''b'') = CHR ''b''" "LOWER (CHR ''c'') = CHR ''c''"
  "LOWER (CHR ''d'') = CHR ''d''" "LOWER (CHR ''e'') = CHR ''e''" "LOWER (CHR ''f'') = CHR ''f''"
  "LOWER (CHR ''g'') = CHR ''g''" "LOWER (CHR ''h'') = CHR ''h''" "LOWER (CHR ''i'') = CHR ''i''"
  "LOWER (CHR ''j'') = CHR ''j''" "LOWER (CHR ''l'') = CHR ''l''" "LOWER (CHR ''m'') = CHR ''m''"
  "LOWER (CHR ''n'') = CHR ''n''" "LOWER (CHR ''o'') = CHR ''o''" "LOWER (CHR ''p'') = CHR ''p''"
  "LOWER (CHR ''r'') = CHR ''r''" "LOWER (CHR ''s'') = CHR ''s''" "LOWER (CHR ''t'') = CHR ''t''"
  "LOWER (CHR ''u'') = CHR ''u''" "LOWER (CHR ''v'') = CHR ''v''" "LOWER (CHR ''w'') = CHR ''w''"
  "LOWER (CHR ''y'') = CHR ''y''" "LOWER (CHR '' '') = CHR '' ''" "LOWER (CHR ''@'') = CHR ''@''"
  by code_simp+

lemmas match_simps = parse_substr_def Let_def fleximatch_def

lemma parse_month:
  assumes "1 \<le> m" "m \<le> 12"
  shows "parse_substr (name_at MONTHS m @ rest) 3 MONTHS = (length (name_at MONTHS m), m)"
    "parse_substr (name_at MONTHS m @ rest) 0 COUNT1 = (0, int_nil)"
    "parse_substr (name_at MONTHS m @ rest) 0 COUNT2 = (0, int_nil)"
proof -
  have c: "m = 1 \<or> m = 2 \<or> m = 3 \<or> m = 4 \<or> m = 5 \<or> m = 6 \<or> m = 7 \<or> m = 8 \<or> m = 9 \<or> m = 10
      \<or> m = 11 \<or> m = 12"
    using month_cases [OF assms] by simp
  show "parse_substr (name_at MONTHS m @ rest) 3 MONTHS = (length (name_at MONTHS m), m)"
    using c by (elim disjE; simp add: name_at_def MONTHS_def match_simps GDKisspace_def)
  show "parse_substr (name_at MONTHS m @ rest) 0 COUNT1 = (0, int_nil)"
    "parse_substr (name_at MONTHS m @ rest) 0 COUNT2 = (0, int_nil)"
    using c by (elim disjE; simp add: name_at_def MONTHS_def COUNT1_def COUNT2_def match_simps GDKisspace_def)+
qed

lemma parse_day:
  assumes "1 \<le> w" "w \<le> 7"
  shows "parse_substr (name_at DAYS w @ rest) 3 DAYS = (length (name_at DAYS w), w)"
proof -
  have "w = 1 \<or> w = 2 \<or> w = 3 \<or> w = 4 \<or> w = 5 \<or> w = 6 \<or> w = 7" using assms by linarith
  then show ?thesis
    by (elim disjE; simp add: name_at_def DAYS_def match_simps GDKisspace_def)
qed

lemma parse_count:
  assumes "1 \<le> c" "c \<le> 6"
  shows "parse_substr (name_at COUNT1 c @ rest) 0 COUNT1 = (length (name_at COUNT1 c), c)"
proof -
  have "c = 1 \<or> c = 2 \<or> c = 3 \<or> c = 4 \<or> c = 5 \<or> c = 6" using assms by linarith
  then show ?thesis
    by (elim disjE; simp add: name_at_def COUNT1_def match_simps GDKisspace_def)
qed

lemma from_words:
  "fleximatch ('' from start of '' @ rest) '' from start of '' 0 = 15"
  "fleximatch ('' from end of '' @ rest) '' from start of '' 0 = 0"
  "fleximatch ('' from end of '' @ rest) '' from end of '' 0 = 13"
  "fleximatch ('' on or after '' @ rest) '' from start of '' 0 = 0"
  "fleximatch ('' on or after '' @ rest) '' from end of '' 0 = 0"
  "fleximatch ('' on or after '' @ rest) '' on or after '' 0 = 13"
  "fleximatch ('' on or before '' @ rest) '' from start of '' 0 = 0"
  "fleximatch ('' on or before '' @ rest) '' from end of '' 0 = 0"
  "fleximatch ('' on or before '' @ rest) '' on or before '' 0 = 14"
  by (simp_all add: match_simps GDKisspace_def)

lemma rule_from_time_text:
  assumes "0 \<le> h" "h < 24" "0 \<le> m" "m < 60" "\<not> GDKisdigit (cget post 0)"
  shows "rule_from_time (''@'' @ fmt_0d 2 h @ '':'' @ fmt_0d 2 m @ post) = Some (h, m, post)"
proof -
  let ?H = "fmt_0d 2 h" and ?M = "fmt_0d 2 m"
  define cur where "cur = CHR ''@'' # ?H @ CHR '':'' # ?M @ post"
  have l: "length ?H = 2" "length ?M = 2" using assms by simp_all
  have h: "digits_before 24 cur 1 0 = (1 + length ?H, digits_value 0 ?H)"
    by (rule before.reads_at [of 24 ?H "CHR '':'' # ?M @ post" _ "''@''"]) (use assms in \<open>simp_all add: cur_def fmt_0d_digits\<close>)
  have m: "digits_before 60 cur 4 0 = (4 + length ?M, digits_value 0 ?M)"
    by (rule before.reads_at [of 60 ?M post _ "CHR ''@'' # ?H @ '':''"]) (use assms l in \<open>simp_all add: cur_def fmt_0d_digits\<close>)
  have c: "cget cur 0 = CHR ''@''" "GDKisdigit (cget cur 1)" "cget cur 3 = CHR '':''" "GDKisdigit (cget cur 4)" "drop 6 cur = post"
    using fmt_0d_first [OF assms(1), of 2 "CHR '':'' # ?M @ post"] fmt_0d_first [OF assms(3), of 2 post] l
    by (simp_all add: cur_def cget_Cons)
  have add: "1 + 2 = (3::nat)" "4 + 2 = (6::nat)" by simp_all
  have "rule_from_time cur = Some (h, m, post)"
    using h [unfolded l fmt_0d_digits(3) [OF assms(1)] add] m [unfolded l fmt_0d_digits(3) [OF assms(3)] add] c
    by (simp add: rule_from_time_def)
  then show ?thesis by (simp add: cur_def)
qed

lemma rule_from_day_text:
  assumes "1 \<le> m" "m \<le> 12" "1 \<le> d" "d \<le> 31" "\<not> GDKisdigit (cget post 0)"
  shows "rule_from_day int_nil m0 (name_at MONTHS m @ '' '' @ fmt_d d @ post) = Some (d, m, post)"
proof -
  let ?D = "dec (nat d)"
  have d: "fmt_d d = ?D" "all_digits ?D" "?D \<noteq> []" "digits_value 0 ?D = d"
    using assms(3) dec_digits [of "nat d"] by (auto simp: fmt_d_def)
  define cur where "cur = CHR '' '' # ?D @ post"
  have n: "digits_before 31 cur 1 0 = (1 + length ?D, digits_value 0 ?D)"
    by (rule before.reads_at [of 31 ?D post _ "'' ''"]) (use assms d in \<open>simp_all add: cur_def\<close>)
  have c: "cget cur 0 = CHR '' ''" "GDKisdigit (cget cur 1)" "drop (1 + length ?D) cur = post"
    using cget_digits_0 [OF d(2,3), of post] by (simp_all add: cur_def cget_Cons)
  have "name_at MONTHS m @ '' '' @ fmt_d d @ post = name_at MONTHS m @ cur" using d by (simp add: cur_def)
  then show ?thesis
    using parse_month(1) [OF assms(1,2), of cur] n c assms(1) d(4) by (simp add: rule_from_day_def)
qed

lemma rule_from_words_month:
  assumes "1 \<le> m" "m \<le> 12"
  shows "rule_from_words (name_at MONTHS m @ rest) = Some (int_nil, 0, 0, False, False, name_at MONTHS m @ rest)"
  using parse_month(2,3) [OF assms, of rest] by (simp add: rule_from_words_def)

lemma rule_from_words_nth:
  assumes "1 \<le> c" "c \<le> 5" "1 \<le> w" "w \<le> 7" "1 \<le> m" "m \<le> 12"
  shows "rule_from_words (name_at COUNT1 c @ '' '' @ name_at DAYS w @ '' from start of '' @ name_at MONTHS m @ rest)
      = Some (c, m, w, False, False, rest)"
    and "rule_from_words (name_at COUNT1 c @ '' '' @ name_at DAYS w @ '' from end of '' @ name_at MONTHS m @ rest)
      = Some (c, m, w, True, False, rest)"
proof -
  have ne: "length (name_at COUNT1 c) \<noteq> 0" "length (name_at MONTHS m) \<noteq> 0" 
    using parse_count [of c "[]"] parse_month(1) [of m "[]"] assms
    by (auto simp: parse_substr_def name_at_def COUNT1_def MONTHS_def nth_Cons' split: if_splits)
  have c: "c \<le> 6" "w \<noteq> int_nil" using assms by auto
  show "rule_from_words (name_at COUNT1 c @ '' '' @ name_at DAYS w @ '' from start of '' @ name_at MONTHS m @ rest)
      = Some (c, m, w, False, False, rest)"
    "rule_from_words (name_at COUNT1 c @ '' '' @ name_at DAYS w @ '' from end of '' @ name_at MONTHS m @ rest)
      = Some (c, m, w, True, False, rest)"
    unfolding rule_from_words_def Let_def parse_count [OF assms(1) c(1)]
    using ne c assms parse_day [OF assms(3,4)] parse_month(1) [OF assms(5,6)] from_words
    by simp_all
qed

lemma rule_from_words_on:
  assumes "1 \<le> w" "w \<le> 7"
  shows "rule_from_words (''first '' @ name_at DAYS w @ '' on or after '' @ rest) = Some (int_nil, 0, w, False, True, rest)"
    and "rule_from_words (''last '' @ name_at DAYS w @ '' on or before '' @ rest) = Some (int_nil, 0, w, True, True, rest)"
proof -
  have n: "name_at COUNT1 1 = ''first''" "name_at COUNT1 6 = ''last''" by code_simp+
  have p: "parse_substr (''first '' @ r) 0 COUNT1 = (5, 1)" "parse_substr (''last '' @ r) 0 COUNT1 = (4, 6)" for r
    using parse_count [of 1 "CHR '' '' # r"] parse_count [of 6 "CHR '' '' # r"] by (simp_all add: n)
  have w: "w \<noteq> int_nil" using assms by auto
  show "rule_from_words (''first '' @ name_at DAYS w @ '' on or after '' @ rest) = Some (int_nil, 0, w, False, True, rest)"
    "rule_from_words (''last '' @ name_at DAYS w @ '' on or before '' @ rest) = Some (int_nil, 0, w, True, True, rest)"
    unfolding rule_from_words_def Let_def p
    using w parse_day [OF assms] from_words by (simp_all add: cget_Cons)
qed

definition rule_text :: "rule \<Rightarrow> bool" where
  "rule_text r \<longleftrightarrow> rule_valid r \<and> (r_weekday r > WEEKDAY_ZERO \<longrightarrow> \<bar>r_day r - DAY_ZERO\<bar> \<le> 5)"

lemma rule_parse_fields:
  assumes "rule_valid r"
    and "rule_from_words (w @ at) = Some (day0, mo0, \<bar>r_weekday r - WEEKDAY_ZERO\<bar>, r_day r < DAY_ZERO, r_weekday r < WEEKDAY_ZERO, cur)"
    and "rule_from_day day0 mo0 cur = Some (\<bar>r_day r - DAY_ZERO\<bar>, r_month r, at)"
    and "at = ''@'' @ fmt_0d 2 (r_minutes r sdiv 60) @ '':'' @ fmt_0d 2 (r_minutes r smod 60) @ post"
    and "\<not> GDKisdigit (cget post 0)"
  shows "rule_parse (w @ at) = Some (length (w @ at) - length post, r)"
proof -
  let ?h = "r_minutes r sdiv 60" and ?m = "r_minutes r smod 60"
  have mi: "0 \<le> r_minutes r" "r_minutes r < 1440" using assms(1) by (auto simp: rule_valid_def)
  have hm: "0 \<le> ?h" "?h < 24" "0 \<le> ?m" "?m < 60" "?h * 60 + ?m = r_minutes r"
    using mi by (auto simp: sdiv_nonneg smod_nonneg)
  have t: "rule_from_time at = Some (?h, ?m, post)"
    unfolding assms(4) by (rule rule_from_time_text [OF hm(1-4) assms(5)])
  have v: "1 \<le> \<bar>r_day r - DAY_ZERO\<bar>" "\<bar>r_day r - DAY_ZERO\<bar> \<le> NODAYS ! nat (r_month r)" "r_empty r = 64"
    using assms(1) by (auto simp: rule_valid_def)
  have sg: "(if r_day r < DAY_ZERO then - \<bar>r_day r - DAY_ZERO\<bar> else \<bar>r_day r - DAY_ZERO\<bar>) = r_day r - DAY_ZERO"
    "(if r_weekday r < WEEKDAY_ZERO then - \<bar>r_weekday r - WEEKDAY_ZERO\<bar> else \<bar>r_weekday r - WEEKDAY_ZERO\<bar>) = r_weekday r - WEEKDAY_ZERO"
    by auto
  have "rule_set rule_nil (r_month r) (r_day r) (r_weekday r) (r_minutes r) = r"
    using rule_valid_bits [OF assms(1)] v(3) by (simp add: rule_set_def rule_nil_def)
  then show ?thesis
    unfolding rule_parse_def assms(2) using assms(3) t hm v by (simp only: bind.simps prod.case) (simp add: sg)
qed

text \<open>The five forms of a rule, each split into its words and its time.\<close>

lemma rule_text_words:
  assumes "rule_text r" "\<not> GDKisdigit (cget at 0)"
    and "at = ''@'' @ fmt_0d 2 (r_minutes r sdiv 60) @ '':'' @ fmt_0d 2 (r_minutes r smod 60) @ post"
  shows "\<exists>w day0 mo0 cur. rule_tostr r @ post = w @ at
    \<and> rule_from_words (w @ at) = Some (day0, mo0, \<bar>r_weekday r - WEEKDAY_ZERO\<bar>, r_day r < DAY_ZERO, r_weekday r < WEEKDAY_ZERO, cur)
    \<and> rule_from_day day0 mo0 cur = Some (\<bar>r_day r - DAY_ZERO\<bar>, r_month r, at)" (is ?goal)
proof -
  let ?d = "r_day r - DAY_ZERO" and ?w = "r_weekday r - WEEKDAY_ZERO"
  have v: "rule_valid r" using assms(1) by (simp add: rule_text_def)
  have m: "1 \<le> r_month r" "r_month r \<le> 12" using v by (auto simp: rule_valid_def)
  have d: "1 \<le> \<bar>?d\<bar>" "\<bar>?d\<bar> \<le> 31" "\<bar>?w\<bar> \<le> 7" "?w \<noteq> 0 \<or> ?d > 0" "?w > 0 \<Longrightarrow> \<bar>?d\<bar> \<le> 5"
    using assms(1) NODAYS_le [OF m] by (auto simp: rule_valid_def rule_text_def)
  note n = rule_valid_not_nil [OF v] and at = assms(2)
  have fields: "rule_from_words (w @ at) = Some (day0, mo0, \<bar>?w\<bar>, r_day r < DAY_ZERO, r_weekday r < WEEKDAY_ZERO, cur) \<Longrightarrow>
      rule_from_day day0 mo0 cur = Some (\<bar>?d\<bar>, r_month r, at) \<Longrightarrow> rule_tostr r @ post = w @ at \<Longrightarrow> ?goal"
    for w day0 mo0 cur by blast
  consider "?w = 0" "?d > 0" | "?w > 0" "?d > 0" | "?w > 0" "?d < 0" | "?w < 0" "?d > 0" | "?w < 0" "?d < 0" using d by linarith
  then show ?goal
  proof cases
    case 1
    then show ?goal using rule_from_words_month [OF m, of "'' '' @ fmt_d ?d @ at"] rule_from_day_text [OF m, of ?d at] d n at
      by (intro fields [of "name_at MONTHS (r_month r) @ '' '' @ fmt_d ?d" int_nil 0 "name_at MONTHS (r_month r) @ '' '' @ fmt_d ?d @ at"])
         (simp_all add: rule_tostr_def assms(3))
  next
    case 2
    then show ?goal using rule_from_words_nth(1) [of ?d ?w "r_month r" at] d m n
      by (intro fields [of "name_at COUNT1 ?d @ '' '' @ name_at DAYS ?w @ '' from start of '' @ name_at MONTHS (r_month r)" ?d "r_month r" at])
         (simp_all add: rule_from_day_def rule_tostr_def count1_def assms(3))
  next
    case 3
    then show ?goal using rule_from_words_nth(2) [of "- ?d" ?w "r_month r" at] d m n
      by (intro fields [of "name_at COUNT1 (- ?d) @ '' '' @ name_at DAYS ?w @ '' from end of '' @ name_at MONTHS (r_month r)" "- ?d" "r_month r" at])
         (simp_all add: rule_from_day_def rule_tostr_def count1_def assms(3))
  next
    case 4
    then show ?goal using rule_from_words_on(1) [of "- ?w"] rule_from_day_text [OF m, of ?d at] d n at
      by (intro fields [of "''first '' @ name_at DAYS (- ?w) @ '' on or after '' @ name_at MONTHS (r_month r) @ '' '' @ fmt_d ?d" int_nil 0
             "name_at MONTHS (r_month r) @ '' '' @ fmt_d ?d @ at"])
         (simp_all add: rule_tostr_def assms(3))
  next
    case 5
    then show ?goal using rule_from_words_on(2) [of "- ?w"] rule_from_day_text [OF m, of "- ?d" at] d n at
      by (intro fields [of "''last '' @ name_at DAYS (- ?w) @ '' on or before '' @ name_at MONTHS (r_month r) @ '' '' @ fmt_d (- ?d)" int_nil 0
             "name_at MONTHS (r_month r) @ '' '' @ fmt_d (- ?d) @ at"])
         (simp_all add: rule_tostr_def assms(3))
  qed
qed

lemma rule_text_parse:
  assumes "rule_text r" "\<not> GDKisdigit (cget post 0)"
  shows "rule_fromstr (rule_tostr r @ post) = (length (rule_tostr r), r)"
proof -
  define at where "at = ''@'' @ fmt_0d 2 (r_minutes r sdiv 60) @ '':'' @ fmt_0d 2 (r_minutes r smod 60) @ post"
  have v: "rule_valid r" using assms(1) by (simp add: rule_text_def)
  have "\<not> GDKisdigit (cget at 0)" by (simp add: at_def GDKisdigit_def)
  from rule_text_words [OF assms(1) this at_def] obtain w day0 mo0 cur where w: "rule_tostr r @ post = w @ at"
    "rule_from_words (w @ at) = Some (day0, mo0, \<bar>r_weekday r - WEEKDAY_ZERO\<bar>, r_day r < DAY_ZERO, r_weekday r < WEEKDAY_ZERO, cur)"
    "rule_from_day day0 mo0 cur = Some (\<bar>r_day r - DAY_ZERO\<bar>, r_month r, at)" by blast
  have p: "rule_parse (w @ at) = Some (length (w @ at) - length post, r)"
    by (rule rule_parse_fields [OF v w(2,3) at_def assms(2)])
  have "length (w @ at) - length post = length (rule_tostr r)" using arg_cong [OF w(1), of length] by simp
  with w(1) p show ?thesis by (simp add: rule_fromstr_def)
qed

text \<open>
  The text of a rule is read back as the same rule, for every rule whose text the
  grammar can express: counts beyond the fifth weekday of a month print as words that
  the parser does not know.
\<close>

theorem rule_text_roundtrip:
  assumes "rule_text r"
  shows "MTIMErule_fromstr (rule_tostr r) = r"
proof -
  have "rule_fromstr ''nil'' = (0, rule_nil)" by code_simp
  then show ?thesis using rule_text_parse [OF assms, of "[]"] by (auto simp: MTIMErule_fromstr_def)
qed

theorem rule_text_witness:
  "rule_text (rule_create 3 (- 1) 1 120)
   \<and> MTIMErule_fromstr ''first sunday from end of march@02:00'' = rule_create 3 (- 1) 1 120"
proof -
  have h: "rule_text (rule_create 3 (- 1) 1 120)"
    "rule_tostr (rule_create 3 (- 1) 1 120) = ''first sunday from end of march@02:00''" by code_simp+
  show ?thesis using rule_text_roundtrip [OF h(1)] h by simp
qed

subsection \<open>Text of zones\<close>

lemma tzone_from_offset_text:
  assumes "0 \<le> h" "h < 24" "0 \<le> m" "m < 60" "c = CHR ''+'' \<or> c = CHR ''-''"
  shows "tzone_from_offset (c # fmt_0d 2 h @ '':'' @ fmt_0d 2 m) = Some (c = CHR ''-'', h, m, [])"
proof -
  let ?H = "fmt_0d 2 h" and ?a = "nat m div 10" and ?b = "nat m mod 10"
  have lt: "?a < 10" "?b < 10" "0 \<le> int ?a" using assms by auto
  have M: "fmt_0d 2 m = [digit_char ?a, digit_char ?b]" using assms by (simp add: fmt_0d_2)
  have ab: "int ?b + int ?a * 10 = m" using div_mult_mod_eq [of "nat m" 10] assms(3) by linarith
  define cur where "cur = c # ?H @ CHR '':'' # fmt_0d 2 m"
  have l: "length ?H = 2" using assms by simp
  have h: "digits_before 9999 cur 1 0 = (1 + length ?H, digits_value 0 ?H)"
    by (rule before.reads_at [of 9999 ?H "CHR '':'' # fmt_0d 2 m" _ "[c]"]) (use assms in \<open>simp_all add: cur_def fmt_0d_digits\<close>)
  have p: "cur = (c # ?H @ [CHR '':'', digit_char ?a]) @ [digit_char ?b] @ []" by (simp add: cur_def M)
  have m: "digits_before 60 cur 5 (int ?a) = (6, m)"
    using before.reads [of 60 "[digit_char ?b]" "[]" "int ?a" "c # ?H @ [CHR '':'', digit_char ?a]"] lt ab assms l
    unfolding p [symmetric] by (simp add: GDKisdigit_digit_char digit_val_digit_char)
  have c: "cget cur 0 = c" "GDKisdigit (cget cur 1)" "cget cur 3 = CHR '':''" "cget cur 4 = digit_char ?a" "drop 6 cur = []"
    using fmt_0d_first [OF assms(1), of 2 "CHR '':'' # fmt_0d 2 m"] l by (simp_all add: cur_def cget_Cons M)
  have add: "1 + 2 = (3::nat)" by simp
  have "tzone_from_offset cur = Some (c = CHR ''-'', h, m, [])"
    using h [unfolded l fmt_0d_digits(3) [OF assms(1)] add] m c assms(5) lt
    by (auto simp: tzone_from_offset_def GDKisdigit_digit_char digit_val_digit_char)
  then show ?thesis by (simp add: cur_def)
qed

lemma fleximatch_gmt: "fleximatch (''GMT'' @ rest) ''gmt'' 0 = 3"
proof -
  have "LOWER (CHR ''G'') = CHR ''g''" "LOWER (CHR ''M'') = CHR ''m''" "LOWER (CHR ''T'') = CHR ''t''" by code_simp+
  then show ?thesis by (simp add: match_simps)
qed

lemma tzone_create_offset:
  assumes "\<bar>mins\<bar> < 1440"
  shows "get_offset (tzone_create mins) = mins" "tz_dst (tzone_create mins) = 0" "\<not> tz_isnil (tzone_create mins)"
    "tzone_create mins = (set_offset tzone_nil mins)\<lparr>tz_dst := 0\<rparr>"
proof -
  show e: "tzone_create mins = (set_offset tzone_nil mins)\<lparr>tz_dst := 0\<rparr>" using assms by (auto simp: tzone_create_def)
  show "get_offset (tzone_create mins) = mins" "tz_dst (tzone_create mins) = 0" "\<not> tz_isnil (tzone_create mins)"
    unfolding e tz_isnil_iff using assms get_set_offset [of mins tzone_nil] by auto
qed



text \<open>
  The text of a zone that has daylight saving but no distance to GMT cannot be read:
  the minus sign of \<^verbatim>\<open>-DST[\<close> is taken for the sign of an offset.  The predefined zone of the
  United Kingdom is such a zone.
\<close>

theorem tzone_gmt_dst_unreadable:
  assumes "rule_valid s" "rule_valid e"
  shows "MTIMEtzone_fromstr (tzone_tostr (tzone_create_dst 0 s e)) = Inl ''syntax error''"
proof -
  let ?z = "tzone_create_dst 0 s e"
  have z: "get_offset ?z = 0" "tz_dst ?z = 1"
    using assms rule_valid_not_nil get_set_offset [of 0 tzone_nil] by (auto simp: tzone_create_dst_def)
  then obtain rest where t: "tzone_tostr ?z = ''GMT'' @ CHR ''-'' # CHR ''D'' # rest" 
    by (auto simp: tzone_tostr_def tz_isnil_iff)
  have "\<not> GDKisdigit (CHR ''D'')" by (simp add: GDKisdigit_def)
  then have "tzone_parse (''GMT'' @ CHR ''-'' # CHR ''D'' # rest) = None"
    unfolding tzone_parse_def fleximatch_gmt by (simp add: tzone_from_offset_def)
  then show ?thesis unfolding t by (simp add: MTIMEtzone_fromstr_def tzone_fromstr_def)
qed

theorem tzone_gmt_dst_witness:
  "rule_valid (rule_create 3 (- 1) 1 120) \<and> MTIMEtzone_fromstr
     (tzone_tostr (tzone_create_dst 0 (rule_create 3 (- 1) 1 120) (rule_create 10 (- 1) 1 120))) = Inl ''syntax error''"
proof -
  have h: "rule_valid (rule_create 3 (- 1) 1 120)" "rule_valid (rule_create 10 (- 1) 1 120)" by code_simp+
  show ?thesis using tzone_gmt_dst_unreadable [OF h] h by simp
qed

subsection \<open>Epoch conversions\<close>

lemma in_timestamps_between:
  assumes "DATE_MIN * DAY_MSECS \<le> t" "t < (DATE_MAX + 1) * DAY_MSECS"
  shows "ts_valid (in_timestamps t)" "ts_msecs (in_timestamps t) = t"
proof -
  define q r where "q = t div DAY_MSECS" and "r = t mod DAY_MSECS"
  have qr: "t = q * DAY_MSECS + r" "0 \<le> r" "r < DAY_MSECS"
    by (simp_all add: q_def r_def)
  have "DATE_MIN \<le> q" using assms(1) qr by linarith
  have "q * DAY_MSECS < (DATE_MAX + 1) * DAY_MSECS" using assms(2) qr by linarith
  then have "q \<le> DATE_MAX" by simp
  with \<open>DATE_MIN \<le> q\<close> have "in_timestamps t = \<lparr>days = q, msecs = r\<rparr>" using in_timestamps_eq [OF qr] by simp
  with \<open>DATE_MIN \<le> q\<close> \<open>q \<le> DATE_MAX\<close> qr show "ts_valid (in_timestamps t)" "ts_msecs (in_timestamps t) = t"
    by (simp_all add: ts_valid_def ts_msecs_def)
qed

text \<open>
  Converting a number of seconds since 1970 to a timestamp and back gives the number
  again, for every 32-bit number of seconds but nil.
\<close>

theorem epoch_roundtrip:
  assumes "int_nil < s" "s \<le> int_max"
  shows "\<exists>t. MTIMEtimestamp s = Inr (Some t) \<and> MTIMEepoch2int t = Inr (Some s)"
proof -
  let ?e = "\<lparr>days = 719528, msecs = 0\<rparr>"
  have e: "MTIMEunix_epoch = Inr (Some ?e)" "ts_valid ?e" "ts_msecs ?e = 719528 * DAY_MSECS" by code_simp+
  let ?t = "in_timestamps (ts_msecs ?e + s * 1000)"
  have t: "MTIMEtimestamp s = Inr (Some ?t)"
    using assms ts_add_exact [OF e(2), of "s * 1000"] by (simp add: MTIMEtimestamp_def e(1))
  have "DATE_MIN * DAY_MSECS \<le> ts_msecs ?e + s * 1000" "ts_msecs ?e + s * 1000 < (DATE_MAX + 1) * DAY_MSECS"
    using assms unfolding e(3) by (simp_all add: DATE_MIN_eq DATE_MAX_eq)
  then have v: "ts_valid ?t" "ts_msecs ?t = ts_msecs ?e + s * 1000" by (rule in_timestamps_between)+
  then have "MTIMEtimestamp_diff ?t ?e = s * 1000"
    using MTIMEtimestamp_diff_msecs [OF v(1) e(2)] assms by simp
  moreover have "(s * 1000) sdiv 1000 = s" by (cases "0 \<le> s") (simp_all add: sdiv_nonneg sdiv_nonpos)
  ultimately have "MTIMEepoch2int ?t = Inr (Some s)"
    using assms by (simp add: MTIMEepoch2int_def e(1) cint)
  with t show ?thesis by blast
qed

theorem epoch_roundtrip_witness:
  "\<exists>t. MTIMEtimestamp (- 2147483647) = Inr (Some t) \<and> MTIMEepoch2int t = Inr (Some (- 2147483647))"
  using epoch_roundtrip [of "- 2147483647"] by simp

end
