(* ===== verification/Gdk_Atoms.thy ===== *)
theory Gdk_Atoms
  imports Prelude "HOL-Library.Char_ord"
begin

text \<open>
  The comparison functions of the built-in atoms (\<^verbatim>\<open>gdk/gdk_atoms.c\<close>, \<^verbatim>\<open>gdk/gdk_atoms.h\<close>).
  The locale \<open>atom_order\<close> is what the kernel's ordered operations rely on: the sign of
  the comparison is a total order up to equality.
\<close>

subsection \<open>Types\<close>

text \<open>
  The atom types the column operators distinguish; \<^verbatim>\<open>TYPE_other\<close> stands for every type that is
  not an integer type.  \<^verbatim>\<open>bit\<close> is stored as a \<^verbatim>\<open>bte\<close>.
\<close>

datatype tpe = TYPE_bit | TYPE_bte | TYPE_sht | TYPE_int | TYPE_lng | TYPE_other

definition ATOMstorage :: "tpe \<Rightarrow> tpe" where
  "ATOMstorage t = (if t = TYPE_bit then TYPE_bte else t)"

subsection \<open>Comparison\<close>

definition simple_CMP :: "int \<Rightarrow> int \<Rightarrow> int" where
  "simple_CMP x y = (if x < y then - 1 else if x > y then 1 else 0)"

function strCmpNoNil_from :: "string \<Rightarrow> string \<Rightarrow> nat \<Rightarrow> int" where
  "strCmpNoNil_from l r i =
    (if cget l i = cget r i then
       if cget l i = CHR 0x00 then 0 else strCmpNoNil_from l r (i + 1)
     else if cget l i < cget r i then - 1 else 1)"
  by pat_completeness auto
termination
  by (relation "measure (\<lambda>(l, r, i). length l - i)") (auto simp: cget_def split: if_splits)

declare strCmpNoNil_from.simps [simp del]

definition strCmpNoNil :: "string \<Rightarrow> string \<Rightarrow> int" where
  "strCmpNoNil l r = strCmpNoNil_from l r 0"

definition strNil :: "string \<Rightarrow> bool" where
  "strNil s \<longleftrightarrow> cget s 0 = CHR 0x80"

definition strCmp :: "string \<Rightarrow> string \<Rightarrow> int" where
  "strCmp l r =
    (if strNil l then if strNil r then 0 else - 1
     else if strNil r then 1
     else if cget l 0 < cget r 0 then - 1
     else if cget l 0 > cget r 0 then 1
     else strCmpNoNil l r)"

text \<open>Comparing strings compares what precedes the terminating NUL, in the order of bytes.\<close>

definition cstr :: "string \<Rightarrow> string" where
  "cstr s = takeWhile (\<lambda>c. c \<noteq> CHR 0x00) s"

fun lexcmp :: "string \<Rightarrow> string \<Rightarrow> int" where
  "lexcmp [] [] = 0"
| "lexcmp [] (y # ys) = - 1"
| "lexcmp (x # xs) [] = 1"
| "lexcmp (x # xs) (y # ys) = (if x < y then - 1 else if y < x then 1 else lexcmp xs ys)"

lemma NUL_le [simp]: "CHR 0x00 \<le> c"
  by (simp add: less_eq_char_def)

lemma NUL_less [simp]: "CHR 0x00 < c \<longleftrightarrow> c \<noteq> CHR 0x00"
  using NUL_le [of c] by (auto simp: order.strict_iff_order)

lemma not_less_NUL [simp]: "\<not> c < CHR 0x00"
  by (simp add: not_less)

lemma cget_drop: "cget s i = cget (drop i s) 0"
  by (auto simp: cget_def)

lemma cstr_drop:
  "cstr (drop i s) = (if cget s i = CHR 0x00 then [] else cget s i # cstr (drop (Suc i) s))"
  by (cases "i < length s") (auto simp: cget_def cstr_def simp flip: Cons_nth_drop_Suc)

lemma strCmpNoNil_from_lexcmp:
  "strCmpNoNil_from l r i = lexcmp (cstr (drop i l)) (cstr (drop i r))"
proof (induction l r i rule: strCmpNoNil_from.induct)
  case (1 l r i)
  then show ?case
    by (subst strCmpNoNil_from.simps) (auto simp: cstr_drop [of i])
qed

lemma strCmpNoNil_lexcmp: "strCmpNoNil l r = lexcmp (cstr l) (cstr r)"
  by (simp add: strCmpNoNil_def strCmpNoNil_from_lexcmp)

lemma strCmp_lexcmp:
  "strCmp l r = (if strNil l then if strNil r then 0 else - 1
     else if strNil r then 1 else lexcmp (cstr l) (cstr r))"
proof -
  have "cget l 0 < cget r 0 \<Longrightarrow> lexcmp (cstr l) (cstr r) = - 1"
    "cget r 0 < cget l 0 \<Longrightarrow> lexcmp (cstr l) (cstr r) = 1"
    using cstr_drop [of 0 l] cstr_drop [of 0 r] by (auto split: if_splits)
  then show ?thesis
    by (auto simp: strCmp_def strCmpNoNil_lexcmp)
qed

lemma lexcmp_swap: "lexcmp x y < 0 \<longleftrightarrow> 0 < lexcmp y x"
  by (induction x y rule: lexcmp.induct) auto

lemma lexcmp_trans: "lexcmp x y \<le> 0 \<Longrightarrow> lexcmp y z \<le> 0 \<Longrightarrow> lexcmp x z \<le> 0"
proof (induction x y arbitrary: z rule: lexcmp.induct)
  case (4 x xs y ys)
  then show ?case by (cases z) (auto split: if_splits)
qed (case_tac z; simp)+

lemma lexcmp_eq: "lexcmp x y = 0 \<longleftrightarrow> x = y"
  by (induction x y rule: lexcmp.induct) auto

subsection \<open>The contract of a comparison\<close>

locale atom_order =
  fixes cmp :: "'a \<Rightarrow> 'a \<Rightarrow> int"
  assumes cmp_swap: "cmp x y < 0 \<longleftrightarrow> 0 < cmp y x"
    and cmp_trans: "cmp x y \<le> 0 \<Longrightarrow> cmp y z \<le> 0 \<Longrightarrow> cmp x z \<le> 0"
begin

lemma cmp_refl: "cmp x x = 0"
  using cmp_swap [of x x] by linarith

lemma cmp_le_swap: "cmp x y \<le> 0 \<longleftrightarrow> 0 \<le> cmp y x"
  using cmp_swap [of y x] by linarith

lemma cmp_eq_sym: "cmp x y = 0 \<longleftrightarrow> cmp y x = 0"
  using cmp_swap [of x y] cmp_swap [of y x] by linarith

lemma cmp_neq: "cmp x y \<noteq> 0 \<longleftrightarrow> cmp x y < 0 \<or> cmp y x < 0"
  using cmp_swap [of x y] cmp_swap [of y x] by linarith

lemma cmp_less_trans: "cmp x y < 0 \<Longrightarrow> cmp y z \<le> 0 \<Longrightarrow> cmp x z < 0"
  using cmp_trans [of y z x] cmp_swap [of x z] cmp_swap [of x y] cmp_le_swap [of x z]
    cmp_le_swap [of z x] by (smt (verit))

end

interpretation simple: atom_order simple_CMP
  by unfold_locales (auto simp: simple_CMP_def split: if_splits)

interpretation str: atom_order strCmp
proof
  fix x y z
  show "strCmp x y < 0 \<longleftrightarrow> 0 < strCmp y x"
    by (simp add: strCmp_lexcmp lexcmp_swap)
  show "strCmp x y \<le> 0 \<Longrightarrow> strCmp y z \<le> 0 \<Longrightarrow> strCmp x z \<le> 0"
    by (auto simp: strCmp_lexcmp intro: lexcmp_trans split: if_splits)
qed

end
