(* ===== verification/Pqueue.thy ===== *)
theory Pqueue
  imports Gdk_Atoms "HOL-Library.Multiset" "HOL-Library.Monad_Syntax"
begin

text \<open>
  Priority queues and top-N selection (\<^verbatim>\<open>monetdb5/modules/mal/pqueue.c\<close>).  A queue is a BAT of
  object identifiers and values, here the list of its pairs in order.  The comparison
  \<^verbatim>\<open>OPER\<close> of the macro \<^verbatim>\<open>pqueueimpl_minmax\<close> is an argument.  Reading the first value of an
  empty queue, which the code does not guard against, is the result \<^const>\<open>None\<close>.
\<close>

subsection \<open>The operations\<close>

type_synonym 'a pqueue = "(nat \<times> 'a) list"

definition parent :: "nat \<Rightarrow> nat" where
  "parent posel = (if posel mod 2 \<noteq> 0 then posel div 2 else (posel - 1) div 2)"

definition ht_swap :: "'a pqueue \<Rightarrow> nat \<Rightarrow> nat \<Rightarrow> 'a pqueue" where
  "ht_swap h cur ins = h[cur := h ! ins, ins := h ! cur]"

lemma length_ht_swap [simp]: "length (ht_swap h i j) = length h"
  by (simp add: ht_swap_def)

lemma parent_less: "0 < i \<Longrightarrow> parent i < i"
  by (auto simp: parent_def)

function pqueue_moveup :: "('a \<Rightarrow> 'a \<Rightarrow> bool) \<Rightarrow> 'a pqueue \<Rightarrow> nat \<Rightarrow> 'a pqueue" where
  "pqueue_moveup oper h posel =
    (if posel > 0 \<and> oper (snd (h ! posel)) (snd (h ! parent posel))
     then pqueue_moveup oper (ht_swap h (parent posel) posel) (parent posel)
     else h)"
  by pat_completeness auto
termination
  by (relation "measure (\<lambda>(oper, h, posel). posel)") (auto simp: parent_less)

definition pqueue_enqueue :: "('a \<Rightarrow> 'a \<Rightarrow> bool) \<Rightarrow> 'a pqueue \<Rightarrow> nat \<Rightarrow> 'a \<Rightarrow> 'a pqueue" where
  "pqueue_enqueue oper h idx el = pqueue_moveup oper (h @ [(idx, el)]) (length h)"

function pqueue_movedown :: "('a \<Rightarrow> 'a \<Rightarrow> bool) \<Rightarrow> 'a pqueue \<Rightarrow> nat \<Rightarrow> 'a pqueue" where
  "pqueue_movedown oper h posel =
    (if posel * 2 + 1 < length h then
       let swap = (if posel * 2 + 2 < length h then
             if oper (snd (h ! (posel * 2 + 1))) (snd (h ! (posel * 2 + 2)))
             then posel * 2 + 1 else posel * 2 + 2
           else posel * 2 + 1)
       in if oper (snd (h ! swap)) (snd (h ! posel))
          then pqueue_movedown oper (ht_swap h posel swap) swap
          else h
     else h)"
  by pat_completeness auto
termination
  by (relation "measure (\<lambda>(oper, h, posel). length h - posel)") (auto split: if_splits)

declare pqueue_moveup.simps [simp del] pqueue_movedown.simps [simp del]

definition pqueue_movedowntop :: "('a \<Rightarrow> 'a \<Rightarrow> bool) \<Rightarrow> 'a pqueue \<Rightarrow> 'a pqueue" where
  "pqueue_movedowntop oper h = pqueue_movedown oper h 0"

text \<open>\<^verbatim>\<open>GDK_FAIL\<close> on the empty queue is \<^const>\<open>None\<close>.\<close>

definition pqueue_dequeue :: "('a \<Rightarrow> 'a \<Rightarrow> bool) \<Rightarrow> 'a pqueue \<Rightarrow> 'a pqueue option" where
  "pqueue_dequeue oper h =
    (if h = [] then None
     else Some (pqueue_movedowntop oper (butlast (ht_swap h 0 (length h - 1)))))"

definition pqueue_topreplace :: "('a \<Rightarrow> 'a \<Rightarrow> bool) \<Rightarrow> 'a pqueue \<Rightarrow> nat \<Rightarrow> 'a \<Rightarrow> 'a pqueue option" where
  "pqueue_topreplace oper h idx el =
    (if h = [] then None
     else if oper (snd (h ! 0)) el then Some (pqueue_movedowntop oper (h[0 := (idx, el)]))
     else Some h)"

lemma length_pqueue_movedown [simp]: "length (pqueue_movedown oper h i) = length h"
  by (induction oper h i rule: pqueue_movedown.induct)
     (subst pqueue_movedown.simps, simp add: Let_def)

text \<open>
  \<^verbatim>\<open>heap2bat\<close> empties the queue and gives each identifier the first identifier that had
  the same value; \<^verbatim>\<open>BATrevert\<close> then turns the order around.  The test whether the value
  has changed is the argument \<open>differs\<close>: \<^verbatim>\<open>!=\<close> in the macro.
\<close>

function heap2bat_loop :: "('a \<Rightarrow> 'a \<Rightarrow> bool) \<Rightarrow> ('a \<Rightarrow> 'a \<Rightarrow> bool) \<Rightarrow> 'a pqueue \<Rightarrow> nat \<Rightarrow> 'a \<Rightarrow> (nat \<times> nat) list \<Rightarrow> (nat \<times> nat) list" where
  "heap2bat_loop oper differs h oo ov n =
    (case pqueue_dequeue oper h of
       None \<Rightarrow> n
     | Some h' \<Rightarrow>
         let k = fst (h ! 0); v = snd (h ! 0)
         in if differs ov v then heap2bat_loop oper differs h' k v (n @ [(k, k)])
            else heap2bat_loop oper differs h' oo ov (n @ [(k, oo)]))"
  by pat_completeness auto
termination
  by (relation "measure (\<lambda>(oper, differs, h, oo, ov, n). length h)")
     (auto simp: pqueue_dequeue_def pqueue_movedowntop_def split: if_splits)

declare heap2bat_loop.simps [simp del]

definition heap2bat :: "('a \<Rightarrow> 'a \<Rightarrow> bool) \<Rightarrow> ('a \<Rightarrow> 'a \<Rightarrow> bool) \<Rightarrow> 'a pqueue \<Rightarrow> (nat \<times> nat) list" where
  "heap2bat oper differs h =
    (if h = [] then [] else rev (heap2bat_loop oper differs h (fst (h ! 0)) (snd (h ! 0)) []))"

fun pqueue_enqueue_all :: "('a \<Rightarrow> 'a \<Rightarrow> bool) \<Rightarrow> 'a pqueue \<Rightarrow> (nat \<times> 'a) list \<Rightarrow> 'a pqueue" where
  "pqueue_enqueue_all oper h [] = h"
| "pqueue_enqueue_all oper h ((idx, v) # t) = pqueue_enqueue_all oper (pqueue_enqueue oper h idx v) t"

fun pqueue_topreplace_all :: "('a \<Rightarrow> 'a \<Rightarrow> bool) \<Rightarrow> 'a pqueue \<Rightarrow> (nat \<times> 'a) list \<Rightarrow> 'a pqueue option" where
  "pqueue_topreplace_all oper h [] = Some h"
| "pqueue_topreplace_all oper h ((idx, v) # t) = do {
     h \<leftarrow> pqueue_topreplace oper h idx v;
     pqueue_topreplace_all oper h t
   }"

abbreviation wrd_nil :: int where "wrd_nil \<equiv> lng_nil"
abbreviation BUN_MAX :: int where "BUN_MAX \<equiv> 2 ^ 63 - 2"

definition pqueue_topn :: "('a \<Rightarrow> 'a \<Rightarrow> bool) \<Rightarrow> ('a \<Rightarrow> 'a \<Rightarrow> bool) \<Rightarrow> (nat \<times> 'a) list \<Rightarrow> int \<Rightarrow> (nat \<times> nat) list option" where
  "pqueue_topn oper differs t N =
    (let n = (if N \<noteq> wrd_nil \<and> N \<ge> 0 \<and> N \<le> BUN_MAX \<and> nat N < length t then nat N else length t)
     in do {
       h \<leftarrow> pqueue_topreplace_all oper (pqueue_enqueue_all oper [] (take n t)) (drop n t);
       Some (heap2bat oper differs h)
     })"

text \<open>A BAT with a void head numbers its values from \<^verbatim>\<open>hseqbase\<close>.\<close>

definition pqueue_topn_void :: "('a \<Rightarrow> 'a \<Rightarrow> bool) \<Rightarrow> ('a \<Rightarrow> 'a \<Rightarrow> bool) \<Rightarrow> nat \<Rightarrow> 'a list \<Rightarrow> int \<Rightarrow> (nat \<times> nat) list option" where
  "pqueue_topn_void oper differs hseqbase t N =
    pqueue_topn oper differs (zip [hseqbase..<hseqbase + length t] t) N"

text \<open>
  Looking up and deleting in a BAT.  \<^verbatim>\<open>BUNfnd\<close> searches a column through its hash table, in which \<^verbatim>\<open>BAThash\<close>
  has put every position in front of the earlier ones with the same key: the last position
  with the value is found.  In a column that is recorded as sorted it searches by halving
  and may find another of several equal values; on that depends no more than the order in which
  \<^verbatim>\<open>BUNdelHead\<close> leaves the rows.  \<^verbatim>\<open>BUNdelete\<close>, when forced, moves the last row over the deleted one.
\<close>

definition BUNfnd :: "('k \<Rightarrow> 'k \<Rightarrow> bool) \<Rightarrow> 'k list \<Rightarrow> 'k \<Rightarrow> nat option" where
  "BUNfnd differs ks v = find (\<lambda>p. \<not> differs (ks ! p) v) (rev [0..<length ks])"

definition BUNdelete :: "'r list \<Rightarrow> nat \<Rightarrow> 'r list" where
  "BUNdelete b p = (let last = length b - 1 in butlast (if p \<noteq> last then b[p := b ! last] else b))"

lemma BUNfnd_bound: "BUNfnd differs ks v = Some p \<Longrightarrow> p < length ks \<and> \<not> differs (ks ! p) v"
  by (auto simp: BUNfnd_def find_Some_iff rev_nth)

function BUNdelHead :: "(nat \<times> nat) list \<Rightarrow> nat \<Rightarrow> (nat \<times> nat) list" where
  "BUNdelHead b k =
    (case BUNfnd (\<noteq>) (map fst b) k of None \<Rightarrow> b | Some p \<Rightarrow> BUNdelHead (BUNdelete b p) k)"
  by pat_completeness auto
termination
  by (relation "measure (\<lambda>(b, k). length b)") (auto simp: BUNdelete_def Let_def dest!: BUNfnd_bound)

declare BUNdelHead.simps [simp del]

text \<open>
  The loops of \<^verbatim>\<open>utopn\<close>, which keep one queue element per value and record in
  \<^verbatim>\<open>duplicates\<close> every identifier that has the value of a queue element; \<open>opereq\<close> is \<^verbatim>\<open>OPER##=\<close>.
\<close>

fun pqueue_utopn_fill :: "('a \<Rightarrow> 'a \<Rightarrow> bool) \<Rightarrow> ('a \<Rightarrow> 'a \<Rightarrow> bool) \<Rightarrow> nat \<Rightarrow> nat \<Rightarrow> 'a pqueue \<Rightarrow> (nat \<times> nat) list \<Rightarrow> (nat \<times> 'a) list \<Rightarrow> 'a pqueue \<times> (nat \<times> nat) list \<times> (nat \<times> 'a) list" where
  "pqueue_utopn_fill oper differs n i h duplicates [] = (h, duplicates, [])"
| "pqueue_utopn_fill oper differs n i h duplicates ((idx, v) # t) =
    (if i < n then
       case BUNfnd differs (map snd h) v of
         None \<Rightarrow> pqueue_utopn_fill oper differs n (i + 1) (pqueue_enqueue oper h idx v)
           (duplicates @ [(idx, idx)]) t
       | Some p \<Rightarrow> pqueue_utopn_fill oper differs n i h (duplicates @ [(fst (h ! p), idx)]) t
     else (h, duplicates, (idx, v) # t))"

fun pqueue_utopn_rest :: "('a \<Rightarrow> 'a \<Rightarrow> bool) \<Rightarrow> ('a \<Rightarrow> 'a \<Rightarrow> bool) \<Rightarrow> ('a \<Rightarrow> 'a \<Rightarrow> bool) \<Rightarrow> 'a pqueue \<Rightarrow> (nat \<times> nat) list \<Rightarrow> (nat \<times> 'a) list \<Rightarrow> ('a pqueue \<times> (nat \<times> nat) list) option" where
  "pqueue_utopn_rest oper opereq differs h duplicates [] = Some (h, duplicates)"
| "pqueue_utopn_rest oper opereq differs h duplicates ((idx, v) # t) =
    (if h = [] then None
     else if opereq (snd (h ! 0)) v then
       case BUNfnd differs (map snd h) v of
         None \<Rightarrow> do {
           h' \<leftarrow> pqueue_topreplace oper h idx v;
           pqueue_utopn_rest oper opereq differs h'
             (BUNdelHead duplicates (fst (h ! 0)) @ [(idx, idx)]) t
         }
       | Some p \<Rightarrow> pqueue_utopn_rest oper opereq differs h (duplicates @ [(fst (h ! p), idx)]) t
     else pqueue_utopn_rest oper opereq differs h duplicates t)"

definition pqueue_utopn :: "('a \<Rightarrow> 'a \<Rightarrow> bool) \<Rightarrow> ('a \<Rightarrow> 'a \<Rightarrow> bool) \<Rightarrow> ('a \<Rightarrow> 'a \<Rightarrow> bool) \<Rightarrow> (nat \<times> 'a) list \<Rightarrow> int \<Rightarrow> ('a pqueue \<times> (nat \<times> nat) list) option" where
  "pqueue_utopn oper opereq differs t N =
    (let n = (if N \<noteq> wrd_nil \<and> N \<ge> 0 \<and> N \<le> BUN_MAX then nat N else length t);
         (h, duplicates, rest) = pqueue_utopn_fill oper differs n 0 [] [] t
     in pqueue_utopn_rest oper opereq differs h duplicates rest)"

subsection \<open>Instances\<close>

text \<open>The integer instances of the macro with the operator each is given.\<close>

datatype pqname = btemin | btemax | shtmin | shtmax | intmin | intmax | wrdmin | wrdmax
  | oidmin | oidmax | lngmin | lngmax

fun pq_oper :: "pqname \<Rightarrow> int \<Rightarrow> int \<Rightarrow> bool" where
  "pq_oper btemin = (<)"
| "pq_oper btemax = (>)"
| "pq_oper shtmin = (<)"
| "pq_oper shtmax = (>)"
| "pq_oper intmin = (<)"
| "pq_oper intmax = (>)"
| "pq_oper wrdmin = (<)"
| "pq_oper wrdmax = (<)"
| "pq_oper oidmin = (>)"
| "pq_oper oidmax = (>)"
| "pq_oper lngmin = (<)"
| "pq_oper lngmax = (>)"

text \<open>
  The fallback for any type, with the type's comparison function.  The functions repeat
  the bodies of the macro.  In \<^verbatim>\<open>heap2bat_anymin\<close> the old value \<^verbatim>\<open>ov\<close> is a pointer: for a
  type of fixed size it points to the first slot of the queue, so that the comparison
  sees the new value on both sides.
\<close>

definition anymin :: "('a \<Rightarrow> 'a \<Rightarrow> int) \<Rightarrow> 'a \<Rightarrow> 'a \<Rightarrow> bool" where
  "anymin cmp x y \<longleftrightarrow> cmp x y < 0"

definition anymax :: "('a \<Rightarrow> 'a \<Rightarrow> int) \<Rightarrow> 'a \<Rightarrow> 'a \<Rightarrow> bool" where
  "anymax cmp x y \<longleftrightarrow> cmp x y > 0"

definition any_differs :: "bool \<Rightarrow> ('a \<Rightarrow> 'a \<Rightarrow> int) \<Rightarrow> 'a \<Rightarrow> 'a \<Rightarrow> bool" where
  "any_differs varsized cmp ov v \<longleftrightarrow> cmp (if varsized then ov else v) v \<noteq> 0"

definition pqueue_enqueue_anymin :: "('a \<Rightarrow> 'a \<Rightarrow> int) \<Rightarrow> 'a pqueue \<Rightarrow> nat \<Rightarrow> 'a \<Rightarrow> 'a pqueue" where
  "pqueue_enqueue_anymin cmp = pqueue_enqueue (anymin cmp)"

definition pqueue_movedowntop_anymin :: "('a \<Rightarrow> 'a \<Rightarrow> int) \<Rightarrow> 'a pqueue \<Rightarrow> 'a pqueue" where
  "pqueue_movedowntop_anymin cmp = pqueue_movedowntop (anymin cmp)"

definition pqueue_dequeue_anymin :: "('a \<Rightarrow> 'a \<Rightarrow> int) \<Rightarrow> 'a pqueue \<Rightarrow> 'a pqueue option" where
  "pqueue_dequeue_anymin cmp = pqueue_dequeue (anymin cmp)"

definition pqueue_topreplace_anymin :: "('a \<Rightarrow> 'a \<Rightarrow> int) \<Rightarrow> 'a pqueue \<Rightarrow> nat \<Rightarrow> 'a \<Rightarrow> 'a pqueue option" where
  "pqueue_topreplace_anymin cmp = pqueue_topreplace (anymin cmp)"

definition heap2bat_anymin :: "bool \<Rightarrow> ('a \<Rightarrow> 'a \<Rightarrow> int) \<Rightarrow> 'a pqueue \<Rightarrow> (nat \<times> nat) list" where
  "heap2bat_anymin varsized cmp = heap2bat (anymin cmp) (any_differs varsized cmp)"

definition pqueue_topn_anymin :: "bool \<Rightarrow> ('a \<Rightarrow> 'a \<Rightarrow> int) \<Rightarrow> (nat \<times> 'a) list \<Rightarrow> int \<Rightarrow> (nat \<times> nat) list option" where
  "pqueue_topn_anymin varsized cmp = pqueue_topn (anymin cmp) (any_differs varsized cmp)"

definition pqueue_topn_voidanymin :: "bool \<Rightarrow> ('a \<Rightarrow> 'a \<Rightarrow> int) \<Rightarrow> nat \<Rightarrow> 'a list \<Rightarrow> int \<Rightarrow> (nat \<times> nat) list option" where
  "pqueue_topn_voidanymin varsized cmp = pqueue_topn_void (anymin cmp) (any_differs varsized cmp)"

definition pqueue_utopn_anymin :: "('a \<Rightarrow> 'a \<Rightarrow> int) \<Rightarrow> (nat \<times> 'a) list \<Rightarrow> int \<Rightarrow> ('a pqueue \<times> (nat \<times> nat) list) option" where
  "pqueue_utopn_anymin cmp =
    pqueue_utopn (anymin cmp) (\<lambda>x y. cmp x y \<le> 0) (\<lambda>x y. cmp x y \<noteq> 0)"

definition pqueue_enqueue_anymax :: "('a \<Rightarrow> 'a \<Rightarrow> int) \<Rightarrow> 'a pqueue \<Rightarrow> nat \<Rightarrow> 'a \<Rightarrow> 'a pqueue" where
  "pqueue_enqueue_anymax cmp = pqueue_enqueue (anymax cmp)"

definition pqueue_movedowntop_anymax :: "('a \<Rightarrow> 'a \<Rightarrow> int) \<Rightarrow> 'a pqueue \<Rightarrow> 'a pqueue" where
  "pqueue_movedowntop_anymax cmp = pqueue_movedowntop (anymax cmp)"

definition pqueue_dequeue_anymax :: "('a \<Rightarrow> 'a \<Rightarrow> int) \<Rightarrow> 'a pqueue \<Rightarrow> 'a pqueue option" where
  "pqueue_dequeue_anymax cmp = pqueue_dequeue (anymax cmp)"

definition pqueue_topreplace_anymax :: "('a \<Rightarrow> 'a \<Rightarrow> int) \<Rightarrow> 'a pqueue \<Rightarrow> nat \<Rightarrow> 'a \<Rightarrow> 'a pqueue option" where
  "pqueue_topreplace_anymax cmp = pqueue_topreplace (anymax cmp)"

definition heap2bat_anymax :: "bool \<Rightarrow> ('a \<Rightarrow> 'a \<Rightarrow> int) \<Rightarrow> 'a pqueue \<Rightarrow> (nat \<times> nat) list" where
  "heap2bat_anymax varsized cmp = heap2bat (anymax cmp) (any_differs varsized cmp)"

definition pqueue_topn_anymax :: "bool \<Rightarrow> ('a \<Rightarrow> 'a \<Rightarrow> int) \<Rightarrow> (nat \<times> 'a) list \<Rightarrow> int \<Rightarrow> (nat \<times> nat) list option" where
  "pqueue_topn_anymax varsized cmp = pqueue_topn (anymax cmp) (any_differs varsized cmp)"

definition pqueue_topn_voidanymax :: "bool \<Rightarrow> ('a \<Rightarrow> 'a \<Rightarrow> int) \<Rightarrow> nat \<Rightarrow> 'a list \<Rightarrow> int \<Rightarrow> (nat \<times> nat) list option" where
  "pqueue_topn_voidanymax varsized cmp = pqueue_topn_void (anymax cmp) (any_differs varsized cmp)"

definition pqueue_utopn_anymax :: "('a \<Rightarrow> 'a \<Rightarrow> int) \<Rightarrow> (nat \<times> 'a) list \<Rightarrow> int \<Rightarrow> ('a pqueue \<times> (nat \<times> nat) list) option" where
  "pqueue_utopn_anymax cmp =
    pqueue_utopn (anymax cmp) (\<lambda>x y. cmp x y \<ge> 0) (\<lambda>x y. cmp x y \<noteq> 0)"

subsection \<open>The heap invariant\<close>

definition is_pqueue :: "('a \<Rightarrow> 'a \<Rightarrow> bool) \<Rightarrow> 'a pqueue \<Rightarrow> bool" where
  "is_pqueue oper h \<longleftrightarrow> (\<forall>i<length h. 0 < i \<longrightarrow> \<not> oper (snd (h ! i)) (snd (h ! parent i)))"

text \<open>The invariant of the loop that moves an element up, and of the one that moves it down.\<close>

definition pqueue_up :: "('a \<Rightarrow> 'a \<Rightarrow> bool) \<Rightarrow> 'a pqueue \<Rightarrow> nat \<Rightarrow> bool" where
  "pqueue_up oper h p \<longleftrightarrow> p < length h \<and>
    (\<forall>i<length h. 0 < i \<longrightarrow> i \<noteq> p \<longrightarrow> \<not> oper (snd (h ! i)) (snd (h ! parent i))) \<and>
    (\<forall>i<length h. 0 < i \<longrightarrow> parent i = p \<longrightarrow> 0 < p \<longrightarrow> \<not> oper (snd (h ! i)) (snd (h ! parent p)))"

definition pqueue_down :: "('a \<Rightarrow> 'a \<Rightarrow> bool) \<Rightarrow> 'a pqueue \<Rightarrow> nat \<Rightarrow> bool" where
  "pqueue_down oper h p \<longleftrightarrow>
    (\<forall>i<length h. 0 < i \<longrightarrow> parent i \<noteq> p \<longrightarrow> \<not> oper (snd (h ! i)) (snd (h ! parent i))) \<and>
    (\<forall>i<length h. 0 < i \<longrightarrow> parent i = p \<longrightarrow> 0 < p \<longrightarrow> \<not> oper (snd (h ! i)) (snd (h ! parent p)))"

lemma parent_iff: "0 < i \<Longrightarrow> parent i = p \<longleftrightarrow> i = p * 2 + 1 \<or> i = p * 2 + 2"
  by (auto simp: parent_def elim!: oddE evenE split: if_splits) presburger+

lemma parent_bound: "0 < i \<Longrightarrow> i \<le> n \<Longrightarrow> parent i < n \<and> parent i \<noteq> n"
  using parent_less [of i] by auto

lemma nth_ht_swap:
  "i < length h \<Longrightarrow> j < length h \<Longrightarrow> k < length h \<Longrightarrow>
   ht_swap h i j ! k = (if k = j then h ! i else if k = i then h ! j else h ! k)"
  by (auto simp: ht_swap_def nth_list_update)

lemma mset_ht_swap: "i < length h \<Longrightarrow> j < length h \<Longrightarrow> mset (ht_swap h i j) = mset h"
  by (simp add: ht_swap_def mset_swap)

lemma mset_pqueue_moveup: "p < length h \<Longrightarrow> mset (pqueue_moveup oper h p) = mset h"
proof (induction oper h p rule: pqueue_moveup.induct)
  case (1 oper h p)
  show ?case
  proof (cases "0 < p \<and> oper (snd (h ! p)) (snd (h ! parent p))")
    case True
    then have "parent p < length h" using parent_less [of p] "1.prems" by linarith
    with True 1 show ?thesis by (subst pqueue_moveup.simps) (simp add: mset_ht_swap)
  next
    case False
    then show ?thesis by (subst pqueue_moveup.simps) auto
  qed
qed

lemma mset_pqueue_movedown: "mset (pqueue_movedown oper h p) = mset h"
  by (induction oper h p rule: pqueue_movedown.induct)
     (subst pqueue_movedown.simps, auto simp: mset_ht_swap Let_def)

lemma mset_pqueue_enqueue: "mset (pqueue_enqueue oper h idx el) = add_mset (idx, el) (mset h)"
  by (simp add: pqueue_enqueue_def mset_pqueue_moveup)

lemma pqueue_enqueue_neq [simp]: "pqueue_enqueue oper h idx el \<noteq> []"
  using mset_pqueue_enqueue [of oper h idx el] by (metis mset.simps(1) add_mset_not_empty)

lemma length_pqueue_enqueue [simp]: "length (pqueue_enqueue oper h idx el) = Suc (length h)"
  using arg_cong [OF mset_pqueue_enqueue [of oper h idx el], of size] by simp

lemma mset_pqueue_dequeue:
  assumes "pqueue_dequeue oper h = Some h'"
  shows "mset h = add_mset (h ! 0) (mset h')"
proof -
  from assms have h: "h \<noteq> []" and
    h': "mset h' = mset (butlast (ht_swap h 0 (length h - 1)))"
    by (auto simp: pqueue_dequeue_def pqueue_movedowntop_def mset_pqueue_movedown split: if_splits)
  have ne: "ht_swap h 0 (length h - 1) \<noteq> []" using h by (metis length_0_conv length_ht_swap)
  have "last (ht_swap h 0 (length h - 1)) = h ! 0"
    using h ne by (simp add: last_conv_nth nth_ht_swap)
  then have "mset (ht_swap h 0 (length h - 1)) = add_mset (h ! 0) (mset h')"
    using h' arg_cong [OF append_butlast_last_id [OF ne], of mset] by simp
  then show ?thesis using h by (simp add: mset_ht_swap)
qed

lemma mset_pqueue_replace:
  assumes "h \<noteq> []"
  shows "mset (pqueue_movedowntop oper (h[0 := x])) = mset (x # tl h)"
  using assms by (cases h) (simp_all add: pqueue_movedowntop_def mset_pqueue_movedown)

text \<open>The groups that \<open>heap2bat\<close> forms, as a function of the order of removal.\<close>

fun groups :: "('a \<Rightarrow> 'a \<Rightarrow> bool) \<Rightarrow> nat \<Rightarrow> 'a \<Rightarrow> (nat \<times> 'a) list \<Rightarrow> (nat \<times> nat) list" where
  "groups differs oo ov [] = []"
| "groups differs oo ov ((k, v) # ds) =
    (if differs ov v then (k, k) # groups differs k v ds else (k, oo) # groups differs oo ov ds)"

lemma map_fst_groups: "map fst (groups differs oo ov ds) = map fst ds"
  by (induction differs oo ov ds rule: groups.induct) auto

text \<open>
  The selection a top-N query asks for: \<open>n\<close> of the pairs, best first, and no pair left
  out is better than one that is selected.
\<close>

definition is_topn :: "('a \<Rightarrow> 'a \<Rightarrow> bool) \<Rightarrow> nat \<Rightarrow> (nat \<times> 'a) list \<Rightarrow> (nat \<times> 'a) list \<Rightarrow> bool" where
  "is_topn oper n t sel \<longleftrightarrow> mset sel \<subseteq># mset t \<and> length sel = n \<and>
    sorted_wrt (\<lambda>x y. \<not> oper (snd x) (snd y)) sel \<and>
    (\<forall>x \<in># mset t - mset sel. \<forall>y \<in> set sel. \<not> oper (snd y) (snd x))"

definition tag_group :: "('a \<Rightarrow> 'a \<Rightarrow> bool) \<Rightarrow> (nat \<times> 'a) list \<Rightarrow> (nat \<times> nat) list" where
  "tag_group differs sel =
    map (\<lambda>x. (fst x, fst (last (filter (\<lambda>y. \<not> differs (snd y) (snd x)) sel)))) sel"

subsection \<open>The order of a queue\<close>

text \<open>
  What the operations need of \<^verbatim>\<open>OPER\<close>: it is asymmetric and its negation is transitive.
  \<open>differs\<close> tells values apart that the order tells apart.
\<close>

locale heap_order =
  fixes oper :: "'a \<Rightarrow> 'a \<Rightarrow> bool"
  assumes asym: "oper x y \<Longrightarrow> \<not> oper y x"
    and neg_trans: "\<not> oper x y \<Longrightarrow> \<not> oper y z \<Longrightarrow> \<not> oper x z"
begin

lemma irrefl: "\<not> oper x x"
  using asym by blast

lemma pqueue_up_swap:
  assumes up: "pqueue_up oper h p" and "0 < p" and less: "oper (snd (h ! p)) (snd (h ! parent p))"
  shows "pqueue_up oper (ht_swap h (parent p) p) (parent p)"
proof -
  let ?q = "parent p" and ?h = "ht_swap h (parent p) p"
  have p: "p < length h" "?q < p" "?q < length h"
    using up parent_less [OF \<open>0 < p\<close>] by (auto simp: pqueue_up_def)
  have ord: "\<not> oper (snd (h ! i)) (snd (h ! parent i))" if "i < length h" "0 < i" "i \<noteq> p" for i
    using up that by (simp add: pqueue_up_def)
  have grand: "\<not> oper (snd (h ! i)) (snd (h ! ?q))" if "i < length h" "0 < i" "parent i = p" for i
    using up that \<open>0 < p\<close> by (simp add: pqueue_up_def)
  have 1: "\<not> oper (snd (?h ! i)) (snd (?h ! parent i))" if i: "i < length h" "0 < i" "i \<noteq> ?q" for i
  proof -
    have pi: "parent i < i" "parent i < length h" using parent_less [of i] i by auto
    consider "i = p" | "i \<noteq> p" "parent i = p" | "i \<noteq> p" "parent i = ?q"
      | "i \<noteq> p" "parent i \<noteq> p" "parent i \<noteq> ?q" by blast
    then show ?thesis
    proof cases
      case 1 with p less show ?thesis by (simp add: nth_ht_swap asym)
    next
      case 2 with p i pi grand [of i] show ?thesis by (simp add: nth_ht_swap)
    next
      case 3
      with ord [of i] i have "\<not> oper (snd (h ! i)) (snd (h ! p))"
        using neg_trans asym [OF less] by metis
      with 3 p i pi show ?thesis by (simp add: nth_ht_swap)
    next
      case 4 with p i pi ord [of i] show ?thesis by (simp add: nth_ht_swap)
    qed
  qed
  have 2: "\<not> oper (snd (?h ! i)) (snd (?h ! parent ?q))"
    if i: "i < length h" "0 < i" "parent i = ?q" and "0 < ?q" for i
  proof -
    have q: "parent ?q < ?q" using parent_less \<open>0 < ?q\<close> by blast
    have top: "\<not> oper (snd (h ! ?q)) (snd (h ! parent ?q))" using ord [of ?q] p \<open>0 < ?q\<close> by simp
    have "\<not> oper (snd (h ! i)) (snd (h ! parent ?q))" if "i \<noteq> p"
      using ord [of i] i that top neg_trans by metis
    moreover have "i \<noteq> ?q" using parent_less [OF i(2)] i(3) by simp
    moreover have "?h ! parent ?q = h ! parent ?q" using p q by (simp add: nth_ht_swap)
    moreover have "?h ! i = (if i = p then h ! ?q else h ! i)"
      using p i \<open>i \<noteq> ?q\<close> by (simp add: nth_ht_swap)
    ultimately show ?thesis using top by (cases "i = p") simp_all
  qed
  from 1 2 p show ?thesis by (simp add: pqueue_up_def)
qed

lemma is_pqueue_moveup: "pqueue_up oper h p \<Longrightarrow> is_pqueue oper (pqueue_moveup oper h p)"
proof (induction p arbitrary: h rule: less_induct)
  case (less p)
  show ?case
  proof (cases "0 < p \<and> oper (snd (h ! p)) (snd (h ! parent p))")
    case True
    then show ?thesis
      using less pqueue_up_swap parent_less by (subst pqueue_moveup.simps) simp
  next
    case False
    then have "is_pqueue oper h" using less.prems by (auto simp: pqueue_up_def is_pqueue_def)
    then show ?thesis using False by (subst pqueue_moveup.simps) auto
  qed
qed

lemma is_pqueue_enqueue:
  assumes "is_pqueue oper h"
  shows "is_pqueue oper (pqueue_enqueue oper h idx el)"
proof -
  have "pqueue_up oper (h @ [(idx, el)]) (length h)"
    using assms parent_bound [of _ "length h"]
    by (auto simp: pqueue_up_def is_pqueue_def nth_append less_Suc_eq)
  then show ?thesis by (simp add: pqueue_enqueue_def is_pqueue_moveup)
qed

lemma pqueue_down_swap:
  assumes down: "pqueue_down oper h p" and s: "s < length h" "0 < s" "parent s = p"
    and least: "\<And>c. c < length h \<Longrightarrow> 0 < c \<Longrightarrow> parent c = p \<Longrightarrow> \<not> oper (snd (h ! c)) (snd (h ! s))"
    and less: "oper (snd (h ! s)) (snd (h ! p))"
  shows "pqueue_down oper (ht_swap h p s) s"
proof -
  let ?h = "ht_swap h p s"
  have p: "p < s" "p < length h" using parent_less [OF s(2)] s by auto
  have ord: "\<not> oper (snd (h ! i)) (snd (h ! parent i))" if "i < length h" "0 < i" "parent i \<noteq> p" for i
    using down that by (simp add: pqueue_down_def)
  have 1: "\<not> oper (snd (?h ! i)) (snd (?h ! parent i))" if i: "i < length h" "0 < i" "parent i \<noteq> s" for i
  proof -
    have pi: "parent i < i" "parent i < length h" using parent_less [of i] i by auto
    consider "i = s" | "i \<noteq> s" "parent i = p" | "i = p" | "i \<noteq> s" "i \<noteq> p" "parent i \<noteq> p" by blast
    then show ?thesis
    proof cases
      case 1 with p s less show ?thesis by (simp add: nth_ht_swap asym)
    next
      case 2 with p s i pi least [of i] show ?thesis by (simp add: nth_ht_swap)
    next
      case 3
      then have "\<not> oper (snd (h ! s)) (snd (h ! parent p))"
        using down s i by (simp add: pqueue_down_def)
      with 3 p s i pi show ?thesis by (simp add: nth_ht_swap)
    next
      case 4 with p s i pi ord [of i] show ?thesis by (simp add: nth_ht_swap)
    qed
  qed
  have 2: "\<not> oper (snd (?h ! i)) (snd (?h ! parent s))" if i: "i < length h" "0 < i" "parent i = s" for i
  proof -
    have "i \<noteq> s" "i \<noteq> p" using parent_less [OF i(2)] i p by auto
    with ord [of i] i p s show ?thesis by (simp add: nth_ht_swap)
  qed
  from 1 2 show ?thesis by (simp add: pqueue_down_def)
qed

lemma is_pqueue_movedown: "pqueue_down oper h p \<Longrightarrow> is_pqueue oper (pqueue_movedown oper h p)"
proof (induction "length h - p" arbitrary: h p rule: less_induct)
  case less
  define s where "s = (if p * 2 + 2 < length h then
      if oper (snd (h ! (p * 2 + 1))) (snd (h ! (p * 2 + 2))) then p * 2 + 1 else p * 2 + 2
    else p * 2 + 1)"
  show ?case
  proof (cases "p * 2 + 1 < length h")
    case True
    then have step: "pqueue_movedown oper h p =
        (if oper (snd (h ! s)) (snd (h ! p)) then pqueue_movedown oper (ht_swap h p s) s else h)"
      by (subst pqueue_movedown.simps) (simp only: Let_def s_def if_True)
    have s: "s < length h" "p < s" "parent s = p" using True by (auto simp: s_def parent_iff)
    have least: "\<not> oper (snd (h ! c)) (snd (h ! s))" if "c < length h" "0 < c" "parent c = p" for c
    proof -
      have "c = p * 2 + 1 \<or> c = p * 2 + 2" using that parent_iff by blast
      then show ?thesis
        using that asym [of "snd (h ! (p * 2 + 1))" "snd (h ! (p * 2 + 2))"] irrefl
        by (auto simp: s_def)
    qed
    show ?thesis
    proof (cases "oper (snd (h ! s)) (snd (h ! p))")
      case swap: True
      have "is_pqueue oper (pqueue_movedown oper (ht_swap h p s) s)"
      proof (rule less.hyps)
        show "length (ht_swap h p s) - s < length h - p" using s by simp
        show "pqueue_down oper (ht_swap h p s) s"
          using s by (intro pqueue_down_swap [OF less.prems _ _ s(3) least swap]) simp_all
      qed
      then show ?thesis using swap by (simp add: step)
    next
      case False
      have "\<not> oper (snd (h ! c)) (snd (h ! parent c))" if "c < length h" "0 < c" for c
        using less.prems neg_trans [OF least [OF that] False] that
        by (cases "parent c = p") (auto simp: pqueue_down_def)
      then have "is_pqueue oper h" by (simp add: is_pqueue_def)
      then show ?thesis using False by (simp add: step)
    qed
  next
    case False
    then have "is_pqueue oper h"
      using less.prems by (auto simp: is_pqueue_def pqueue_down_def parent_iff)
    then show ?thesis using False by (subst pqueue_movedown.simps) simp
  qed
qed

lemma root_least:
  assumes "is_pqueue oper h" "x \<in> set h"
  shows "\<not> oper (snd x) (snd (h ! 0))"
proof -
  have "\<not> oper (snd (h ! i)) (snd (h ! 0))" if "i < length h" for i
    using that
  proof (induction i rule: less_induct)
    case (less i)
    show ?case
    proof (cases "i = 0")
      case False
      then have "parent i < i" using parent_less by blast
      then show ?thesis using less assms(1) False neg_trans
        by (metis is_pqueue_def less_trans neq0_conv)
    qed (auto dest: asym)
  qed
  then show ?thesis using assms(2) by (metis in_set_conv_nth)
qed

lemma is_pqueue_dequeue:
  assumes h: "is_pqueue oper h" and d: "pqueue_dequeue oper h = Some h'"
  shows "is_pqueue oper h'"
proof -
  let ?b = "butlast (ht_swap h 0 (length h - 1))"
  from d have ne: "h \<noteq> []" and h': "h' = pqueue_movedown oper ?b 0"
    by (auto simp: pqueue_dequeue_def pqueue_movedowntop_def split: if_splits)
  have b: "?b ! i = h ! i" if "i < length h - 1" "0 < i" for i
    using that nth_ht_swap [of 0 h "length h - 1" i] ne by (simp add: nth_butlast)
  have "\<not> oper (snd (?b ! i)) (snd (?b ! parent i))" if "i < length h - 1" "0 < i" "parent i \<noteq> 0" for i
    using h b [of i] b [of "parent i"] parent_less [of i] that by (simp add: is_pqueue_def)
  then have "pqueue_down oper ?b 0" by (simp add: pqueue_down_def)
  then show ?thesis by (simp add: h' is_pqueue_movedown)
qed

lemma is_pqueue_replace:
  assumes h: "is_pqueue oper h"
  shows "is_pqueue oper (pqueue_movedowntop oper (h[0 := x]))"
proof -
  have "pqueue_down oper (h[0 := x]) 0"
    using h parent_less by (auto simp: pqueue_down_def is_pqueue_def)
  then show ?thesis by (simp add: pqueue_movedowntop_def is_pqueue_movedown)
qed

lemma heap2bat_loop_drain:
  "is_pqueue oper h \<Longrightarrow>
   \<exists>ds. mset ds = mset h \<and> sorted_wrt (\<lambda>x y. \<not> oper (snd y) (snd x)) ds \<and> (h \<noteq> [] \<longrightarrow> hd ds = h ! 0) \<and>
     heap2bat_loop oper differs h oo ov n = n @ groups differs oo ov ds"
proof (induction "length h" arbitrary: h oo ov n rule: less_induct)
  case less
  show ?case
  proof (cases "pqueue_dequeue oper h")
    case None
    then have "h = []" by (simp add: pqueue_dequeue_def split: if_splits)
    then show ?thesis
      by (intro exI [of _ "[]"]) (subst heap2bat_loop.simps, simp add: pqueue_dequeue_def)
  next
    case (Some h')
    let ?k = "fst (h ! 0)" and ?v = "snd (h ! 0)"
    note m = mset_pqueue_dequeue [OF Some]
    have l: "length h' < length h" using arg_cong [OF m, of size] by simp
    obtain oo' ov' where g: "(oo', ov') = (if differs ov ?v then (?k, ?v) else (oo, ov))" by metis
    obtain ds where ds: "mset ds = mset h'" "sorted_wrt (\<lambda>x y. \<not> oper (snd y) (snd x)) ds"
      "heap2bat_loop oper differs h' oo' ov' (n @ [(?k, oo')]) =
        (n @ [(?k, oo')]) @ groups differs oo' ov' ds"
      using less.hyps [OF l is_pqueue_dequeue [OF less.prems Some]] by blast
    have "\<not> oper (snd x) ?v" if "x \<in> set ds" for x
      using root_least [OF less.prems, of x] that mset_eq_setD [OF ds(1)] m
      by (metis insertCI set_mset_add_mset_insert set_mset_mset)
    moreover have "heap2bat_loop oper differs h oo ov n = n @ groups differs oo ov (h ! 0 # ds)"
      using g ds(3) Some
      by (subst heap2bat_loop.simps, cases "h ! 0") (auto simp: Let_def split: if_splits)
    ultimately show ?thesis using ds m by (intro exI [of _ "h ! 0 # ds"]) auto
  qed
qed

text \<open>What the queue holds of the values \<open>p\<close> seen so far: none that was dropped is better.\<close>

definition selects :: "'a pqueue \<Rightarrow> (nat \<times> 'a) list \<Rightarrow> bool" where
  "selects h p \<longleftrightarrow> is_pqueue oper h \<and> mset h \<subseteq># mset p \<and>
    (\<forall>x \<in># mset p - mset h. \<forall>y \<in> set h. \<not> oper (snd y) (snd x))"

lemma selects_enqueue_all:
  "is_pqueue oper h \<Longrightarrow> mset h = mset p \<Longrightarrow>
   is_pqueue oper (pqueue_enqueue_all oper h t) \<and> mset (pqueue_enqueue_all oper h t) = mset (p @ t)"
proof (induction t arbitrary: h p)
  case (Cons x t)
  then show ?case
    using Cons.IH [of "pqueue_enqueue oper h (fst x) (snd x)" "p @ [x]"]
    by (cases x) (simp add: is_pqueue_enqueue mset_pqueue_enqueue)
qed simp

lemma selects_topreplace:
  assumes "selects h p" "h \<noteq> []"
  shows "\<exists>h'. pqueue_topreplace oper h idx v = Some h' \<and> selects h' (p @ [(idx, v)]) \<and>
    length h' = length h"
proof (cases "oper (snd (h ! 0)) v")
  case False
  have "\<not> oper (snd y) v" if "y \<in> set h" for y
    using root_least [of h y] assms that False neg_trans by (auto simp: selects_def)
  moreover have sub: "mset h \<subseteq># mset p" using assms(1) by (simp add: selects_def)
  moreover have "mset (p @ [(idx, v)]) - mset h = add_mset (idx, v) (mset p - mset h)"
    "mset h \<subseteq># mset (p @ [(idx, v)])"
    using sub by (auto simp: mset_subset_eq_exists_conv)
  ultimately have "selects h (p @ [(idx, v)])"
    using assms(1) by (auto simp only: selects_def set_mset_add_mset_insert snd_conv)
  then show ?thesis using assms(2) False by (simp add: pqueue_topreplace_def)
next
  case True
  let ?h = "pqueue_movedowntop oper (h[0 := (idx, v)])"
  have h: "h = h ! 0 # tl h" using assms(2) by (cases h) auto
  have q: "is_pqueue oper h" using assms(1) by (simp add: selects_def)
  have m: "mset ?h = add_mset (idx, v) (mset (tl h))" using assms(2) by (simp add: mset_pqueue_replace)
  have mh: "mset h = add_mset (h ! 0) (mset (tl h))" using h by (metis mset.simps(2))
  have sub: "mset h \<subseteq># mset p" using assms(1) by (simp add: selects_def)
  have rest: "mset (p @ [(idx, v)]) - mset ?h = add_mset (h ! 0) (mset p - mset h)"
    using sub m mh by (auto simp: mset_subset_eq_exists_conv)
  have old: "\<not> oper (snd y) (snd (h ! 0))" if "y \<in> set h" for y
    using root_least [OF q that] .
  have dropped: "\<not> oper (snd y) (snd x)" if "y \<in> set h" "x \<in># mset p - mset h" for x y
    using assms(1) that by (simp add: selects_def)
  have new: "\<not> oper v (snd (h ! 0))" using True asym by blast
  have in_h: "h ! 0 \<in> set h" using assms(2) by simp
  have set: "set ?h = insert (idx, v) (set (tl h))" using m by (metis set_mset_add_mset_insert set_mset_mset)
  have "\<not> oper (snd y) (snd x)" if y: "y \<in> set ?h" and x: "x \<in># mset (p @ [(idx, v)]) - mset ?h" for x y
  proof -
    have "y = (idx, v) \<or> y \<in> set h" using y set h by (metis insertE list.set_intros(2))
    moreover have "x = h ! 0 \<or> x \<in># mset p - mset h" using x rest by simp
    ultimately show ?thesis
      using old [of y] dropped [of y x] new neg_trans [OF new dropped [OF in_h, of x]] by auto
  qed
  moreover have "mset ?h \<subseteq># mset (p @ [(idx, v)])"
    using sub m mh by (auto simp: mset_subset_eq_exists_conv)
  moreover have "length ?h = length h"
    using arg_cong [OF m, of size] arg_cong [OF mh, of size] by simp
  ultimately show ?thesis
    using True assms(2) is_pqueue_replace [OF q] by (auto simp: pqueue_topreplace_def selects_def)
qed

lemma selects_topreplace_all:
  "selects h p \<Longrightarrow> h \<noteq> [] \<or> t = [] \<Longrightarrow>
   \<exists>h'. pqueue_topreplace_all oper h t = Some h' \<and> selects h' (p @ t) \<and> length h' = length h"
proof (induction t arbitrary: h p)
  case (Cons x t)
  obtain idx v where x: "x = (idx, v)" by (cases x)
  obtain h1 where h1: "pqueue_topreplace oper h idx v = Some h1" "selects h1 (p @ [(idx, v)])"
    "length h1 = length h"
    using selects_topreplace Cons.prems by blast
  then have "h1 \<noteq> []" using Cons.prems by auto
  then show ?case using Cons.IH [of h1 "p @ [(idx, v)]"] h1 x by simp
qed simp

lemma groups_sorted:
  assumes d: "\<And>x y. differs x y \<longleftrightarrow> oper x y \<or> oper y x"
  shows "sorted_wrt (\<lambda>x y. \<not> oper (snd y) (snd x)) ((oo, ov) # ds) \<Longrightarrow>
    groups differs oo ov ds =
      map (\<lambda>x. (fst x, fst (hd (filter (\<lambda>y. \<not> differs (snd y) (snd x)) ((oo, ov) # ds))))) ds"
proof (induction ds arbitrary: oo ov)
  case (Cons x ds)
  obtain k v where x: "x = (k, v)" by (cases x)
  have ord: "\<not> oper v ov" "\<forall>y \<in> set ds. \<not> oper (snd y) ov \<and> \<not> oper (snd y) v"
    and sds: "sorted_wrt (\<lambda>x y. \<not> oper (snd y) (snd x)) ds"
    using Cons.prems x by auto
  show ?case
  proof (cases "differs ov v")
    case True
    then have "differs ov (snd y)" if "y \<in> set ds" for y
      using d [of ov v] d [of ov "snd y"] ord that neg_trans [of ov "snd y" v] by blast
    then show ?thesis
      using Cons.IH [of k v] Cons.prems True x irrefl by (auto simp: d [of v v])
  next
    case False
    have same: "differs ov w \<Longrightarrow> differs v w" for w
      using False d [of ov v] d [of ov w] d [of v w] neg_trans [of ov v w] neg_trans [of w v ov] by blast
    have "hd (filter (\<lambda>z. \<not> differs (snd z) w) ((oo, ov) # x # ds)) =
        hd (filter (\<lambda>z. \<not> differs (snd z) w) ((oo, ov) # ds))" for w
      using same [of w] x by simp
    then show ?thesis
      using Cons.IH [of oo ov] Cons.prems False x by (simp del: filter.simps) simp
  qed
qed simp

lemma heap2bat_drain:
  assumes h: "is_pqueue oper h"
  shows "\<exists>ds. mset ds = mset h \<and> sorted_wrt (\<lambda>x y. \<not> oper (snd y) (snd x)) ds \<and>
    heap2bat oper differs h = rev (groups differs (fst (hd ds)) (snd (hd ds)) ds)"
  using heap2bat_loop_drain [OF h, of differs "fst (h ! 0)" "snd (h ! 0)" "[]"]
  by (cases "h = []") (auto simp: heap2bat_def)

lemma groups_tag:
  assumes d: "\<And>x y. differs x y \<longleftrightarrow> oper x y \<or> oper y x"
    and ds: "sorted_wrt (\<lambda>x y. \<not> oper (snd y) (snd x)) ds"
  shows "rev (groups differs (fst (hd ds)) (snd (hd ds)) ds) = tag_group differs (rev ds)"
proof (cases ds)
  case (Cons x xs)
  have "groups differs (fst x) (snd x) ds =
      map (\<lambda>z. (fst z, fst (hd (filter (\<lambda>y. \<not> differs (snd y) (snd z)) (x # ds))))) ds"
    using groups_sorted [OF d, where oo = "fst x" and ov = "snd x" and ds = ds] ds Cons irrefl by simp
  also have "\<dots> = rev (tag_group differs (rev ds))"
    by (simp add: tag_group_def Cons rev_map [symmetric] last_rev flip: rev_filter)
  finally show ?thesis by (simp add: Cons)
qed (simp add: tag_group_def)

lemma topn_drain:
  assumes N: "N \<noteq> 0 \<or> t = []" and t: "int (length t) \<le> BUN_MAX"
  shows "\<exists>ds. pqueue_topn oper differs t N =
      Some (rev (groups differs (fst (hd ds)) (snd (hd ds)) ds)) \<and>
    is_topn oper (if 0 \<le> N \<and> N < int (length t) then nat N else length t) t (rev ds)"
proof -
  define n where "n = (if 0 \<le> N \<and> N < int (length t) then nat N else length t)"
  have n: "(if N \<noteq> wrd_nil \<and> N \<ge> 0 \<and> N \<le> BUN_MAX \<and> nat N < length t then nat N else length t) = n"
    using t by (auto simp: n_def)
  let ?h = "pqueue_enqueue_all oper [] (take n t)"
  have h: "is_pqueue oper ?h" "mset ?h = mset (take n t)"
    using selects_enqueue_all [of "[]" "[]" "take n t"] by (simp_all add: is_pqueue_def)
  have "selects ?h (take n t)" using h by (simp add: selects_def)
  moreover have len: "length ?h = n" using arg_cong [OF h(2), of size] by (auto simp: n_def)
  moreover have "?h \<noteq> [] \<or> drop n t = []" using len N by (auto simp: n_def)
  ultimately obtain h' where h': "pqueue_topreplace_all oper ?h (drop n t) = Some h'"
    "selects h' t" "length h' = n"
    using selects_topreplace_all [of ?h "take n t" "drop n t"] by auto
  obtain ds where ds: "mset ds = mset h'" "sorted_wrt (\<lambda>x y. \<not> oper (snd y) (snd x)) ds"
    "heap2bat oper differs h' = rev (groups differs (fst (hd ds)) (snd (hd ds)) ds)"
    using heap2bat_drain [of h' differs] h'(2) by (auto simp: selects_def)
  have "is_topn oper n t (rev ds)"
    using h' ds mset_eq_setD [OF ds(1)] mset_eq_length [OF ds(1)]
    by (simp add: is_topn_def selects_def sorted_wrt_rev)
  moreover have "pqueue_topn oper differs t N = Some (rev (groups differs (fst (hd ds)) (snd (hd ds)) ds))"
    unfolding pqueue_topn_def n Let_def using h'(1) ds(3) by simp
  ultimately show ?thesis unfolding n_def [symmetric] by blast
qed

lemma topn_selects:
  assumes d: "\<And>x y. differs x y \<longleftrightarrow> oper x y \<or> oper y x"
    and N: "N \<noteq> 0 \<or> t = []" and t: "int (length t) \<le> BUN_MAX"
  shows "\<exists>sel. pqueue_topn oper differs t N = Some (tag_group differs sel) \<and>
    is_topn oper (if 0 \<le> N \<and> N < int (length t) then nat N else length t) t sel"
proof -
  obtain ds where ds: "pqueue_topn oper differs t N = Some (rev (groups differs (fst (hd ds)) (snd (hd ds)) ds))"
    "is_topn oper (if 0 \<le> N \<and> N < int (length t) then nat N else length t) t (rev ds)"
    using topn_drain [OF N t] by blast
  then have "sorted_wrt (\<lambda>x y. \<not> oper (snd y) (snd x)) ds" by (simp only: is_topn_def sorted_wrt_rev)
  then show ?thesis using ds groups_tag [OF d] by metis
qed

end

interpretation less: heap_order "(<) :: int \<Rightarrow> int \<Rightarrow> bool"
  by unfold_locales auto

interpretation greater: heap_order "(>) :: int \<Rightarrow> int \<Rightarrow> bool"
  by unfold_locales auto

sublocale atom_order \<subseteq> anymin: heap_order "anymin cmp"
proof
  show "anymin cmp x y \<Longrightarrow> \<not> anymin cmp y x" for x y
    using cmp_swap [of x y] by (simp add: anymin_def)
  show "\<not> anymin cmp x y \<Longrightarrow> \<not> anymin cmp y z \<Longrightarrow> \<not> anymin cmp x z" for x y z
    using cmp_trans [of z y x] cmp_le_swap by (simp add: anymin_def not_less)
qed

sublocale atom_order \<subseteq> anymax: heap_order "anymax cmp"
proof
  show "anymax cmp x y \<Longrightarrow> \<not> anymax cmp y x" for x y
    using cmp_swap [of y x] by (simp add: anymax_def)
  show "\<not> anymax cmp x y \<Longrightarrow> \<not> anymax cmp y z \<Longrightarrow> \<not> anymax cmp x z" for x y z
    using cmp_trans [of x y z] by (simp add: anymax_def not_less)
qed

text \<open>Every instance of the macro is a proper queue.\<close>

lemma pq_oper_cases: "pq_oper nm = (<) \<or> pq_oper nm = (>)"
  by (cases nm) auto

interpretation pq: heap_order "pq_oper nm" for nm
  using pq_oper_cases [of nm] less.heap_order_axioms greater.heap_order_axioms by metis

end
