(* ===== verification/Pqueue_Topn.thy ===== *)
theory Pqueue_Topn
  imports Pqueue
begin

text \<open>
  Top-N queries over the priority queues of \<open>Pqueue\<close>: the selection with one element per
  value (\<^verbatim>\<open>utopn\<close>), and the properties of the instances of the macro.
\<close>

subsection \<open>Lookup and deletion\<close>

lemma BUNfnd_None: "BUNfnd (\<noteq>) (map snd h) v = None \<longleftrightarrow> v \<notin> snd ` set h"
  by (force simp: BUNfnd_def find_None_iff in_set_conv_nth)

lemma BUNfnd_Some: "BUNfnd (\<noteq>) (map snd h) v = Some p \<Longrightarrow> (fst (h ! p), v) \<in> set h"
  using BUNfnd_bound [of "(\<noteq>)" "map snd h" v p] by (auto simp: in_set_conv_nth)

lemma mset_BUNdelete: "p < length b \<Longrightarrow> mset b = add_mset (b ! p) (mset (BUNdelete b p))"
proof (cases b rule: rev_cases)
  case (snoc ys y)
  assume "p < length b"
  then show ?thesis
    using snoc mset_update [of p ys y]
    by (cases "p = length ys") (auto simp: BUNdelete_def nth_append list_update_append nth_mem_mset)
qed simp

lemma set_BUNdelHead: "set (BUNdelHead b k) = {x \<in> set b. fst x \<noteq> k}"
proof (induction b k rule: BUNdelHead.induct)
  case (1 b k)
  show ?case
  proof (cases "BUNfnd (\<noteq>) (map fst b) k")
    case None
    then have "fst x \<noteq> k" if "x \<in> set b" for x
      using that by (fastforce simp: BUNfnd_def find_None_iff in_set_conv_nth)
    then show ?thesis using None by (subst BUNdelHead.simps) auto
  next
    case (Some p)
    then have p: "p < length b" "fst (b ! p) = k" using BUNfnd_bound [OF Some] by auto
    have "set b = insert (b ! p) (set (BUNdelete b p))"
      using arg_cong [OF mset_BUNdelete [OF p(1)], of set_mset] by simp
    then show ?thesis using 1 [OF Some] Some p(2) by (subst BUNdelHead.simps) auto
  qed
qed

subsection \<open>One element per value\<close>

text \<open>
  The same with an order that tells all values apart.  The relation of the pairs seen so far,
  the queue and the duplicates, as sets.
\<close>

locale heap_total = heap_order +
  assumes total: "x \<noteq> y \<Longrightarrow> oper x y \<or> oper y x"
begin

definition uinv :: "(nat \<times> 'a) set \<Rightarrow> (nat \<times> 'a) set \<Rightarrow> (nat \<times> nat) set \<Rightarrow> bool" where
  "uinv P H D \<longleftrightarrow> inj_on fst P \<and> H \<subseteq> P \<and> inj_on snd H \<and> fst ` D \<subseteq> fst ` H \<and>
    (\<forall>k v i. (k, v) \<in> H \<longrightarrow> ((k, i) \<in> D \<longleftrightarrow> (i, v) \<in> P)) \<and>
    (\<forall>x\<in>P. snd x \<notin> snd ` H \<longrightarrow> (\<forall>y\<in>H. oper (snd x) (snd y)))"

lemma trans: "oper x y \<Longrightarrow> oper y z \<Longrightarrow> oper x z"
  using neg_trans asym by metis

lemma uinvD:
  assumes "uinv P H D"
  shows "inj_on fst P" "H \<subseteq> P" "inj_on snd H" "fst ` D \<subseteq> fst ` H"
    "(k, v) \<in> H \<Longrightarrow> (k, i) \<in> D \<longleftrightarrow> (i, v) \<in> P"
    "x \<in> P \<Longrightarrow> snd x \<notin> snd ` H \<Longrightarrow> y \<in> H \<Longrightarrow> oper (snd x) (snd y)"
    "y \<in> H \<Longrightarrow> z \<in> H \<Longrightarrow> fst y = fst z \<Longrightarrow> y = z"
  using assms by (auto simp: uinv_def dest: inj_onD)

lemma uinvI:
  assumes "inj_on fst P" "H \<subseteq> P" "inj_on snd H" "fst ` D \<subseteq> fst ` H"
    "\<And>k v i. (k, v) \<in> H \<Longrightarrow> (k, i) \<in> D \<longleftrightarrow> (i, v) \<in> P"
    "\<And>x y. x \<in> P \<Longrightarrow> snd x \<notin> snd ` H \<Longrightarrow> y \<in> H \<Longrightarrow> oper (snd x) (snd y)"
  shows "uinv P H D"
  using assms by (simp add: uinv_def)

lemma uinv_remove:
  assumes u: "uinv P H D" and r: "r \<in> H" and least: "\<And>y. y \<in> H \<Longrightarrow> y \<noteq> r \<Longrightarrow> oper (snd r) (snd y)"
  shows "uinv P (H - {r}) {d \<in> D. fst d \<noteq> fst r}"
proof (rule uinvI)
  show "fst ` {d \<in> D. fst d \<noteq> fst r} \<subseteq> fst ` (H - {r})"
    using uinvD(4) [OF u] by fastforce
  show "(k, i) \<in> {d \<in> D. fst d \<noteq> fst r} \<longleftrightarrow> (i, v) \<in> P" if "(k, v) \<in> H - {r}" for k v i
    using that uinvD(5) [OF u, of k v i] uinvD(7) [OF u r, of "(k, v)"] by auto
  show "oper (snd x) (snd y)" if "x \<in> P" "snd x \<notin> snd ` (H - {r})" "y \<in> H - {r}" for x y
  proof (cases "snd x = snd r")
    case True then show ?thesis using least that by simp
  next
    case False
    then have "snd x \<notin> snd ` H" using that(2) by auto
    then show ?thesis using uinvD(6) [OF u] that by blast
  qed
qed (use uinvD(1-3) [OF u] in \<open>auto intro: inj_on_diff\<close>)

lemma uinv_insert:
  assumes u: "uinv P H D" and idx: "idx \<notin> fst ` P" and v: "v \<notin> snd ` P"
    and best: "\<And>x. x \<in> P \<Longrightarrow> snd x \<notin> snd ` H \<Longrightarrow> oper (snd x) v"
  shows "uinv (insert (idx, v) P) (insert (idx, v) H) (insert (idx, idx) D)"
proof (rule uinvI)
  have H: "v \<notin> snd ` H" "idx \<notin> fst ` H" using v idx uinvD(2) [OF u] by auto
  have D: "idx \<notin> fst ` D" using uinvD(4) [OF u] H(2) by blast
  show "inj_on fst (insert (idx, v) P)" using uinvD(1) [OF u] idx by auto
  show "insert (idx, v) H \<subseteq> insert (idx, v) P" using uinvD(2) [OF u] by blast
  show "inj_on snd (insert (idx, v) H)" using uinvD(3) [OF u] H(1) by auto
  show "fst ` insert (idx, idx) D \<subseteq> fst ` insert (idx, v) H" using uinvD(4) [OF u] by auto
  show "(k, i) \<in> insert (idx, idx) D \<longleftrightarrow> (i, w) \<in> insert (idx, v) P"
    if "(k, w) \<in> insert (idx, v) H" for k w i
  proof (cases "(k, w) = (idx, v)")
    case True
    moreover have "(idx, i) \<notin> D" "(i, v) \<notin> P" using D v by (auto simp: image_iff)
    ultimately show ?thesis by auto
  next
    case False
    then have kw: "(k, w) \<in> H" using that by blast
    then have "k \<noteq> idx" "w \<noteq> v" using H by (auto simp: image_iff)
    then show ?thesis using uinvD(5) [OF u kw] by simp
  qed
  show "oper (snd x) (snd y)" if "x \<in> insert (idx, v) P" "snd x \<notin> snd ` insert (idx, v) H"
    "y \<in> insert (idx, v) H" for x y
    using that best [of x] uinvD(6) [OF u, of x y] by auto
qed

lemma uinv_dup:
  assumes u: "uinv P H D" and idx: "idx \<notin> fst ` P" and k: "(k, v) \<in> H"
  shows "uinv (insert (idx, v) P) H (insert (k, idx) D)"
proof (rule uinvI)
  show "inj_on fst (insert (idx, v) P)" using uinvD(1) [OF u] idx by auto
  show "fst ` insert (k, idx) D \<subseteq> fst ` H" using uinvD(4) [OF u] k by force
  show "(k', i) \<in> insert (k, idx) D \<longleftrightarrow> (i, w) \<in> insert (idx, v) P" if "(k', w) \<in> H" for k' w i
  proof -
    have "k = k' \<longleftrightarrow> v = w"
      using uinvD(7) [OF u k that] inj_onD [OF uinvD(3) [OF u] _ k that] by auto
    then show ?thesis using uinvD(5) [OF u that, of i] by auto
  qed
  show "oper (snd x) (snd y)" if "x \<in> insert (idx, v) P" "snd x \<notin> snd ` H" "y \<in> H" for x y
    using that imageI [OF k, of snd] uinvD(6) [OF u, of x y] by (cases "x = (idx, v)") simp_all
qed (use uinvD(2,3) [OF u] in auto)

lemma uinv_skip:
  assumes u: "uinv P H D" and idx: "idx \<notin> fst ` P" and worse: "\<And>y. y \<in> H \<Longrightarrow> oper v (snd y)"
  shows "uinv (insert (idx, v) P) H D"
proof (rule uinvI)
  show "inj_on fst (insert (idx, v) P)" using uinvD(1) [OF u] idx by auto
  show "(k, i) \<in> D \<longleftrightarrow> (i, w) \<in> insert (idx, v) P" if "(k, w) \<in> H" for k w i
    using uinvD(5) [OF u that, of i] worse [OF that] irrefl by auto
  show "oper (snd x) (snd y)" if "x \<in> insert (idx, v) P" "snd x \<notin> snd ` H" "y \<in> H" for x y
    using that worse [of y] uinvD(6) [OF u, of x y] by (cases "x = (idx, v)") simp_all
qed (use uinvD(2-4) [OF u] in auto)

definition ustate :: "(nat \<times> 'a) list \<Rightarrow> 'a pqueue \<Rightarrow> (nat \<times> nat) list \<Rightarrow> bool" where
  "ustate p h duplicates \<longleftrightarrow> is_pqueue oper h \<and> distinct h \<and> uinv (set p) (set h) (set duplicates)"

lemma ustate_fill:
  assumes "ustate p h d" "snd ` set p = snd ` set h" "length h = i" "i \<le> n" "distinct (map fst (p @ t))"
    and "pqueue_utopn_fill oper (\<noteq>) n i h d t = (h', d', rest)"
  shows "\<exists>q. p @ t = q @ rest \<and> ustate q h' d' \<and> snd ` set q = snd ` set h' \<and> length h' \<le> n \<and>
    (rest = [] \<or> length h' = n)"
  using assms
proof (induction t arbitrary: p h d i)
  case (Cons x t)
  obtain idx v where x: "x = (idx, v)" by (cases x)
  have idx: "idx \<notin> fst ` set p" using Cons.prems(5) x by auto
  have u: "is_pqueue oper h" "distinct h" "uinv (set p) (set h) (set d)"
    using Cons.prems(1) by (simp_all add: ustate_def)
  show ?case
  proof (cases "i < n")
    case False
    then show ?thesis using Cons.prems x by auto
  next
    case True
    show ?thesis
    proof (cases "BUNfnd (\<noteq>) (map snd h) v")
      case None
      let ?h = "pqueue_enqueue oper h idx v"
      have v: "v \<notin> snd ` set p" using None BUNfnd_None Cons.prems(2) by metis
      have m: "mset ?h = mset ((idx, v) # h)" by (simp add: mset_pqueue_enqueue)
      have "(idx, v) \<notin> set h" using v uinvD(2) [OF u(3)] by force
      then have "distinct ?h" using u(2) mset_eq_imp_distinct_iff [OF m] by simp
      moreover have set: "set ?h = insert (idx, v) (set h)" using mset_eq_setD [OF m] by simp
      moreover have "uinv (insert (idx, v) (set p)) (insert (idx, v) (set h)) (insert (idx, idx) (set d))"
        using Cons.prems(2) by (intro uinv_insert [OF u(3) idx v]) (metis imageI)
      ultimately have "ustate (p @ [x]) ?h (d @ [(idx, idx)])"
        using u(1) x by (simp add: ustate_def is_pqueue_enqueue)
      then show ?thesis
        using Cons.IH [of "p @ [x]" ?h "d @ [(idx, idx)]" "i + 1"] Cons.prems x True None set by simp
    next
      case (Some j)
      have "ustate (p @ [x]) h (d @ [(fst (h ! j), idx)])"
        using uinv_dup [OF u(3) idx BUNfnd_Some [OF Some]] u x by (simp add: ustate_def)
      moreover have "v \<in> snd ` set h" using BUNfnd_Some [OF Some] by force
      ultimately show ?thesis
        using Cons.IH [of "p @ [x]" h "d @ [(fst (h ! j), idx)]" i] Cons.prems x True Some by auto
    qed
  qed
qed auto

lemma ustate_replace:
  assumes u: "ustate p h d" and ne: "h \<noteq> []" and idx: "idx \<notin> fst ` set p"
    and better: "\<not> oper v (snd (h ! 0))" and new: "v \<notin> snd ` set h"
  shows "\<exists>h'. pqueue_topreplace oper h idx v = Some h' \<and> length h' = length h \<and>
    ustate (p @ [(idx, v)]) h' (BUNdelHead d (fst (h ! 0)) @ [(idx, idx)])"
proof -
  let ?r = "h ! 0" and ?h = "pqueue_movedowntop oper (h[0 := (idx, v)])"
  have q: "is_pqueue oper h" "distinct h" and inv: "uinv (set p) (set h) (set d)"
    using u by (simp_all add: ustate_def)
  have r: "?r \<in> set h" using ne by simp
  then have rv: "oper (snd ?r) v" using total better new by (metis imageI)
  have least: "oper (snd ?r) (snd y)" if "y \<in> set h" "y \<noteq> ?r" for y
    using root_least [OF q(1) that(1)] total inj_onD [OF uinvD(3) [OF inv] _ that(1) r] that(2) by blast
  have worse: "oper (snd x) v" if "x \<in> set p" "snd x \<notin> snd ` (set h - {?r})" for x
  proof (cases "snd x = snd ?r")
    case False
    then have "snd x \<notin> snd ` set h" using that(2) by auto
    then show ?thesis using uinvD(6) [OF inv that(1) _ r] rv trans by blast
  qed (simp add: rv)
  have "v \<notin> snd ` set p"
  proof
    assume "v \<in> snd ` set p"
    then obtain x where "x \<in> set p" "v = snd x" by blast
    then show False using worse [of x] new irrefl by blast
  qed
  then have "uinv (insert (idx, v) (set p)) (insert (idx, v) (set h - {?r}))
      (insert (idx, idx) {d' \<in> set d. fst d' \<noteq> fst ?r})"
    using uinv_insert [OF uinv_remove [OF inv r least] idx] worse by blast
  moreover have m: "mset ?h = mset ((idx, v) # tl h)" by (rule mset_pqueue_replace [OF ne])
  have h: "h = ?r # tl h" using ne by (cases h) auto
  have tl: "set (tl h) = set h - {?r}" "distinct (tl h)"
    using q(2) h by (metis Diff_insert_absorb distinct.simps(2) list.simps(15))+
  moreover have "set ?h = insert (idx, v) (set h - {?r})" using mset_eq_setD [OF m] tl by simp
  moreover have "distinct ?h"
    using mset_eq_imp_distinct_iff [OF m] tl new by force
  moreover have "length ?h = length h" using mset_eq_length [OF m] ne by simp
  ultimately show ?thesis
    using rv ne is_pqueue_replace [OF q(1)]
    by (simp add: pqueue_topreplace_def ustate_def set_BUNdelHead)
qed

lemma ustate_rest:
  assumes "ustate p h d" "h \<noteq> [] \<or> t = []" "distinct (map fst (p @ t))"
  shows "\<exists>h' d'. pqueue_utopn_rest oper (\<lambda>x y. \<not> oper y x) (\<noteq>) h d t = Some (h', d') \<and>
    ustate (p @ t) h' d' \<and> length h' = length h"
  using assms
proof (induction t arbitrary: p h d)
  case (Cons x t)
  obtain idx v where x: "x = (idx, v)" by (cases x)
  have idx: "idx \<notin> fst ` set p" using Cons.prems(3) x by auto
  have ne: "h \<noteq> []" using Cons.prems(2) by simp
  have u: "is_pqueue oper h" "distinct h" "uinv (set p) (set h) (set d)"
    using Cons.prems(1) by (simp_all add: ustate_def)
  consider (worse) "oper v (snd (h ! 0))" | (new) "\<not> oper v (snd (h ! 0))" "BUNfnd (\<noteq>) (map snd h) v = None"
    | (dup) j where "\<not> oper v (snd (h ! 0))" "BUNfnd (\<noteq>) (map snd h) v = Some j" by fastforce
  then show ?case
  proof cases
    case worse
    have "oper v (snd y)" if "y \<in> set h" for y
      using root_least [OF u(1) that] worse neg_trans asym by metis
    then have "ustate (p @ [x]) h d"
      using uinv_skip [OF u(3) idx] u x by (simp add: ustate_def)
    then show ?thesis using Cons.IH [of "p @ [x]" h d] Cons.prems worse x ne by simp
  next
    case new
    then obtain h1 where h1: "pqueue_topreplace oper h idx v = Some h1" "length h1 = length h"
      "ustate (p @ [x]) h1 (BUNdelHead d (fst (h ! 0)) @ [(idx, idx)])"
      using ustate_replace [OF Cons.prems(1) ne idx] BUNfnd_None x by metis
    moreover have "h1 \<noteq> []" using h1(2) ne by auto
    ultimately show ?thesis
      using Cons.IH [of "p @ [x]" h1 "BUNdelHead d (fst (h ! 0)) @ [(idx, idx)]"] Cons.prems new x ne by simp
  next
    case (dup j)
    then have "ustate (p @ [x]) h (d @ [(fst (h ! j), idx)])"
      using uinv_dup [OF u(3) idx BUNfnd_Some] u x by (simp add: ustate_def)
    then show ?thesis using Cons.IH [of "p @ [x]" h "d @ [(fst (h ! j), idx)]"] Cons.prems dup x ne by simp
  qed
qed simp

lemma utopn_ustate:
  assumes d: "distinct (map fst t)" and N: "N \<noteq> 0 \<or> t = []" and t: "int (length t) \<le> BUN_MAX"
  shows "\<exists>h d. pqueue_utopn oper (\<lambda>x y. \<not> oper y x) (\<noteq>) t N = Some (h, d) \<and> ustate t h d \<and>
    int (length h) = (if N < 0 then int (card (snd ` set t)) else min N (int (card (snd ` set t))))"
proof -
  define n where "n = (if N \<noteq> wrd_nil \<and> N \<ge> 0 \<and> N \<le> BUN_MAX then nat N else length t)"
  obtain h d r where f: "pqueue_utopn_fill oper (\<noteq>) n 0 [] [] t = (h, d, r)"
    by (cases "pqueue_utopn_fill oper (\<noteq>) n 0 [] [] t") auto
  have "ustate [] [] []" by (simp add: ustate_def is_pqueue_def uinv_def)
  then obtain q where q: "t = q @ r" "ustate q h d" "snd ` set q = snd ` set h" "length h \<le> n"
    "r = [] \<or> length h = n"
    using ustate_fill [of "[]" "[]" "[]" 0 n t h d r] assms(1) f by auto
  have "length h = card (snd ` set h)" if "ustate p h d" for p h d
    using that distinct_card [of h] card_image [of snd "set h"] uinvD(3)
    by (auto simp: ustate_def)
  note card = this
  have "n = 0 \<longrightarrow> t = []" using N by (auto simp: n_def split: if_splits)
  then have "h \<noteq> [] \<or> r = []" using q by auto
  then obtain h' d' where r: "pqueue_utopn_rest oper (\<lambda>x y. \<not> oper y x) (\<noteq>) h d r = Some (h', d')"
    "ustate t h' d'" "length h' = length h"
    using ustate_rest [OF q(2), of r] q(1) assms(1) by auto
  have "set h' \<subseteq> set t" using r(2) uinvD(2) by (auto simp: ustate_def)
  then have le: "length h \<le> card (snd ` set t)"
    using card [OF r(2)] r(3) card_mono [of "snd ` set t" "snd ` set h'"] by (simp add: image_mono)
  have "card (snd ` set t) \<le> length t" by (metis card_length length_map set_map)
  moreover have "r = [] \<Longrightarrow> length h = card (snd ` set t)" using card [OF q(2)] q(1,3) by simp
  ultimately have "int (length h) = (if N < 0 then int (card (snd ` set t)) else min N (int (card (snd ` set t))))"
    using q(4,5) le t by (auto simp: n_def min_def split: if_splits)
  moreover have "pqueue_utopn oper (\<lambda>x y. \<not> oper y x) (\<noteq>) t N = Some (h', d')"
    unfolding pqueue_utopn_def n_def [symmetric] Let_def using f r(1) by simp
  ultimately show ?thesis using r by auto
qed

end

interpretation pq_total: heap_total "pq_oper nm" for nm
  using pq_oper_cases [of nm] by unfold_locales auto

definition pq_opereq :: "pqname \<Rightarrow> int \<Rightarrow> int \<Rightarrow> bool" where
  "pq_opereq nm x y \<longleftrightarrow> pq_oper nm x y \<or> x = y"

lemma pq_opereq_iff: "pq_opereq nm = (\<lambda>x y. \<not> pq_oper nm y x)"
  using pq_oper_cases [of nm] by (auto simp: pq_opereq_def fun_eq_iff)

subsection \<open>Properties\<close>

text \<open>
  C3.  Every instance of the macro \<^verbatim>\<open>pqueueimpl_minmax\<close> implements a priority queue.
  Enqueueing keeps the heap order and adds exactly the new element.  Dequeueing fails on
  the empty queue alone; otherwise it keeps the heap order and removes exactly the first
  element, and no element of the queue comes before that one in the order of the instance.
\<close>

theorem pqueue_refines_bag:
  assumes "is_pqueue (pq_oper nm) h"
  shows "is_pqueue (pq_oper nm) (pqueue_enqueue (pq_oper nm) h idx el) \<and>
    mset (pqueue_enqueue (pq_oper nm) h idx el) = add_mset (idx, el) (mset h) \<and>
    (pqueue_dequeue (pq_oper nm) h = None \<longleftrightarrow> h = []) \<and>
    (\<forall>h'. pqueue_dequeue (pq_oper nm) h = Some h' \<longrightarrow>
      is_pqueue (pq_oper nm) h' \<and> mset h = add_mset (h ! 0) (mset h') \<and>
      (\<forall>x \<in> set h. \<not> pq_oper nm (snd x) (snd (h ! 0))))"
proof (intro conjI allI impI ballI pq.is_pqueue_enqueue [OF assms] mset_pqueue_enqueue)
  show "pqueue_dequeue (pq_oper nm) h = None \<longleftrightarrow> h = []"
    by (simp add: pqueue_dequeue_def)
qed (erule pq.is_pqueue_dequeue [OF assms] mset_pqueue_dequeue pq.root_least [OF assms])+

theorem pqueue_refines_bag_witness:
  "is_pqueue (pq_oper intmin) (pqueue_enqueue (pq_oper intmin) [(0, 2), (1, 7), (2, 4)] 3 1) \<and>
   pqueue_enqueue (pq_oper intmin) [(0, 2), (1, 7), (2, 4)] 3 1 = [(3, 1), (0, 2), (2, 4), (1, 7)] \<and>
   pqueue_dequeue (pq_oper intmin) [(0, 2), (1, 7), (2, 4)] = Some [(2, 4), (1, 7)]"
proof -
  have "is_pqueue (pq_oper intmin) [(0, 2), (1, 7), (2, 4)]" by code_simp
  from pqueue_refines_bag [OF this]
  have "is_pqueue (pq_oper intmin) (pqueue_enqueue (pq_oper intmin) [(0, 2), (1, 7), (2, 4)] 3 1)" by blast
  moreover have "pqueue_enqueue (pq_oper intmin) [(0, 2), (1, 7), (2, 4)] 3 1 = [(3, 1), (0, 2), (2, 4), (1, 7)]"
    by code_simp
  moreover have "pqueue_dequeue (pq_oper intmin) [(0, 2), (1, 7), (2, 4)] = Some [(2, 4), (1, 7)]"
    by code_simp
  ultimately show ?thesis by blast
qed

text \<open>
  C6.  A top-N query on a BAT with at least one row to select returns.  Its result lists
  the identifiers of the N rows that come last in the order of the instance (all of them when
  N is negative, nil or too large), best first: no row left out beats a row selected.
  Each identifier is paired with the identifier of the last selected row that has
  its value, so equal values get equal group identifiers.
\<close>

theorem topn_best:
  assumes "N \<noteq> 0" "int (length t) \<le> BUN_MAX"
  shows "\<exists>sel. pqueue_topn (pq_oper nm) (\<noteq>) t N = Some (tag_group (\<noteq>) sel) \<and>
    is_topn (pq_oper nm) (if 0 \<le> N \<and> N < int (length t) then nat N else length t) t sel"
  using assms pq_total.total pq.irrefl by (intro pq.topn_selects) metis+

theorem topn_best_witness:
  "(\<exists>sel. pqueue_topn (pq_oper intmin) (\<noteq>) [(0, 5), (1, 9), (2, 3), (3, 9)] 3 = Some (tag_group (\<noteq>) sel) \<and>
     is_topn (pq_oper intmin) 3 [(0, 5), (1, 9), (2, 3), (3, 9)] sel) \<and>
   pqueue_topn (pq_oper intmin) (\<noteq>) [(0, 5), (1, 9), (2, 3), (3, 9)] 3 = Some [(1, 3), (3, 3), (0, 0)]"
proof -
  have "pqueue_topn (pq_oper intmin) (\<noteq>) [(0, 5), (1, 9), (2, 3), (3, 9)] 3 = Some [(1, 3), (3, 3), (0, 0)]"
    by code_simp
  then show ?thesis using topn_best [of 3 "[(0, 5), (1, 9), (2, 3), (3, 9)]" intmin] by simp
qed

text \<open>
  C28.  The loops of the query with unique values return for a BAT whose identifiers are distinct.
  The queue then holds one row for each of the N best values (all the values when there are fewer),
  and the duplicates list for each of these rows exactly the identifiers that have its
  value, and nothing else.
\<close>

theorem utopn_best:
  assumes "distinct (map fst t)" "0 < N" "int (length t) \<le> BUN_MAX"
  shows "\<exists>h d. pqueue_utopn (pq_oper nm) (pq_opereq nm) (\<noteq>) t N = Some (h, d) \<and>
    is_pqueue (pq_oper nm) h \<and> set h \<subseteq> set t \<and> distinct (map snd h) \<and>
    int (length h) = min N (int (card (snd ` set t))) \<and>
    (\<forall>x\<in>set t. snd x \<notin> snd ` set h \<longrightarrow> (\<forall>y\<in>set h. pq_oper nm (snd x) (snd y))) \<and>
    fst ` set d \<subseteq> fst ` set h \<and>
    (\<forall>k v i. (k, v) \<in> set h \<longrightarrow> ((k, i) \<in> set d \<longleftrightarrow> (i, v) \<in> set t))"
proof -
  obtain h d where hd: "pqueue_utopn (pq_oper nm) (pq_opereq nm) (\<noteq>) t N = Some (h, d)"
    "pq_total.ustate nm t h d" "int (length h) = min N (int (card (snd ` set t)))"
    using pq_total.utopn_ustate [of t N nm] assms by (auto simp: pq_opereq_iff)
  then show ?thesis
    by (auto simp: pq_total.ustate_def pq_total.uinv_def distinct_map)
qed

theorem utopn_best_witness:
  "(\<exists>h d. pqueue_utopn (pq_oper intmin) (pq_opereq intmin) (\<noteq>) [(0, 5), (1, 9), (2, 3), (3, 9)] 2 = Some (h, d) \<and>
     is_pqueue (pq_oper intmin) h \<and> distinct (map snd h)) \<and>
   pqueue_utopn (pq_oper intmin) (pq_opereq intmin) (\<noteq>) [(0, 5), (1, 9), (2, 3), (3, 9)] 2 =
     Some ([(0, 5), (1, 9)], [(0, 0), (1, 1), (1, 3)])"
proof -
  have "pqueue_utopn (pq_oper intmin) (pq_opereq intmin) (\<noteq>) [(0, 5), (1, 9), (2, 3), (3, 9)] 2 =
      Some ([(0, 5), (1, 9)], [(0, 0), (1, 1), (1, 3)])"
    by code_simp
  moreover have "distinct (map fst [(0::nat, 5::int), (1, 9), (2, 3), (3, 9)])"
    "int (length [(0::nat, 5::int), (1, 9), (2, 3), (3, 9)]) \<le> BUN_MAX" by simp_all
  from utopn_best [OF this(1) _ this(2), of 2 intmin, OF zero_less_numeral]
  have "\<exists>h d. pqueue_utopn (pq_oper intmin) (pq_opereq intmin) (\<noteq>) [(0, 5), (1, 9), (2, 3), (3, 9)] 2 = Some (h, d) \<and>
     is_pqueue (pq_oper intmin) h \<and> distinct (map snd h)"
    by (elim exE conjE) (intro exI conjI)
  ultimately show ?thesis by simp
qed

text \<open>
  The fallback with the comparison of strings selects the greatest N strings in
  descending order and tags each row with the group of its value, as the macro does for integers.
\<close>

theorem topn_strings:
  assumes "N \<noteq> 0" "int (length t) \<le> BUN_MAX"
  shows "\<exists>sel. pqueue_topn_anymin True strCmp t N = Some (tag_group (any_differs True strCmp) sel) \<and>
    is_topn (anymin strCmp) (if 0 \<le> N \<and> N < int (length t) then nat N else length t) t sel"
  unfolding pqueue_topn_anymin_def
  using assms by (intro str.anymin.topn_selects) (auto simp: any_differs_def anymin_def str.cmp_neq)

theorem topn_strings_witness:
  "(\<exists>sel. pqueue_topn_anymin True strCmp [(0, ''b''), (1, ''abc''), (2, ''b'')] 2 =
      Some (tag_group (any_differs True strCmp) sel) \<and>
     is_topn (anymin strCmp) 2 [(0, ''b''), (1, ''abc''), (2, ''b'')] sel) \<and>
   pqueue_topn_anymin True strCmp [(0, ''b''), (1, ''abc''), (2, ''b'')] 2 = Some [(0, 2), (2, 2)]"
proof -
  have "pqueue_topn_anymin True strCmp [(0, ''b''), (1, ''abc''), (2, ''b'')] 2 = Some [(0, 2), (2, 2)]"
    by code_simp
  then show ?thesis using topn_strings [of 2 "[(0, ''b''), (1, ''abc''), (2, ''b'')]"] by simp
qed

lemma groups_fixed: "groups (any_differs False simple_CMP) oo ov ds = map (\<lambda>x. (fst x, oo)) ds"
  by (induction ds arbitrary: oo ov) (auto simp: any_differs_def simple.cmp_refl)

text \<open>
  For a type of fixed size the fallback makes the same selection, but gives every row the
  group identifier of one and the same row, whatever its value: the pointer to the previous
  value points to the slot the current value is in.
\<close>

theorem topn_fixed_one_group:
  assumes "N \<noteq> 0" "int (length t) \<le> BUN_MAX"
  shows "\<exists>sel g. pqueue_topn_anymin False simple_CMP t N = Some (map (\<lambda>x. (fst x, g)) sel) \<and>
    is_topn (anymin simple_CMP) (if 0 \<le> N \<and> N < int (length t) then nat N else length t) t sel"
  using simple.anymin.topn_drain [of N t "any_differs False simple_CMP"] assms
  by (auto simp: pqueue_topn_anymin_def groups_fixed rev_map)

theorem topn_fixed_witness:
  "(\<exists>sel g. pqueue_topn_anymin False simple_CMP [(0, 5), (1, 9)] 2 = Some (map (\<lambda>x. (fst x, g)) sel) \<and>
     is_topn (anymin simple_CMP) 2 [(0, 5), (1, 9)] sel) \<and>
   pqueue_topn_anymin False simple_CMP [(0, 5), (1, 9)] 2 = Some [(1, 0), (0, 0)] \<and>
   pqueue_topn (pq_oper lngmin) (\<noteq>) [(0, 5), (1, 9)] 2 = Some [(1, 1), (0, 0)]"
proof -
  have "pqueue_topn_anymin False simple_CMP [(0, 5), (1, 9)] 2 = Some [(1, 0), (0, 0)]"
    "pqueue_topn (pq_oper lngmin) (\<noteq>) [(0, 5), (1, 9)] 2 = Some [(1, 1), (0, 0)]"
    by code_simp+
  then show ?thesis using topn_fixed_one_group [of 2 "[(0, 5), (1, 9)]"]
    by (simp add: numeral_2_eq_2)
qed

end
