(* ===== verification/Sql_Mem.thy ===== *)
theory Sql_Mem
  imports Prelude "HOL-Library.Monad_Syntax"
begin

text \<open>
  The block allocator of the SQL layer (\<^verbatim>\<open>sql/common/sql_mem.c\<close>) and the stack built on it
  (\<^verbatim>\<open>sql/common/sql_stack.c\<close>).  Memory is a set of blocks with their size and contents; an
  address is a block and an offset.  Freeing a block twice, or writing or reading outside a
  block, is the result \<^const>\<open>None\<close>.  The system allocator is taken to succeed.
\<close>

subsection \<open>Memory\<close>

type_synonym addr = "nat \<times> nat"

record mem =
  msize :: "nat \<Rightarrow> nat option"
  mbytes :: "nat \<Rightarrow> nat \<Rightarrow> char"
  mnext :: nat

definition GDKmalloc :: "mem \<Rightarrow> nat \<Rightarrow> nat \<times> mem" where
  "GDKmalloc m sz = (mnext m, m\<lparr>msize := (msize m)(mnext m \<mapsto> sz), mnext := mnext m + 1\<rparr>)"

definition GDKfree :: "mem \<Rightarrow> nat \<Rightarrow> mem option" where
  "GDKfree m b =
    (if msize m b = None then None else Some (m\<lparr>msize := (msize m)(b := None)\<rparr>))"

definition in_block :: "mem \<Rightarrow> addr \<Rightarrow> nat \<Rightarrow> bool" where
  "in_block m p n \<longleftrightarrow> (case msize m (fst p) of None \<Rightarrow> False | Some k \<Rightarrow> snd p + n \<le> k)"

definition mwrite :: "mem \<Rightarrow> addr \<Rightarrow> string \<Rightarrow> mem option" where
  "mwrite m p s =
    (if in_block m p (length s) then
       Some (m\<lparr>mbytes := (mbytes m)(fst p := (\<lambda>i.
         if snd p \<le> i \<and> i < snd p + length s then s ! (i - snd p) else mbytes m (fst p) i))\<rparr>)
     else None)"

definition mread :: "mem \<Rightarrow> addr \<Rightarrow> nat \<Rightarrow> string option" where
  "mread m p n =
    (if in_block m p n then Some (map (\<lambda>i. mbytes m (fst p) (snd p + i)) [0..<n]) else None)"

subsection \<open>The allocator\<close>

text \<open>Copying \<^verbatim>\<open>l\<close> bytes from a string that ends before is the result \<^const>\<open>None\<close> as well.\<close>

definition SA_BLOCK :: nat where "SA_BLOCK = 64 * 1024"

definition round16 :: "nat \<Rightarrow> nat" where
  "round16 sz = (let x = (sz + 15) mod 2 ^ 64 in x - x mod 16)"

text \<open>\<^verbatim>\<open>blks\<close> is the used part of the array of blocks, so that \<^verbatim>\<open>nr\<close> is its length; \<^verbatim>\<open>cap\<close> is the
  size of the array.\<close>

record sql_allocator =
  cap :: nat
  blks :: "nat list"
  used :: nat
  usedmem :: nat

definition sa_create :: "mem \<Rightarrow> sql_allocator \<times> mem" where
  "sa_create m =
    (let (b, m) = GDKmalloc m SA_BLOCK
     in (\<lparr>cap = 64, blks = [b], used = 0, usedmem = SA_BLOCK\<rparr>, m))"

fun free_all :: "mem \<Rightarrow> nat list \<Rightarrow> mem option" where
  "free_all m [] = Some m"
| "free_all m (b # bs) = do { m \<leftarrow> GDKfree m b; free_all m bs }"

definition sa_reset :: "mem \<Rightarrow> sql_allocator \<Rightarrow> (sql_allocator \<times> mem) option" where
  "sa_reset m sa = do {
     m \<leftarrow> free_all m (tl (blks sa));
     Some (sa\<lparr>blks := take 1 (blks sa), used := 0\<rparr>, m)
   }"

definition grow :: "sql_allocator \<Rightarrow> sql_allocator" where
  "grow sa = (if length (blks sa) \<ge> cap sa then sa\<lparr>cap := cap sa * 2\<rparr> else sa)"

definition sa_alloc :: "mem \<Rightarrow> sql_allocator \<Rightarrow> nat \<Rightarrow> addr \<times> sql_allocator \<times> mem" where
  "sa_alloc m sa sz =
    (let sz = round16 sz in
     if sz > SA_BLOCK then
       let (r, m) = GDKmalloc m sz; sa = grow sa; nr = length (blks sa);
           t = blks sa ! (nr - 1)
       in ((r, 0), sa\<lparr>blks := (blks sa)[nr - 1 := r] @ [t], usedmem := usedmem sa + sz\<rparr>, m)
     else if sz > SA_BLOCK - used sa then
       let (r, m) = GDKmalloc m SA_BLOCK; sa = grow sa
       in ((r, 0), sa\<lparr>blks := blks sa @ [r], used := sz, usedmem := usedmem sa + SA_BLOCK\<rparr>, m)
     else
       ((blks sa ! (length (blks sa) - 1), used sa), sa\<lparr>used := used sa + sz\<rparr>, m))"

definition sa_zalloc :: "mem \<Rightarrow> sql_allocator \<Rightarrow> nat \<Rightarrow> (addr \<times> sql_allocator \<times> mem) option" where
  "sa_zalloc m sa sz = do {
     let (r, sa, m) = sa_alloc m sa sz;
     m \<leftarrow> mwrite m r (replicate sz (CHR 0x00));
     Some (r, sa, m)
   }"

definition sa_realloc :: "mem \<Rightarrow> sql_allocator \<Rightarrow> addr \<Rightarrow> nat \<Rightarrow> nat \<Rightarrow> (addr \<times> sql_allocator \<times> mem) option" where
  "sa_realloc m sa p sz oldsz = do {
     let (r, sa, m) = sa_alloc m sa sz;
     s \<leftarrow> mread m p oldsz;
     m \<leftarrow> mwrite m r s;
     Some (r, sa, m)
   }"

definition sa_strndup :: "mem \<Rightarrow> sql_allocator \<Rightarrow> string \<Rightarrow> nat \<Rightarrow> (addr \<times> sql_allocator \<times> mem) option" where
  "sa_strndup m sa s l =
    (if l > length s + 1 then None
     else do {
       let (r, sa, m) = sa_alloc m sa (l + 1);
       m \<leftarrow> mwrite m r (map (cget s) [0..<l] @ [CHR 0x00]);
       Some (r, sa, m)
     })"

definition sa_strdup :: "mem \<Rightarrow> sql_allocator \<Rightarrow> string \<Rightarrow> (addr \<times> sql_allocator \<times> mem) option" where
  "sa_strdup m sa s = sa_strndup m sa s (length s)"

definition sa_strconcat :: "mem \<Rightarrow> sql_allocator \<Rightarrow> string \<Rightarrow> string \<Rightarrow> (addr \<times> sql_allocator \<times> mem) option" where
  "sa_strconcat m sa s1 s2 = do {
     let (r, sa, m) = sa_alloc m sa (length s1 + length s2 + 1);
     m \<leftarrow> mwrite m r s1;
     m \<leftarrow> mwrite m (fst r, snd r + length s1) s2;
     m \<leftarrow> mwrite m (fst r, snd r + length s1 + length s2) [CHR 0x00];
     Some (r, sa, m)
   }"

definition sa_destroy :: "mem \<Rightarrow> sql_allocator \<Rightarrow> mem option" where
  "sa_destroy m sa = free_all m (blks sa)"

definition sa_size :: "sql_allocator \<Rightarrow> nat" where
  "sa_size sa = usedmem sa"

text \<open>
  The stack: \<^verbatim>\<open>values\<close> is the array, of \<^verbatim>\<open>size\<close> elements.  What the code does not set is
  \<^const>\<open>None\<close>, as is the pointer \<^verbatim>\<open>NULL\<close>; the outer \<^const>\<open>None\<close> is an access outside the array.
\<close>

record 'v sql_stack =
  size_of :: int
  top_of :: int
  vals :: "'v option list"

definition stack_write :: "'v sql_stack \<Rightarrow> 'v option \<Rightarrow> 'v sql_stack option" where
  "stack_write s v =
    (if 0 \<le> top_of s \<and> top_of s < int (length (vals s))
     then Some (s\<lparr>vals := (vals s)[nat (top_of s) := v], top_of := i32 (top_of s + 1)\<rparr>)
     else None)"

definition sql_stack_new :: "int \<Rightarrow> 'v sql_stack option" where
  "sql_stack_new sz =
    stack_write \<lparr>size_of = sz, top_of = 0, vals = replicate (nat sz) None\<rparr> None"

definition sql_stack_push :: "'v sql_stack \<Rightarrow> 'v option \<Rightarrow> 'v sql_stack option" where
  "sql_stack_push s v =
    (if top_of s \<ge> size_of s then
       let osz = size_of s; sz = i32 (size_of s * 2)
       in stack_write (s\<lparr>size_of := sz,
            vals := take (nat osz) (vals s) @ replicate (nat sz - nat osz) None\<rparr>) v
     else stack_write s v)"

definition sql_stack_pop :: "'v sql_stack \<Rightarrow> ('v option \<times> 'v sql_stack) option" where
  "sql_stack_pop s =
    (let top = i32 (top_of s - 1)
     in if 0 \<le> top \<and> top < int (length (vals s))
        then Some (vals s ! nat top, s\<lparr>top_of := top\<rparr>)
        else None)"

subsection \<open>The invariant\<close>

text \<open>A region is an address with a length.\<close>

definition apart :: "addr \<times> nat \<Rightarrow> addr \<times> nat \<Rightarrow> bool" where
  "apart x y \<longleftrightarrow> fst (fst x) \<noteq> fst (fst y) \<or> snd (fst x) + snd x \<le> snd (fst y) \<or>
    snd (fst y) + snd y \<le> snd (fst x)"

definition sa_inv :: "mem \<Rightarrow> sql_allocator \<Rightarrow> bool" where
  "sa_inv m sa \<longleftrightarrow> blks sa \<noteq> [] \<and> distinct (blks sa) \<and> length (blks sa) \<le> cap sa \<and>
    (\<forall>b\<in>set (blks sa). in_block m (b, 0) SA_BLOCK) \<and> (\<forall>b. msize m b \<noteq> None \<longrightarrow> b < mnext m) \<and>
    used sa \<le> SA_BLOCK \<and> 16 dvd used sa"

definition live_ok :: "mem \<Rightarrow> sql_allocator \<Rightarrow> addr \<times> nat \<Rightarrow> bool" where
  "live_ok m sa x \<longleftrightarrow> fst (fst x) \<in> set (blks sa) \<and> 16 dvd snd (fst x) \<and> in_block m (fst x) (snd x) \<and>
    (fst (fst x) = last (blks sa) \<longrightarrow> snd (fst x) + snd x \<le> used sa)"

definition sa_ok :: "mem \<Rightarrow> sql_allocator \<Rightarrow> (addr \<times> nat) list \<Rightarrow> bool" where
  "sa_ok m sa live \<longleftrightarrow> sa_inv m sa \<and> list_all (live_ok m sa) live \<and> sorted_wrt apart live"

lemma round16: "sz \<le> 2 ^ 64 - 16 \<Longrightarrow> sz \<le> round16 sz \<and> 16 dvd round16 sz"
  by (auto simp: round16_def Let_def dvd_minus_mod)

lemma in_block_malloc:
  "GDKmalloc m sz = (r, m') \<Longrightarrow> fst p \<noteq> r \<Longrightarrow> in_block m' p n \<longleftrightarrow> in_block m p n"
  "GDKmalloc m sz = (r, m') \<Longrightarrow> in_block m' (r, i) n \<longleftrightarrow> i + n \<le> sz"
  by (auto simp: GDKmalloc_def in_block_def)

lemma in_block_dom: "in_block m p n \<Longrightarrow> msize m (fst p) \<noteq> None"
  by (auto simp: in_block_def split: option.splits)

lemma sa_inv_dom: "sa_inv m sa \<Longrightarrow> b \<in> set (blks sa) \<Longrightarrow> msize m b \<noteq> None"
  unfolding sa_inv_def using in_block_dom by (metis fst_conv)

lemma sa_inv_fresh: "sa_inv m sa \<Longrightarrow> mnext m \<notin> set (blks sa)"
  unfolding sa_inv_def using in_block_dom by (metis fst_conv less_irrefl)

lemma sa_inv_malloc:
  assumes "sa_inv m sa" "GDKmalloc m sz = (r, m')"
  shows "sa_inv m' sa" "r = mnext m" "r \<notin> set (blks sa)" "mbytes m' = mbytes m"
    "live_ok m sa x \<Longrightarrow> live_ok m' sa x"
proof -
  have fresh: "r = mnext m" "r \<notin> set (blks sa)" "mbytes m' = mbytes m"
    using assms(2) sa_inv_fresh [OF assms(1)] by (auto simp: GDKmalloc_def)
  have keep: "in_block m' p n = in_block m p n" if "fst p \<in> set (blks sa)" for p n
    using in_block_malloc(1) [OF assms(2)] that fresh(2) by metis
  then show "sa_inv m' sa"
    using assms by (auto simp: sa_inv_def GDKmalloc_def less_Suc_eq)
  show "live_ok m sa x \<Longrightarrow> live_ok m' sa x"
    using keep by (auto simp: live_ok_def)
qed (use assms(2) sa_inv_fresh [OF assms(1)] in \<open>auto simp: GDKmalloc_def\<close>)

lemma grow_inv: "sa_inv m sa \<Longrightarrow> sa_inv m (grow sa) \<and> length (blks sa) < cap (grow sa)"
  by (cases "blks sa") (auto simp: sa_inv_def grow_def)

lemma grow_simps [simp]: "blks (grow sa) = blks sa" "used (grow sa) = used sa"
  by (simp_all add: grow_def)

lemma live_ok_grow [simp]: "live_ok m (grow sa) x = live_ok m sa x"
  by (simp add: live_ok_def)

lemma sa_alloc_large:
  assumes inv: "sa_inv m sa" and len: "length (blks sa) < cap sa" and r: "r \<notin> set (blks sa)"
    and m: "msize m r = Some k" "sz \<le> k" "SA_BLOCK < k"
    and live: "list_all (live_ok m sa) live" "sorted_wrt apart live"
  shows "sa_ok m (sa\<lparr>blks := (blks sa)[length (blks sa) - 1 := r] @ [blks sa ! (length (blks sa) - 1)],
    usedmem := u\<rparr>) (((r, 0), sz) # live)"
proof -
  let ?b = "blks sa"
  have b: "?b = butlast ?b @ [last ?b]" "?b \<noteq> []" using inv by (auto simp: sa_inv_def)
  then have eq: "?b[length ?b - 1 := r] @ [?b ! (length ?b - 1)] = butlast ?b @ [r, last ?b]"
    by (metis append_Cons append_Nil append_assoc last_conv_nth length_butlast list_update_length)
  have d: "set ?b = insert (last ?b) (set (butlast ?b))"
    using arg_cong [OF b(1), of set] by simp
  have "distinct (butlast ?b @ [last ?b])" using inv b(1) by (simp add: sa_inv_def)
  then have dd: "distinct (butlast ?b @ [r, last ?b])" using r d by auto
  have "apart ((r, 0), sz) x" if "x \<in> set live" for x
    using live(1) that r by (auto simp: apart_def live_ok_def list_all_iff)
  moreover have "length (butlast ?b @ [r, last ?b]) \<le> cap sa" using len b(2) by simp
  ultimately show ?thesis
    using inv live m d dd unfolding eq
    by (auto simp: sa_ok_def sa_inv_def live_ok_def list_all_iff in_block_def)
qed

lemma sa_alloc_new:
  assumes inv: "sa_inv m sa" and len: "length (blks sa) < cap sa" and r: "r \<notin> set (blks sa)"
    and m: "msize m r = Some SA_BLOCK" "sz \<le> n" "n \<le> SA_BLOCK" "16 dvd n"
    and live: "list_all (live_ok m sa) live" "sorted_wrt apart live"
  shows "sa_ok m (sa\<lparr>blks := blks sa @ [r], used := n, usedmem := u\<rparr>) (((r, 0), sz) # live)"
proof -
  have "apart ((r, 0), sz) x \<and> live_ok m (sa\<lparr>blks := blks sa @ [r], used := n, usedmem := u\<rparr>) x"
    if "x \<in> set live" for x
    using live(1) that r by (auto simp: apart_def live_ok_def list_all_iff)
  then show ?thesis
    using inv live m r len
    by (auto simp: sa_ok_def sa_inv_def live_ok_def list_all_iff in_block_def)
qed

lemma sa_alloc_same:
  assumes inv: "sa_inv m sa" and n: "sz \<le> n" "n \<le> SA_BLOCK - used sa" "16 dvd n"
    and live: "list_all (live_ok m sa) live" "sorted_wrt apart live"
  shows "sa_ok m (sa\<lparr>used := used sa + n\<rparr>) (((last (blks sa), used sa), sz) # live)"
proof -
  have "apart ((last (blks sa), used sa), sz) x \<and> live_ok m (sa\<lparr>used := used sa + n\<rparr>) x"
    if "x \<in> set live" for x
    using live(1) that by (auto simp: apart_def live_ok_def list_all_iff)
  moreover have "in_block m (last (blks sa), 0) SA_BLOCK" "used sa + sz \<le> SA_BLOCK"
    using inv n by (auto simp: sa_inv_def)
  then have "in_block m (last (blks sa), used sa) sz"
    by (auto simp: in_block_def split: option.splits)
  ultimately show ?thesis
    using inv live n by (auto simp: sa_ok_def sa_inv_def live_ok_def list_all_iff)
qed

lemma sa_alloc_ok:
  assumes ok: "sa_ok m sa live" and sz: "sz \<le> 2 ^ 64 - 16" and a: "sa_alloc m sa sz = (r, sa', m')"
  shows "sa_ok m' sa' ((r, sz) # live)" "mbytes m' = mbytes m"
proof -
  let ?n = "round16 sz"
  have inv: "sa_inv m sa" and live: "list_all (live_ok m sa) live" "sorted_wrt apart live"
    using ok by (simp_all add: sa_ok_def)
  have n: "sz \<le> ?n" "16 dvd ?n" using round16 [OF sz] by auto
  have ne: "blks sa \<noteq> []" using inv by (simp add: sa_inv_def)
  have "sa_ok m' sa' ((r, sz) # live) \<and> mbytes m' = mbytes m"
  proof (cases "?n > SA_BLOCK - used sa")
    case True
    let ?k = "if ?n > SA_BLOCK then ?n else SA_BLOCK"
    obtain b m1 where b: "GDKmalloc m ?k = (b, m1)" by fastforce
    note b1 = sa_inv_malloc [OF inv b]
    have g: "sa_inv m1 (grow sa)" "length (blks (grow sa)) < cap (grow sa)" "b \<notin> set (blks (grow sa))"
      "list_all (live_ok m1 (grow sa)) live"
      using b1 grow_inv live by (auto simp: list_all_iff)
    have k: "msize m1 b = Some ?k" using b by (auto simp: GDKmalloc_def)
    show ?thesis
    proof (cases "?n > SA_BLOCK")
      case large: True
      then show ?thesis
        using sa_alloc_large [OF g(1-3) k _ _ g(4) live(2), of sz] n a b b1
        by (auto simp: sa_alloc_def Let_def)
    next
      case False
      then show ?thesis
        using sa_alloc_new [OF g(1-3) _ n(1) _ n(2) g(4) live(2)] k True a b b1
        by (auto simp: sa_alloc_def Let_def)
    qed
  next
    case False
    then have "\<not> ?n > SA_BLOCK" by linarith
    then show ?thesis
      using sa_alloc_same [OF inv n(1) _ n(2) live] False a ne
      by (auto simp: sa_alloc_def Let_def last_conv_nth)
  qed
  then show "sa_ok m' sa' ((r, sz) # live)" "mbytes m' = mbytes m" by blast+
qed

lemma mwrite_frame:
  assumes "mwrite m p s = Some m'"
  shows "msize m' = msize m" "mnext m' = mnext m" "mread m' p (length s) = Some s"
    "apart (p, length s) (q, n) \<Longrightarrow> mread m' q n = mread m q n"
proof -
  have w: "in_block m p (length s)" and m': "m' = m\<lparr>mbytes := (mbytes m)(fst p := (\<lambda>i.
      if snd p \<le> i \<and> i < snd p + length s then s ! (i - snd p) else mbytes m (fst p) i))\<rparr>"
    using assms by (cases "in_block m p (length s)"; simp add: mwrite_def)+
  show *: "msize m' = msize m" "mnext m' = mnext m" by (simp_all add: m')
  then have eq: "in_block m' x k = in_block m x k" for x k by (simp add: in_block_def)
  show "mread m' p (length s) = Some s"
    using w unfolding mread_def eq by (auto simp: m' intro!: nth_equalityI)
  have "mbytes m' (fst q) (snd q + i) = mbytes m (fst q) (snd q + i)"
    if "apart (p, length s) (q, n)" "i < n" for i
    using that by (cases "fst q = fst p") (auto simp: m' apart_def)
  then show "apart (p, length s) (q, n) \<Longrightarrow> mread m' q n = mread m q n"
    by (simp add: mread_def eq)
qed

lemma sa_ok_cong:
  "msize m' = msize m \<Longrightarrow> mnext m' = mnext m \<Longrightarrow> sa_ok m' sa live = sa_ok m sa live"
  by (simp add: sa_ok_def sa_inv_def live_ok_def [abs_def] in_block_def)

lemma free_all_ok:
  "distinct bs \<Longrightarrow> \<forall>b\<in>set bs. msize m b \<noteq> None \<Longrightarrow>
   \<exists>m'. free_all m bs = Some m' \<and> mnext m' = mnext m \<and>
     msize m' = (\<lambda>b. if b \<in> set bs then None else msize m b)"
proof (induction bs arbitrary: m)
  case (Cons b bs)
  let ?m = "m\<lparr>msize := (msize m)(b := None)\<rparr>"
  have "GDKfree m b = Some ?m" using Cons.prems by (auto simp: GDKfree_def)
  moreover have "\<exists>m'. free_all ?m bs = Some m' \<and> mnext m' = mnext ?m \<and>
      msize m' = (\<lambda>x. if x \<in> set bs then None else msize ?m x)"
    using Cons.prems by (intro Cons.IH) auto
  ultimately show ?case by (auto simp: fun_eq_iff)
qed auto

lemma sa_reset_ok:
  assumes "sa_inv m sa"
  shows "\<exists>sa' m'. sa_reset m sa = Some (sa', m') \<and> sa_ok m' sa' []"
proof -
  obtain b bs where b: "blks sa = b # bs" using assms by (cases "blks sa") (auto simp: sa_inv_def)
  have "distinct bs" "\<forall>x\<in>set bs. msize m x \<noteq> None" "b \<notin> set bs"
    using assms b sa_inv_dom [OF assms] by (auto simp: sa_inv_def)
  then obtain m' where "free_all m bs = Some m'" "mnext m' = mnext m"
    "msize m' = (\<lambda>x. if x \<in> set bs then None else msize m x)"
    using free_all_ok by blast
  with assms b show ?thesis
    by (auto simp: sa_reset_def sa_ok_def sa_inv_def in_block_def)
qed

lemma sa_destroy_ok: "sa_inv m sa \<Longrightarrow> \<exists>m'. sa_destroy m sa = Some m' \<and> (\<forall>b\<in>set (blks sa). msize m' b = None)"
proof -
  assume inv: "sa_inv m sa"
  then have "distinct (blks sa)" "\<forall>x\<in>set (blks sa). msize m x \<noteq> None"
    using sa_inv_dom [OF inv] by (auto simp: sa_inv_def)
  then show ?thesis using free_all_ok [of "blks sa" m] by (auto simp: sa_destroy_def)
qed

subsection \<open>Runs of the allocator\<close>

text \<open>
  What a client can do with an allocator: allocate a piece with one of the functions, write inside
  a piece, and reset the allocator.  The last argument lists the pieces handed out since the
  last reset, each with what the client knows of its bytes: \<^const>\<open>None\<close> for a byte nothing
  has been written to.
\<close>

type_synonym piece = "addr \<times> char option list"

definition region :: "piece \<Rightarrow> addr \<times> nat" where
  "region x = (fst x, length (snd x))"

definition overwrite :: "nat \<Rightarrow> string \<Rightarrow> char option list \<Rightarrow> char option list" where
  "overwrite k s cs = take k cs @ map Some s @ drop (k + length s) cs"

definition holds :: "mem \<Rightarrow> piece \<Rightarrow> bool" where
  "holds m x \<longleftrightarrow> (case mread m (fst x) (length (snd x)) of
     None \<Rightarrow> False
   | Some bs \<Rightarrow> list_all2 (\<lambda>b c. c = None \<or> c = Some b) bs (snd x))"

inductive sa_run :: "mem \<Rightarrow> sql_allocator \<Rightarrow> piece list \<Rightarrow> bool" where
  create: "(\<forall>b. msize m b \<noteq> None \<longrightarrow> b < mnext m) \<Longrightarrow> sa_create m = (sa, m') \<Longrightarrow> sa_run m' sa []"
| alloc: "sa_run m sa live \<Longrightarrow> sz \<le> 2 ^ 64 - 16 \<Longrightarrow> sa_alloc m sa sz = (r, sa', m') \<Longrightarrow>
    sa_run m' sa' ((r, replicate sz None) # live)"
| zalloc: "sa_run m sa live \<Longrightarrow> sz \<le> 2 ^ 64 - 16 \<Longrightarrow> sa_zalloc m sa sz = Some (r, sa', m') \<Longrightarrow>
    sa_run m' sa' ((r, replicate sz (Some (CHR 0x00))) # live)"
| realloc: "sa_run m sa live \<Longrightarrow> (p, cs) \<in> set live \<Longrightarrow> length cs \<le> sz \<Longrightarrow> sz \<le> 2 ^ 64 - 16 \<Longrightarrow>
    sa_realloc m sa p sz (length cs) = Some (r, sa', m') \<Longrightarrow>
    sa_run m' sa' ((r, cs @ replicate (sz - length cs) None) # live)"
| strndup: "sa_run m sa live \<Longrightarrow> l \<le> length s \<Longrightarrow> l < 2 ^ 64 - 16 \<Longrightarrow>
    sa_strndup m sa s l = Some (r, sa', m') \<Longrightarrow>
    sa_run m' sa' ((r, map Some (take l s @ [CHR 0x00])) # live)"
| strconcat: "sa_run m sa live \<Longrightarrow> length s1 + length s2 < 2 ^ 64 - 16 \<Longrightarrow>
    sa_strconcat m sa s1 s2 = Some (r, sa', m') \<Longrightarrow>
    sa_run m' sa' ((r, map Some (s1 @ s2 @ [CHR 0x00])) # live)"
| fill: "sa_run m sa (xs @ (p, cs) # ys) \<Longrightarrow> k + length s \<le> length cs \<Longrightarrow>
    mwrite m (fst p, snd p + k) s = Some m' \<Longrightarrow> sa_run m' sa (xs @ (p, overwrite k s cs) # ys)"
| reset: "sa_run m sa live \<Longrightarrow> sa_reset m sa = Some (sa', m') \<Longrightarrow> sa_run m' sa' []"

definition run_ok :: "mem \<Rightarrow> sql_allocator \<Rightarrow> piece list \<Rightarrow> bool" where
  "run_ok m sa live \<longleftrightarrow> sa_ok m sa (map region live) \<and> list_all (holds m) live"

lemma length_overwrite [simp]: "k + length s \<le> length cs \<Longrightarrow> length (overwrite k s cs) = length cs"
  by (simp add: overwrite_def)

lemma nth_overwrite:
  "k + length s \<le> length cs \<Longrightarrow> i < length cs \<Longrightarrow>
   overwrite k s cs ! i = (if k \<le> i \<and> i < k + length s then Some (s ! (i - k)) else cs ! i)"
  by (auto simp: overwrite_def nth_append)

lemma holds_alt:
  "holds m (p, cs) \<longleftrightarrow> in_block m p (length cs) \<and>
    (\<forall>i<length cs. cs ! i = None \<or> cs ! i = Some (mbytes m (fst p) (snd p + i)))"
  by (auto simp: holds_def mread_def list_all2_conv_all_nth)

lemma known_all: "list_all2 (\<lambda>b c. c = None \<or> c = Some b) bs (map Some s) \<Longrightarrow> bs = s"
  by (auto simp: list_all2_conv_all_nth intro: nth_equalityI)

lemma apart_sym: "apart x y = apart y x"
  by (auto simp: apart_def)

lemma sa_alloc_run:
  assumes ok: "run_ok m sa live" and sz: "sz \<le> 2 ^ 64 - 16" and a: "sa_alloc m sa sz = (r, sa', m')"
  shows "run_ok m' sa' ((r, replicate sz None) # live)"
proof -
  have m': "sa_ok m' sa' ((r, sz) # map region live)" "mbytes m' = mbytes m"
    using sa_alloc_ok [of m sa "map region live", OF _ sz a] ok by (simp_all add: run_ok_def)
  have "holds m' (p, cs)" if "(p, cs) \<in> set live" for p cs
    using ok m' that by (fastforce simp: run_ok_def holds_alt sa_ok_def live_ok_def list_all_iff region_def)
  moreover have "in_block m' r sz" using m'(1) by (simp add: sa_ok_def live_ok_def)
  ultimately show ?thesis
    using m'(1) by (auto simp: run_ok_def holds_alt list_all_iff region_def)
qed

text \<open>A write inside a piece changes what is known of that piece and of no other.\<close>

lemma mwrite_run:
  assumes ok: "run_ok m sa (xs @ (p, cs) # ys)" and s: "k + length s \<le> length cs"
  shows "\<exists>m'. mwrite m (fst p, snd p + k) s = Some m' \<and> run_ok m' sa (xs @ (p, overwrite k s cs) # ys)"
proof -
  have p: "holds m (p, cs)" using ok by (simp add: run_ok_def)
  then have "in_block m (fst p, snd p + k) (length s)"
    using s by (auto simp: holds_alt in_block_def split: option.splits)
  then obtain m' where m': "mwrite m (fst p, snd p + k) s = Some m'" by (simp add: mwrite_def)
  note f = mwrite_frame [OF m']
  have ib: "in_block m' = in_block m" using f(1) by (simp add: in_block_def fun_eq_iff)
  have "apart (p, length cs) (region x)" if "x \<in> set (xs @ ys)" for x
    using ok that by (auto simp: run_ok_def sa_ok_def sorted_wrt_append region_def apart_sym)
  then have "apart ((fst p, snd p + k), length s) (region x)" if "x \<in> set (xs @ ys)" for x
    using s that by (fastforce simp: apart_def)
  then have "mread m' (fst x) (length (snd x)) = mread m (fst x) (length (snd x))" if "x \<in> set (xs @ ys)" for x
    using that by (intro f(4)) (simp add: region_def)
  then have "holds m' x = holds m x" if "x \<in> set (xs @ ys)" for x
    using that by (simp add: holds_def)
  then have "\<forall>x\<in>set (xs @ ys). holds m' x" using ok by (auto simp: run_ok_def list_all_iff)
  moreover have "holds m' (p, overwrite k s cs)"
    using p s m' unfolding holds_alt ib by (auto simp: nth_overwrite mwrite_def split: if_splits)
  moreover have "sa_ok m' sa (map region (xs @ (p, overwrite k s cs) # ys))"
    using ok s sa_ok_cong [OF f(1,2)] by (simp add: run_ok_def region_def)
  ultimately show ?thesis using m' by (auto simp: run_ok_def list_all_iff)
qed

lemma mwrite_new:
  assumes "run_ok m sa ((p, cs) # live)" "k + length s \<le> length cs"
  shows "\<exists>m'. mwrite m (fst p, snd p + k) s = Some m' \<and> run_ok m' sa ((p, overwrite k s cs) # live)"
  using mwrite_run [of m sa "[]" p cs live k s] assms by simp

lemma sa_zalloc_run:
  assumes ok: "run_ok m sa live" and sz: "sz \<le> 2 ^ 64 - 16"
  shows "\<exists>r sa' m'. sa_zalloc m sa sz = Some (r, sa', m') \<and>
    run_ok m' sa' ((r, replicate sz (Some (CHR 0x00))) # live)"
proof -
  obtain r sa' m1 where a: "sa_alloc m sa sz = (r, sa', m1)" by (metis prod_cases3)
  from mwrite_new [OF sa_alloc_run [OF ok sz a], of 0 "replicate sz (CHR 0x00)"] show ?thesis
    using a by (cases r) (auto simp: sa_zalloc_def overwrite_def)
qed

lemma sa_realloc_run:
  assumes ok: "run_ok m sa live" and p: "(p, cs) \<in> set live" "length cs \<le> sz" and sz: "sz \<le> 2 ^ 64 - 16"
  shows "\<exists>r sa' m'. sa_realloc m sa p sz (length cs) = Some (r, sa', m') \<and>
    run_ok m' sa' ((r, cs @ replicate (sz - length cs) None) # live)"
proof -
  obtain r sa' m1 where a: "sa_alloc m sa sz = (r, sa', m1)" by (metis prod_cases3)
  have ok1: "run_ok m1 sa' ((r, replicate sz None) # live)" by (rule sa_alloc_run [OF ok sz a])
  then have "holds m1 (p, cs)" using p(1) by (auto simp: run_ok_def list_all_iff)
  then obtain bs where bs: "mread m1 p (length cs) = Some bs"
    "list_all2 (\<lambda>b c. c = None \<or> c = Some b) bs cs"
    by (auto simp: holds_def split: option.splits)
  have len: "length bs = length cs" using bs(2) by (rule list_all2_lengthD)
  obtain m2 where m2: "mwrite m1 r bs = Some m2" "run_ok m2 sa' ((r, overwrite 0 bs (replicate sz None)) # live)"
    using mwrite_new [OF ok1, of 0 bs] len p(2) by auto
  have "holds m2 (r, overwrite 0 bs (replicate sz None))" using m2(2) by (simp add: run_ok_def)
  then have in2: "in_block m2 r sz" and
    known: "i < sz \<Longrightarrow> overwrite 0 bs (replicate sz None) ! i \<in> {None, Some (mbytes m2 (fst r) (snd r + i))}" for i
    using len p(2) by (simp_all add: holds_alt)
  have "bs ! i = mbytes m2 (fst r) (snd r + i)" if "i < length cs" for i
    using known [of i] that len p(2) by (simp add: nth_overwrite)
  then have "holds m2 (r, cs @ replicate (sz - length cs) None)"
    using in2 bs(2) len p(2) by (auto simp: holds_alt nth_append list_all2_conv_all_nth)
  then have "run_ok m2 sa' ((r, cs @ replicate (sz - length cs) None) # live)"
    using m2(2) p(2) len by (simp add: run_ok_def region_def)
  then show ?thesis using a bs(1) m2(1) by (simp add: sa_realloc_def)
qed

lemma sa_strndup_run:
  assumes ok: "run_ok m sa live" and l: "l \<le> length s" "l < 2 ^ 64 - 16"
  shows "\<exists>r sa' m'. sa_strndup m sa s l = Some (r, sa', m') \<and>
    run_ok m' sa' ((r, map Some (take l s @ [CHR 0x00])) # live)"
proof -
  obtain r sa' m1 where a: "sa_alloc m sa (l + 1) = (r, sa', m1)" by (metis prod_cases3)
  have w: "map (cget s) [0..<l] = take l s"
    using l(1) by (auto simp: cget_def intro: nth_equalityI)
  have "l + 1 \<le> 2 ^ 64 - 16" using l(2) by simp
  from mwrite_new [OF sa_alloc_run [OF ok this a], of 0 "take l s @ [CHR 0x00]"] show ?thesis
    using a l(1) by (cases r) (auto simp: sa_strndup_def overwrite_def w)
qed

lemma sa_strconcat_run:
  assumes ok: "run_ok m sa live" and l: "length s1 + length s2 < 2 ^ 64 - 16"
  shows "\<exists>r sa' m'. sa_strconcat m sa s1 s2 = Some (r, sa', m') \<and>
    run_ok m' sa' ((r, map Some (s1 @ s2 @ [CHR 0x00])) # live)"
proof -
  let ?n = "length s1 + length s2 + 1"
  let ?c1 = "overwrite 0 s1 (replicate ?n None)"
  let ?c2 = "overwrite (length s1) s2 ?c1"
  obtain r sa' m1 where a: "sa_alloc m sa ?n = (r, sa', m1)" by (metis prod_cases3)
  have "?n \<le> 2 ^ 64 - 16" using l by simp
  note ok1 = sa_alloc_run [OF ok this a]
  obtain m2 where m2: "mwrite m1 r s1 = Some m2" "run_ok m2 sa' ((r, ?c1) # live)"
    using mwrite_new [OF ok1, of 0 s1] by auto
  obtain m3 where m3: "mwrite m2 (fst r, snd r + length s1) s2 = Some m3" "run_ok m3 sa' ((r, ?c2) # live)"
    using mwrite_new [OF m2(2), of "length s1" s2] by auto
  obtain m4 where m4: "mwrite m3 (fst r, snd r + (length s1 + length s2)) [CHR 0x00] = Some m4"
    "run_ok m4 sa' ((r, overwrite (length s1 + length s2) [CHR 0x00] ?c2) # live)"
    using mwrite_new [OF m3(2), of "length s1 + length s2" "[CHR 0x00]"] by auto
  have "overwrite (length s1 + length s2) [CHR 0x00] ?c2 = map Some (s1 @ s2 @ [CHR 0x00])"
    by (simp add: overwrite_def)
  then show ?thesis using a m2(1) m3(1) m4 by (simp add: sa_strconcat_def add.assoc)
qed

lemma sa_run_ok: "sa_run m sa live \<Longrightarrow> run_ok m sa live"
proof (induction rule: sa_run.induct)
  case (create m sa m')
  then show ?case
    by (auto simp: sa_create_def GDKmalloc_def run_ok_def sa_ok_def sa_inv_def in_block_def less_Suc_eq)
next
  case (alloc m sa live sz r sa' m')
  then show ?case by (intro sa_alloc_run)
next
  case (zalloc m sa live sz r sa' m')
  then show ?case using sa_zalloc_run [of m sa live sz] by auto
next
  case (realloc m sa live p cs sz r sa' m')
  then show ?case using sa_realloc_run [of m sa live p cs sz] by auto
next
  case (strndup m sa live l s r sa' m')
  then show ?case using sa_strndup_run [of m sa live l s] by auto
next
  case (strconcat m sa live s1 s2 r sa' m')
  then show ?case using sa_strconcat_run [of m sa live s1 s2] by auto
next
  case (fill m sa xs p cs ys k s m')
  then show ?case using mwrite_run [of m sa xs p cs ys k s] by auto
next
  case (reset m sa live sa' m')
  then show ?case using sa_reset_ok [of m sa] by (auto simp: run_ok_def sa_ok_def)
qed

subsection \<open>The stack\<close>

definition stack_ok :: "'v sql_stack \<Rightarrow> bool" where
  "stack_ok s \<longleftrightarrow> 0 < size_of s \<and> size_of s < 2 ^ 30 \<and> int (length (vals s)) = size_of s \<and>
    0 \<le> top_of s \<and> top_of s \<le> size_of s"

definition contents :: "'v sql_stack \<Rightarrow> 'v option list" where
  "contents s = rev (take (nat (top_of s)) (vals s))"

lemma stack_write_contents:
  assumes "0 \<le> top_of s" "top_of s < int (length (vals s))" "int (length (vals s)) < 2 ^ 31"
  shows "\<exists>s'. stack_write s v = Some s' \<and> contents s' = v # contents s \<and> size_of s' = size_of s \<and>
    length (vals s') = length (vals s) \<and> top_of s' = top_of s + 1"
proof -
  define n where "n = nat (top_of s)"
  have n: "top_of s = int n" "n < length (vals s)" using assms by (auto simp: n_def)
  have "i32 (int n + 1) = int n + 1" using assms n by (intro i32_id) auto
  then show ?thesis
    using n by (simp add: stack_write_def contents_def nat_add_distrib take_Suc_conv_app_nth)
qed

lemma sql_stack_push_contents:
  assumes "stack_ok s"
  shows "\<exists>s'. sql_stack_push s v = Some s' \<and> contents s' = v # contents s \<and> 0 < top_of s' \<and>
    top_of s' \<le> size_of s' \<and> size_of s' = (if top_of s = size_of s then 2 * size_of s else size_of s) \<and>
    int (length (vals s')) = size_of s'"
proof (cases "top_of s = size_of s")
  case False
  then show ?thesis
    using stack_write_contents [of s v] assms by (auto simp: sql_stack_push_def stack_ok_def)
next
  case True
  have size: "i32 (size_of s * 2) = size_of s * 2" using assms by (intro i32_id) (auto simp: stack_ok_def)
  let ?s = "s\<lparr>size_of := size_of s * 2,
    vals := take (nat (size_of s)) (vals s) @ replicate (nat (size_of s * 2) - nat (size_of s)) None\<rparr>"
  have len: "int (length (vals ?s)) = size_of s * 2" "take (nat (size_of s)) (vals s) = vals s"
    using assms by (auto simp: stack_ok_def)
  have "contents ?s = contents s"
    using assms True by (auto simp: contents_def stack_ok_def)
  moreover have "\<exists>s'. stack_write ?s v = Some s' \<and> contents s' = v # contents ?s \<and>
      size_of s' = size_of ?s \<and> length (vals s') = length (vals ?s) \<and> top_of s' = top_of ?s + 1"
    using assms len(1) True by (intro stack_write_contents) (auto simp: stack_ok_def)
  ultimately show ?thesis
    using assms True len(1) size by (auto simp: sql_stack_push_def stack_ok_def Let_def)
qed

lemma sql_stack_pop_contents:
  assumes "stack_ok s" "0 < top_of s"
  shows "\<exists>s'. sql_stack_pop s = Some (hd (contents s), s') \<and> contents s' = tl (contents s) \<and>
    stack_ok s'"
proof -
  define n where "n = nat (top_of s - 1)"
  have n: "top_of s = int (Suc n)" "Suc n \<le> length (vals s)" using assms by (auto simp: n_def stack_ok_def)
  have "i32 (int n) = int n" using assms n by (intro i32_id) (auto simp: stack_ok_def)
  moreover have "nat (1 + int n) = Suc n" by simp
  ultimately show ?thesis
    using assms n by (simp add: sql_stack_pop_def contents_def stack_ok_def take_Suc_conv_app_nth)
qed

subsection \<open>Properties\<close>



text \<open>
  Duplicating a string in an allocator succeeds.  The copy reads back as the string and
  its terminator, is apart from all the pieces handed out before, and leaves what they
  hold unchanged.
\<close>

theorem sa_strdup_correct:
  assumes "sa_run m sa live" "length s < 2 ^ 64 - 16"
  shows "\<exists>r sa' m'. sa_strdup m sa s = Some (r, sa', m') \<and>
    mread m' r (length s + 1) = Some (s @ [CHR 0x00]) \<and>
    (\<forall>x\<in>set live. apart (r, length s + 1) (region x) \<and> holds m' x)"
proof -
  obtain r sa' m' where r: "sa_strndup m sa s (length s) = Some (r, sa', m')"
    "run_ok m' sa' ((r, map Some (s @ [CHR 0x00])) # live)"
    using sa_strndup_run [OF sa_run_ok [OF assms(1)], of "length s" s] assms(2) by auto
  have "holds m' (r, map Some (s @ [CHR 0x00]))" using r(2) by (simp add: run_ok_def)
  then have "mread m' r (length s + 1) = Some (s @ [CHR 0x00])"
    using known_all [of _ "s @ [CHR 0x00]"] by (simp add: holds_def split: option.splits)
  with r show ?thesis by (auto simp: sa_strdup_def run_ok_def sa_ok_def list_all_iff region_def)
qed

theorem sa_strdup_witness:
  "\<exists>m sa r sa' m'. sa_run m sa [] \<and> sa_strdup m sa ''ab'' = Some (r, sa', m') \<and>
     mread m' r 3 = Some [CHR ''a'', CHR ''b'', CHR 0x00]"
proof -
  let ?m0 = "\<lparr>msize = (\<lambda>_. None), mbytes = (\<lambda>_ _. CHR 0x00), mnext = 0\<rparr>"
  obtain sa m where "sa_create ?m0 = (sa, m)" by fastforce
  then have 1: "sa_run m sa []" by (intro sa_run.create [of ?m0]) auto
  from sa_strdup_correct [OF 1, of "''ab''"] 1 show ?thesis
    by (simp add: numeral_3_eq_3) blast
qed

text \<open>
  The stack is a last-in first-out list.  Pushing puts the value on top of the
  contents, growing the array when it is full; popping what was pushed gives the value
  and the contents from before.
\<close>

theorem sql_stack_lifo:
  assumes "stack_ok s" "size_of s < 2 ^ 29"
  shows "\<exists>s' s''. sql_stack_push s v = Some s' \<and> contents s' = v # contents s \<and> stack_ok s' \<and>
    sql_stack_pop s' = Some (v, s'') \<and> contents s'' = contents s"
proof -
  obtain s' where s': "sql_stack_push s v = Some s'" "contents s' = v # contents s" "0 < top_of s'"
    "stack_ok s'"
    using sql_stack_push_contents [OF assms(1), of v] assms by (auto simp: stack_ok_def split: if_splits)
  then show ?thesis using sql_stack_pop_contents [of s'] by auto
qed

theorem sql_stack_lifo_witness:
  "\<exists>s s' s''. sql_stack_new 1 = Some s \<and> sql_stack_push s (Some (7::nat)) = Some s' \<and>
     contents s' = [Some 7, None] \<and> sql_stack_pop s' = Some (Some 7, s'')"
proof -
  let ?s = "\<lparr>size_of = 1, top_of = 1, vals = [None :: nat option]\<rparr>"
  have new: "sql_stack_new 1 = Some ?s" by code_simp
  have "stack_ok ?s" "contents ?s = [None]" by (simp_all add: stack_ok_def contents_def)
  with sql_stack_lifo [of ?s "Some 7"] new show ?thesis by auto
qed

end
