(* ===== verification/Sql_List.thy ===== *)
theory Sql_List
  imports Gdk_Atoms "HOL-Library.Multiset" "HOL-Library.Monad_Syntax"
begin

unbundle bit_operations_syntax

text \<open>
  The linked lists of the SQL layer and the hash tables attached to them
  (\<^verbatim>\<open>sql/common/sql_list.c\<close>, \<^verbatim>\<open>sql/common/sql_hash.c\<close>).  List nodes live in a store, a map
  from addresses to nodes, so that a node that has been freed can no longer be read.
  The pointer \<^verbatim>\<open>NULL\<close> is \<^const>\<open>None\<close>; following \<^verbatim>\<open>NULL\<close> or a freed node is the result \<^const>\<open>None\<close>
  of an operation.  The chain of a hash bucket, which nothing else points into, is a list.
\<close>

subsection \<open>Hash tables\<close>

record 'd sql_hash =
  hkey :: "'d option \<Rightarrow> int"
  hsize :: int
  hbuckets :: "(int \<times> 'd option) list list"

function log_base2 :: "nat \<Rightarrow> nat" where
  "log_base2 n = (if n = 0 then 0 else log_base2 (n div 2) + 1)"
  by pat_completeness auto
termination
  by (relation "measure id") auto

declare log_base2.simps [simp del]

definition hash_new :: "int \<Rightarrow> ('d option \<Rightarrow> int) \<Rightarrow> 'd sql_hash" where
  "hash_new sz key =
    (let size = i32 (push_bit (log_base2 (nat (take_bit 32 (sz - 1)))) 1)
     in \<lparr>hkey = key, hsize = size, hbuckets = replicate (nat size) []\<rparr>)"

definition hash_slot :: "'d sql_hash \<Rightarrow> int \<Rightarrow> nat" where
  "hash_slot h key = nat (key AND (hsize h - 1))"

definition hash_add :: "'d sql_hash \<Rightarrow> int \<Rightarrow> 'd option \<Rightarrow> 'd sql_hash" where
  "hash_add h key v =
    (let b = hash_slot h key
     in h\<lparr>hbuckets := (hbuckets h)[b := (key, v) # hbuckets h ! b]\<rparr>)"

fun chain_del :: "int \<Rightarrow> 'd option \<Rightarrow> (int \<times> 'd option) list \<Rightarrow> (int \<times> 'd option) list" where
  "chain_del key v [] = []"
| "chain_del key v (e # es) =
    (if fst e \<noteq> key \<or> snd e \<noteq> v then e # chain_del key v es else es)"

definition hash_del :: "'d sql_hash \<Rightarrow> int \<Rightarrow> 'd option \<Rightarrow> 'd sql_hash" where
  "hash_del h key v =
    (let b = hash_slot h key
     in h\<lparr>hbuckets := (hbuckets h)[b := chain_del key v (hbuckets h ! b)]\<rparr>)"

text \<open>
  The loop of \<^verbatim>\<open>hash_delete\<close> runs into \<^verbatim>\<open>NULL\<close> when the value is not in the chain.
  The function first computes the key from the data; the flag \<open>alive\<close> says that the data has not
  been given to its destructor yet, and the use of destroyed data is the result \<^const>\<open>None\<close>.
\<close>

fun chain_delete :: "'d option \<Rightarrow> (int \<times> 'd option) list \<Rightarrow> (int \<times> 'd option) list option" where
  "chain_delete v [] = None"
| "chain_delete v (e # es) =
    (if snd e \<noteq> v then map_option ((#) e) (chain_delete v es) else Some es)"

definition hash_delete :: "bool \<Rightarrow> 'd sql_hash \<Rightarrow> 'd option \<Rightarrow> 'd sql_hash option" where
  "hash_delete alive h v =
    (let b = hash_slot h (hkey h v)
     in if \<not> alive then None else map_option (\<lambda>c. h\<lparr>hbuckets := (hbuckets h)[b := c]\<rparr>) (chain_delete v (hbuckets h ! b)))"

text \<open>The key of a name; the bytes are signed, the sum is taken modulo \<open>2^32\<close>.\<close>

definition hash_step :: "int \<Rightarrow> char \<Rightarrow> int" where
  "hash_step h c =
    (let h = take_bit 32 (h + i8 (int (of_char c)));
         h = take_bit 32 (h + push_bit 10 h)
     in h XOR drop_bit 6 h)"

definition hash_key :: "string \<Rightarrow> int" where
  "hash_key k = take_bit 32 (foldl hash_step 0 k + int (length k))"

subsection \<open>Nodes and lists\<close>

record 'd node =
  nxt :: "nat option"
  data :: "'d option"

record 'd store =
  nodes :: "nat \<Rightarrow> 'd node option"
  brk :: nat
  destroyed :: "'d list"

record 'd sql_list =
  lsa :: bool
  lht :: "'d sql_hash option"
  ldestroy :: bool
  lh :: "nat option"
  lt :: "nat option"
  lcnt :: int

definition node_create :: "'d store \<Rightarrow> 'd option \<Rightarrow> nat \<times> 'd store" where
  "node_create st d =
    (brk st, st\<lparr>nodes := (nodes st)(brk st \<mapsto> \<lparr>nxt = None, data = d\<rparr>), brk := brk st + 1\<rparr>)"

definition list_new :: "bool \<Rightarrow> bool \<Rightarrow> 'd sql_list" where
  "list_new sa destroy = \<lparr>lsa = sa, lht = None, ldestroy = destroy, lh = None, lt = None, lcnt = 0\<rparr>"

definition list_create :: "bool \<Rightarrow> 'd sql_list" where
  "list_create destroy = \<lparr>lsa = False, lht = None, ldestroy = destroy, lh = None, lt = None, lcnt = 0\<rparr>"

definition sa_list :: "bool \<Rightarrow> 'd sql_list" where
  "sa_list sa = \<lparr>lsa = sa, lht = None, ldestroy = False, lh = None, lt = None, lcnt = 0\<rparr>"

definition list_new_like :: "'d sql_list \<Rightarrow> 'd sql_list" where
  "list_new_like l = (if lsa l then list_new True (ldestroy l) else list_create (ldestroy l))"

definition list_length :: "'d sql_list option \<Rightarrow> int" where
  "list_length l = (case l of None \<Rightarrow> 0 | Some l \<Rightarrow> lcnt l)"

definition list_empty :: "'d sql_list option \<Rightarrow> bool" where
  "list_empty l = (case l of None \<Rightarrow> True | Some l \<Rightarrow> list_length (Some l) = 0)"

definition node_destroy :: "'d store \<Rightarrow> 'd sql_list \<Rightarrow> nat \<Rightarrow> 'd store option" where
  "node_destroy st l n = do {
     nd \<leftarrow> nodes st n;
     let st = (case data nd of
         Some d \<Rightarrow> if ldestroy l then st\<lparr>destroyed := destroyed st @ [d]\<rparr> else st
       | None \<Rightarrow> st);
     Some (if \<not> lsa l then st\<lparr>nodes := (nodes st)(n := None)\<rparr> else st)
   }"

text \<open>The loop over all the nodes; \<open>None\<close> when it does not end or meets a freed node.\<close>

partial_function (option) list_destroy_loop :: "'d sql_list \<Rightarrow> 'd store \<Rightarrow> nat option \<Rightarrow> 'd store option" where
  "list_destroy_loop l st n =
    (case n of
       None \<Rightarrow> Some st
     | Some t \<Rightarrow>
         if ldestroy l \<or> \<not> lsa l then do {
           nd \<leftarrow> nodes st t;
           st \<leftarrow> node_destroy st l t;
           list_destroy_loop l st (nxt nd)
         }
         else Some st)"

definition list_destroy :: "'d store \<Rightarrow> 'd sql_list \<Rightarrow> 'd store option" where
  "list_destroy st l = list_destroy_loop l st (lh l)"

definition ht_add :: "'d sql_list \<Rightarrow> 'd option \<Rightarrow> 'd sql_list" where
  "ht_add l d =
    (case lht l of None \<Rightarrow> l | Some h \<Rightarrow> l\<lparr>lht := Some (hash_add h (hkey h d) d)\<rparr>)"

definition set_nxt :: "'d store \<Rightarrow> nat \<Rightarrow> nat option \<Rightarrow> 'd store option" where
  "set_nxt st p q = do {
     nd \<leftarrow> nodes st p;
     Some (st\<lparr>nodes := (nodes st)(p \<mapsto> nd\<lparr>nxt := q\<rparr>)\<rparr>)
   }"

definition list_append :: "'d store \<Rightarrow> 'd sql_list \<Rightarrow> 'd option \<Rightarrow> ('d store \<times> 'd sql_list) option" where
  "list_append st l d = do {
     let (n, st) = node_create st d;
     (st, l) \<leftarrow> (if lcnt l \<noteq> 0 then do {
         t \<leftarrow> lt l;
         st \<leftarrow> set_nxt st t (Some n);
         Some (st, l)
       } else Some (st, l\<lparr>lh := Some n\<rparr>));
     Some (st, ht_add (l\<lparr>lt := Some n, lcnt := lcnt l + 1\<rparr>) d)
   }"

text \<open>The loops that look for the node before \<open>m\<close>.\<close>

partial_function (option) node_before :: "'d store \<Rightarrow> nat \<Rightarrow> nat option \<Rightarrow> nat option" where
  "node_before st p m = do {
     nd \<leftarrow> nodes st p;
     case nxt nd of
       None \<Rightarrow> Some p
     | Some q \<Rightarrow> if Some q = m then Some p else node_before st q m
   }"

definition list_append_before :: "'d store \<Rightarrow> 'd sql_list \<Rightarrow> nat option \<Rightarrow> 'd option \<Rightarrow> ('d store \<times> 'd sql_list) option" where
  "list_append_before st l m d = do {
     let p = lh l;
     let (n, st) = node_create st d;
     st \<leftarrow> set_nxt st n m;
     (st, l) \<leftarrow> (if p = m then Some (st, l\<lparr>lh := Some n\<rparr>)
       else do {
         p \<leftarrow> p;
         p \<leftarrow> node_before st p m;
         st \<leftarrow> set_nxt st p (Some n);
         Some (st, l)
       });
     Some (st, ht_add (l\<lparr>lcnt := lcnt l + 1\<rparr>) d)
   }"

definition list_prepend :: "'d store \<Rightarrow> 'd sql_list \<Rightarrow> 'd option \<Rightarrow> ('d store \<times> 'd sql_list) option" where
  "list_prepend st l d = do {
     let (n, st) = node_create st d;
     let l = (if lcnt l = 0 then l\<lparr>lt := Some n\<rparr> else l);
     st \<leftarrow> set_nxt st n (lh l);
     Some (st, ht_add (l\<lparr>lh := Some n, lcnt := lcnt l + 1\<rparr>) d)
   }"

partial_function (option) node_pred :: "'d store \<Rightarrow> nat option \<Rightarrow> nat \<Rightarrow> nat option option" where
  "node_pred st p n =
    (case p of
       None \<Rightarrow> Some None
     | Some a \<Rightarrow> do {
         nd \<leftarrow> nodes st a;
         if nxt nd = Some n then Some p else node_pred st (nxt nd) n
       })"

text \<open>Taking the node out of the chain: the node before it, or \<^verbatim>\<open>NULL\<close>, and the new head.\<close>

definition list_unlink :: "'d store \<Rightarrow> 'd sql_list \<Rightarrow> nat \<Rightarrow> nat option \<Rightarrow> (nat option \<times> 'd store \<times> 'd sql_list) option" where
  "list_unlink st l n q = do {
     p \<leftarrow> (if lh l \<noteq> Some n then node_pred st (lh l) n else Some (lh l));
     if p = Some n then Some (None, st, l\<lparr>lh := q\<rparr>)
     else do {
       a \<leftarrow> p;
       st \<leftarrow> set_nxt st a q;
       Some (p, st, l)
     }
   }"

definition ht_delete :: "bool \<Rightarrow> 'd sql_list \<Rightarrow> 'd option \<Rightarrow> 'd sql_list option" where
  "ht_delete alive l d =
    (case lht l of
       Some h \<Rightarrow>
         if d \<noteq> None then map_option (\<lambda>h. l\<lparr>lht := Some h\<rparr>) (hash_delete alive h d) else Some l
     | None \<Rightarrow> Some l)"

definition list_remove_node :: "'d store \<Rightarrow> 'd sql_list \<Rightarrow> nat \<Rightarrow> (nat option \<times> 'd store \<times> 'd sql_list) option" where
  "list_remove_node st l n = do {
     nd \<leftarrow> nodes st n;
     (p, st, l) \<leftarrow> list_unlink st l n (nxt nd);
     let l = (if lt l = Some n then l\<lparr>lt := p\<rparr> else l);
     st \<leftarrow> node_destroy st l n;
     l \<leftarrow> ht_delete (\<not> ldestroy l) (l\<lparr>lcnt := lcnt l - 1\<rparr>) (data nd);
     Some (p, st, l)
   }"

text \<open>The search of \<^verbatim>\<open>list_remove_data\<close> and \<^verbatim>\<open>list_move_data\<close> for the node with the data.\<close>

partial_function (option) node_with :: "'d store \<Rightarrow> nat option \<Rightarrow> 'd option \<Rightarrow> nat option option" where
  "node_with st p d =
    (case p of
       None \<Rightarrow> Some None
     | Some a \<Rightarrow> do {
         nd \<leftarrow> nodes st a;
         if data nd = d then Some p else node_with st (nxt nd) d
       })"

definition set_data :: "'d store \<Rightarrow> nat \<Rightarrow> 'd option \<Rightarrow> 'd store option" where
  "set_data st p d = do {
     nd \<leftarrow> nodes st p;
     Some (st\<lparr>nodes := (nodes st)(p \<mapsto> nd\<lparr>data := d\<rparr>)\<rparr>)
   }"

definition list_remove_data :: "'d store \<Rightarrow> 'd sql_list \<Rightarrow> 'd option \<Rightarrow> ('d store \<times> 'd sql_list) option" where
  "list_remove_data st l d = do {
     n \<leftarrow> node_with st (lh l) d;
     case n of
       None \<Rightarrow> Some (st, l)
     | Some n \<Rightarrow> do {
         l \<leftarrow> ht_delete True l d;
         st \<leftarrow> set_data st n None;
         (_, st, l) \<leftarrow> list_remove_node st l n;
         Some (st, l)
       }
   }"

definition list_move_data :: "'d store \<Rightarrow> 'd sql_list \<Rightarrow> 'd sql_list \<Rightarrow> 'd option \<Rightarrow> ('d store \<times> 'd sql_list \<times> 'd sql_list) option" where
  "list_move_data st s dst d = do {
     (st, s) \<leftarrow> list_remove_data st s d;
     (st, dst) \<leftarrow> list_append st dst d;
     Some (st, s, dst)
   }"

text \<open>
  The other functions walk over the nodes from the head without changing them.  \<open>list_walk\<close> is
  that loop: the nodes it visits.
\<close>

partial_function (option) list_walk :: "'d store \<Rightarrow> nat option \<Rightarrow> nat list option" where
  "list_walk st p =
    (case p of
       None \<Rightarrow> Some []
     | Some a \<Rightarrow> do {
         nd \<leftarrow> nodes st a;
         as \<leftarrow> list_walk st (nxt nd);
         Some (a # as)
       })"

definition data_at :: "'d store \<Rightarrow> nat \<Rightarrow> 'd option" where
  "data_at st a = (case nodes st a of None \<Rightarrow> None | Some nd \<Rightarrow> data nd)"

definition list_data :: "'d store \<Rightarrow> 'd sql_list \<Rightarrow> 'd option list option" where
  "list_data st l = map_option (map (data_at st)) (list_walk st (lh l))"

fun traverse_loop :: "(int \<Rightarrow> 'd option \<Rightarrow> int) \<Rightarrow> int \<Rightarrow> 'd option list \<Rightarrow> int" where
  "traverse_loop f seqnr [] = 0"
| "traverse_loop f seqnr (d # ds) =
    (let res = f seqnr d in if res \<noteq> 0 then res else traverse_loop f (seqnr + 1) ds)"

definition list_traverse :: "'d store \<Rightarrow> 'd sql_list \<Rightarrow> (int \<Rightarrow> 'd option \<Rightarrow> int) \<Rightarrow> int option" where
  "list_traverse st l f = map_option (traverse_loop f 0) (list_data st l)"

definition list_find :: "'d store \<Rightarrow> 'd sql_list \<Rightarrow> 'd option \<Rightarrow> ('d option \<Rightarrow> 'd option \<Rightarrow> int) option \<Rightarrow> nat option option" where
  "list_find st l key cmp =
    (if key = None then Some None
     else case cmp of
       Some cmp \<Rightarrow> map_option (find (\<lambda>a. cmp (data_at st a) key = 0)) (list_walk st (lh l))
     | None \<Rightarrow> map_option (find (\<lambda>a. data_at st a = key)) (list_walk st (lh l)))"

fun cmp_loop :: "('d option \<Rightarrow> 'd option \<Rightarrow> int) \<Rightarrow> 'd option list \<Rightarrow> 'd option list \<Rightarrow> int option" where
  "cmp_loop cmp [] ms = Some 0"
| "cmp_loop cmp (n # ns) [] = None"
| "cmp_loop cmp (n # ns) (m # ms) =
    (let res = cmp n m in if res \<noteq> 0 then Some res else cmp_loop cmp ns ms)"

definition list_cmp :: "'d store \<Rightarrow> 'd sql_list option \<Rightarrow> 'd sql_list option \<Rightarrow> ('d option \<Rightarrow> 'd option \<Rightarrow> int) \<Rightarrow> int option" where
  "list_cmp st l1 l2 cmp =
    (if l1 = l2 then Some 0
     else case (l1, l2) of
       (Some l1, Some l2) \<Rightarrow>
         if lcnt l1 \<noteq> lcnt l2 then Some (- 1)
         else do {
           ns \<leftarrow> list_data st l1;
           ms \<leftarrow> list_data st l2;
           cmp_loop cmp ns ms
         }
     | _ \<Rightarrow> Some (- 1))"

text \<open>The two loops of \<^verbatim>\<open>list_match\<close>, with the bit set \<^verbatim>\<open>chk\<close> of positions taken.\<close>

fun match_inner :: "('d option \<Rightarrow> int) \<Rightarrow> int \<Rightarrow> nat \<Rightarrow> bool \<Rightarrow> 'd option list \<Rightarrow> int \<times> bool" where
  "match_inner cmp chk pos fnd [] = (chk, fnd)"
| "match_inner cmp chk pos fnd (m # ms) =
    (if chk AND push_bit pos 1 = 0 \<and> cmp m = 0
     then match_inner cmp (chk AND push_bit pos 1) (pos + 1) True ms
     else match_inner cmp chk (pos + 1) fnd ms)"

fun match_outer :: "('d option \<Rightarrow> 'd option \<Rightarrow> int) \<Rightarrow> int \<Rightarrow> 'd option list \<Rightarrow> 'd option list \<Rightarrow> int" where
  "match_outer cmp chk [] ms = 0"
| "match_outer cmp chk (n # ns) ms =
    (let (chk, fnd) = match_inner (cmp n) chk 0 False ms
     in if \<not> fnd then - 1 else match_outer cmp chk ns ms)"

definition list_match :: "'d store \<Rightarrow> 'd sql_list option \<Rightarrow> 'd sql_list option \<Rightarrow> ('d option \<Rightarrow> 'd option \<Rightarrow> int) \<Rightarrow> int option" where
  "list_match st l1 l2 cmp =
    (if l1 = l2 then Some 0
     else case (l1, l2) of
       (Some l1, Some l2) \<Rightarrow>
         if lcnt l1 \<noteq> lcnt l2 then Some (- 1)
         else do {
           ns \<leftarrow> list_data st l1;
           ms \<leftarrow> list_data st l2;
           Some (match_outer cmp 0 ns ms)
         }
     | _ \<Rightarrow> Some (- 1))"

definition dup_of :: "('d option \<Rightarrow> 'd option) option \<Rightarrow> 'd option \<Rightarrow> 'd option" where
  "dup_of dup d = (case dup of None \<Rightarrow> d | Some f \<Rightarrow> f d)"

fun append_all :: "'d store \<Rightarrow> 'd sql_list \<Rightarrow> 'd option list \<Rightarrow> ('d store \<times> 'd sql_list) option" where
  "append_all st res [] = Some (st, res)"
| "append_all st res (d # ds) = do { (st, res) \<leftarrow> list_append st res d; append_all st res ds }"

definition list_select :: "'d store \<Rightarrow> 'd sql_list option \<Rightarrow> 'd option \<Rightarrow> ('d option \<Rightarrow> 'd option \<Rightarrow> int) \<Rightarrow>
    ('d option \<Rightarrow> 'd option) option \<Rightarrow> ('d store \<times> 'd sql_list option) option" where
  "list_select st l key cmp dup =
    (case l of
       None \<Rightarrow> Some (st, None)
     | Some l \<Rightarrow>
         if key = None then Some (st, None)
         else do {
           ds \<leftarrow> list_data st l;
           (st, res) \<leftarrow> append_all st (list_new_like l) (map (dup_of dup) (filter (\<lambda>d. cmp d key = 0) ds));
           Some (st, Some res)
         })"

fun order_loop :: "('d option \<Rightarrow> 'd option \<Rightarrow> int) \<Rightarrow> ('d option \<Rightarrow> 'd option) option \<Rightarrow> 'd store \<Rightarrow> 'd sql_list \<Rightarrow>
    'd option list \<Rightarrow> ('d store \<times> 'd sql_list) option" where
  "order_loop cmp dup st res [] = Some (st, res)"
| "order_loop cmp dup st res (d # ds) = do {
     as \<leftarrow> list_walk st (lh res);
     (st, res) \<leftarrow> (case find (\<lambda>m. cmp d (data_at st m) > 0) as of
         Some m \<Rightarrow> list_append_before st res (Some m) (dup_of dup d)
       | None \<Rightarrow> list_append st res (dup_of dup d));
     order_loop cmp dup st res ds
   }"

definition list_order :: "'d store \<Rightarrow> 'd sql_list \<Rightarrow> ('d option \<Rightarrow> 'd option \<Rightarrow> int) \<Rightarrow>
    ('d option \<Rightarrow> 'd option) option \<Rightarrow> ('d store \<times> 'd sql_list) option" where
  "list_order st l cmp dup = do {
     ds \<leftarrow> list_data st l;
     order_loop cmp dup st (list_new_like l) ds
   }"

fun distinct_loop :: "('d option \<Rightarrow> 'd option \<Rightarrow> int) option \<Rightarrow> ('d option \<Rightarrow> 'd option) option \<Rightarrow> 'd store \<Rightarrow>
    'd sql_list \<Rightarrow> 'd option list \<Rightarrow> ('d store \<times> 'd sql_list) option" where
  "distinct_loop cmp dup st res [] = Some (st, res)"
| "distinct_loop cmp dup st res (d # ds) = do {
     n \<leftarrow> list_find st res d cmp;
     (st, res) \<leftarrow> (if n = None then list_append st res (dup_of dup d) else Some (st, res));
     distinct_loop cmp dup st res ds
   }"

definition list_distinct :: "'d store \<Rightarrow> 'd sql_list \<Rightarrow> ('d option \<Rightarrow> 'd option \<Rightarrow> int) option \<Rightarrow>
    ('d option \<Rightarrow> 'd option) option \<Rightarrow> ('d store \<times> 'd sql_list) option" where
  "list_distinct st l cmp dup = do {
     ds \<leftarrow> list_data st l;
     distinct_loop cmp dup st (list_new_like l) ds
   }"

definition list_position :: "'d store \<Rightarrow> 'd sql_list \<Rightarrow> 'd option \<Rightarrow> nat option" where
  "list_position st l v = map_option (\<lambda>ds. length (takeWhile (\<lambda>d. v \<noteq> d) ds)) (list_data st l)"

definition list_fetch :: "'d store \<Rightarrow> 'd sql_list \<Rightarrow> int \<Rightarrow> 'd option option" where
  "list_fetch st l pos = map_option (\<lambda>ds. case drop (nat pos) ds of [] \<Rightarrow> None | d # _ \<Rightarrow> d) (list_data st l)"

definition list_reduce :: "'d store \<Rightarrow> 'd sql_list \<Rightarrow> ('d option \<Rightarrow> 'd option \<Rightarrow> 'd option) \<Rightarrow>
    ('d option \<Rightarrow> 'd option) option \<Rightarrow> 'd option option" where
  "list_reduce st l red dup =
    map_option (\<lambda>ds. case ds of [] \<Rightarrow> None | d # ds \<Rightarrow> foldl red (dup_of dup d) (map (dup_of dup) ds))
      (list_data st l)"

definition list_map :: "'d store \<Rightarrow> 'd sql_list \<Rightarrow> ('d option \<Rightarrow> 'd option) \<Rightarrow> ('d store \<times> 'd sql_list) option" where
  "list_map st l f = do {
     ds \<leftarrow> list_data st l;
     append_all st (list_new_like l) (filter (\<lambda>v. v \<noteq> None) (map f ds))
   }"

text \<open>Merging a list into itself never reaches the end of it.\<close>

definition list_merge :: "'d store \<Rightarrow> 'd sql_list \<Rightarrow> 'd sql_list option \<Rightarrow> ('d option \<Rightarrow> 'd option) option \<Rightarrow>
    ('d store \<times> 'd sql_list) option" where
  "list_merge st l d dup =
    (case d of
       None \<Rightarrow> Some (st, l)
     | Some d \<Rightarrow>
         if lh d = lh l \<and> lh d \<noteq> None then None
         else do {
           ds \<leftarrow> list_data st d;
           append_all st l (map (\<lambda>x. if x = None then x else dup_of dup x) ds)
         })"

definition list_merge_destroy :: "'d store \<Rightarrow> 'd sql_list \<Rightarrow> 'd sql_list option \<Rightarrow> ('d option \<Rightarrow> 'd option) option \<Rightarrow>
    ('d store \<times> 'd sql_list) option" where
  "list_merge_destroy st l d dup =
    (case d of
       None \<Rightarrow> Some (st, l)
     | Some d \<Rightarrow>
         if lh d = lh l \<and> lh d \<noteq> None then None
         else do {
           ds \<leftarrow> list_data st d;
           (st, l) \<leftarrow> append_all st l (map (dup_of dup) ds);
           st \<leftarrow> list_destroy st d;
           Some (st, l)
         })"

definition list_dup :: "'d store \<Rightarrow> 'd sql_list \<Rightarrow> ('d option \<Rightarrow> 'd option) option \<Rightarrow> ('d store \<times> 'd sql_list) option" where
  "list_dup st l dup = list_merge st (list_new_like l) (Some l) dup"

end
