(* ===== verification/Sql_List_Rep.thy ===== *)
theory Sql_List_Rep
  imports Sql_List
begin

text \<open>
  The lists of \<open>Sql_List\<close> represent sequences: the well-formedness of a list in the store, what
  each operation does to the sequence, and the properties of the list component.
\<close>

subsection \<open>Chains of nodes\<close>

fun seg :: "(nat \<Rightarrow> 'd node option) \<Rightarrow> nat option \<Rightarrow> nat list \<Rightarrow> nat option \<Rightarrow> bool" where
  "seg ns p [] q \<longleftrightarrow> p = q"
| "seg ns p (a # as) q \<longleftrightarrow> p = Some a \<and> (\<exists>nd. ns a = Some nd \<and> seg ns (nxt nd) as q)"

lemma seg_append: "seg ns p (as @ bs) q \<longleftrightarrow> (\<exists>r. seg ns p as r \<and> seg ns r bs q)"
  by (induction as arbitrary: p) auto

lemma seg_frame:
  "(\<And>a. a \<in> set as \<Longrightarrow> map_option nxt (ns' a) = map_option nxt (ns a)) \<Longrightarrow> seg ns' p as q = seg ns p as q"
proof (induction as arbitrary: p)
  case (Cons a as)
  have "map_option nxt (ns' a) = map_option nxt (ns a)" by (rule Cons.prems) simp
  with Cons show ?case by (cases "ns a"; cases "ns' a") simp_all
qed simp

lemma seg_dom: "seg ns p as q \<Longrightarrow> a \<in> set as \<Longrightarrow> ns a \<noteq> None"
  by (induction as arbitrary: p) auto

lemma seg_head: "seg ns p (as @ [a]) q \<Longrightarrow> p = Some (hd (as @ [a]))"
  by (cases as) auto

text \<open>The loops that follow the chain.\<close>

lemma list_walk_seg: "seg (nodes st) p as None \<Longrightarrow> list_walk st p = Some as"
  by (induction as arbitrary: p) (auto simp: list_walk.simps)

lemma node_before_seg:
  "seg (nodes st) (Some a) (xs @ [x]) m \<Longrightarrow> m \<notin> Some ` set xs \<Longrightarrow> distinct (xs @ [x]) \<Longrightarrow> m \<noteq> Some x \<Longrightarrow>
   node_before st a m = Some x"
proof (induction xs arbitrary: a)
  case Nil
  then show ?case by (subst node_before.simps) (auto split: option.splits)
next
  case (Cons y ys)
  then obtain nd where nd: "a = y" "nodes st y = Some nd" "seg (nodes st) (nxt nd) (ys @ [x]) m" by auto
  obtain b where b: "nxt nd = Some b" "b \<in> set (ys @ [x])"
    using nd(3) by (cases ys) auto
  then have "nxt nd \<noteq> m" using Cons.prems by auto
  then show ?case
    using Cons b nd by (subst node_before.simps) auto
qed

lemma node_pred_seg:
  "seg (nodes st) p (xs @ [x]) (Some n) \<Longrightarrow> n \<notin> set xs \<Longrightarrow> n \<noteq> x \<Longrightarrow>
   node_pred st p n = Some (Some x)"
proof (induction xs arbitrary: p)
  case Nil
  then show ?case by (subst node_pred.simps) auto
next
  case (Cons y ys)
  then obtain nd where nd: "p = Some y" "nodes st y = Some nd" "seg (nodes st) (nxt nd) (ys @ [x]) (Some n)" by auto
  have "nxt nd \<noteq> Some n" using nd(3) Cons.prems by (cases ys) auto
  then show ?case using Cons nd by (subst node_pred.simps) auto
qed

lemma node_with_seg:
  "seg (nodes st) p as None \<Longrightarrow> node_with st p d = Some (find (\<lambda>a. data_at st a = d) as)"
  by (induction as arbitrary: p) (auto simp: node_with.simps data_at_def)

subsection \<open>Hash tables\<close>

text \<open>
  A hash table represents a bag of values: the entries with a value, in the bucket of their key.
\<close>

definition hash_wf :: "'d sql_hash \<Rightarrow> bool" where
  "hash_wf h \<longleftrightarrow> (\<exists>k. hsize h = 2 ^ k) \<and> int (length (hbuckets h)) = hsize h"

definition hash_rep :: "'d sql_hash \<Rightarrow> 'd option multiset \<Rightarrow> bool" where
  "hash_rep h M \<longleftrightarrow> hash_wf h \<and> (\<forall>b<length (hbuckets h).
    filter_mset (\<lambda>e. snd e \<noteq> None) (mset (hbuckets h ! b)) =
    image_mset (\<lambda>d. (hkey h d, d)) (filter_mset (\<lambda>d. d \<noteq> None \<and> hash_slot h (hkey h d) = b) M))"

lemma hash_slot_less: "hash_wf h \<Longrightarrow> hash_slot h key < length (hbuckets h)"
proof -
  assume "hash_wf h"
  then obtain k where k: "hsize h = 2 ^ k" "int (length (hbuckets h)) = hsize h" by (auto simp: hash_wf_def)
  have "key AND (2 ^ k - 1) = take_bit k key" by (simp add: take_bit_eq_mask mask_eq_exp_minus_1)
  also have "\<dots> < 2 ^ k" by simp
  finally show ?thesis using k by (simp add: hash_slot_def nat_less_iff take_bit_eq_mask mask_eq_exp_minus_1)
qed

lemma log_base2_bound: "n < 2 ^ log_base2 n"
proof (induction n rule: log_base2.induct)
  case (1 n)
  then show ?case by (cases "n = 0") (auto simp: log_base2.simps [of n])
qed

lemma log_base2_le: "n < 2 ^ k \<Longrightarrow> log_base2 n \<le> k"
proof (induction n arbitrary: k rule: log_base2.induct)
  case (1 n)
  show ?case
  proof (cases "n = 0")
    case False
    then obtain k' where "k = Suc k'" using "1.prems" by (cases k) auto
    then show ?thesis using "1.IH" [OF False, of k'] "1.prems" by (auto simp: log_base2.simps [of n])
  qed (simp add: log_base2.simps)
qed

lemma hash_new_rep:
  assumes "1 \<le> sz" "sz \<le> 2 ^ 30"
  shows "hash_rep (hash_new sz key) {#} \<and> sz \<le> hsize (hash_new sz key)"
proof -
  define k where "k = log_base2 (nat (sz - 1))"
  have tb: "take_bit 32 (sz - 1) = sz - 1" using assms by (simp add: take_bit_int_eq_self)
  have k: "k \<le> 30" using assms unfolding k_def by (intro log_base2_le) auto
  then have "(2::int) ^ k \<le> 2 ^ 30" by (intro power_increasing) auto
  then have id: "i32 (2 ^ k) = 2 ^ k" by (intro i32_id) (auto intro: order.trans [of _ 0])
  have size: "hsize (hash_new sz key) = 2 ^ k" "hbuckets (hash_new sz key) = replicate (2 ^ k) []"
    using id by (simp_all add: hash_new_def Let_def tb push_bit_eq_mult nat_power_eq flip: k_def)
  have "nat (sz - 1) < 2 ^ k" unfolding k_def by (rule log_base2_bound)
  then have "sz - 1 < 2 ^ k" by (simp add: zless_nat_eq_int_zless nat_less_iff)
  then show ?thesis using size by (auto simp: hash_rep_def hash_wf_def)
qed

lemma hash_add_rep:
  assumes "hash_rep h M"
  shows "hash_rep (hash_add h (hkey h d) d) (add_mset d M)"
  using assms hash_slot_less [of h "hkey h d"]
  by (auto simp: hash_rep_def hash_wf_def hash_add_def Let_def nth_list_update hash_slot_def)

lemma chain_delete_mset:
  "v \<in> snd ` set es \<Longrightarrow> \<exists>e es'. chain_delete v es = Some es' \<and> snd e = v \<and> mset es = add_mset e (mset es')"
proof (induction es)
  case (Cons x xs)
  show ?case
  proof (cases "snd x = v")
    case False
    with Cons obtain e es' where "chain_delete v xs = Some es'" "snd e = v" "mset xs = add_mset e (mset es')"
      by auto
    with False show ?thesis by (intro exI [of _ e] exI [of _ "x # es'"]) simp
  next
    case True
    then show ?thesis by (intro exI [of _ x] exI [of _ xs]) simp
  qed
qed simp

lemma hash_delete_rep:
  assumes h: "hash_rep h (add_mset (Some v) M)"
  shows "\<exists>h'. hash_delete True h (Some v) = Some h' \<and> hash_rep h' M \<and> hkey h' = hkey h"
proof -
  let ?b = "hash_slot h (hkey h (Some v))"
  let ?es = "hbuckets h ! ?b"
  have b: "?b < length (hbuckets h)" using h hash_slot_less by (auto simp: hash_rep_def)
  then have es: "filter_mset (\<lambda>e. snd e \<noteq> None) (mset ?es) = add_mset (hkey h (Some v), Some v)
      (image_mset (\<lambda>d. (hkey h d, d)) (filter_mset (\<lambda>d. d \<noteq> None \<and> hash_slot h (hkey h d) = ?b) M))"
    using h by (simp add: hash_rep_def)
  have "(hkey h (Some v), Some v) \<in># filter_mset (\<lambda>e. snd e \<noteq> None) (mset ?es)" unfolding es by simp
  then have "(hkey h (Some v), Some v) \<in> set ?es" by simp
  then have "Some v \<in> snd ` set ?es" by force
  then obtain e c where c: "chain_delete (Some v) ?es = Some c" "snd e = Some v"
    "mset ?es = add_mset e (mset c)"
    using chain_delete_mset by blast
  have "e \<in># filter_mset (\<lambda>e. snd e \<noteq> None) (mset ?es)" using c by simp
  then have e: "e = (hkey h (Some v), Some v)" unfolding es using c(2) by auto
  have "filter_mset (\<lambda>e. snd e \<noteq> None) (mset c) =
      image_mset (\<lambda>d. (hkey h d, d)) (filter_mset (\<lambda>d. d \<noteq> None \<and> hash_slot h (hkey h d) = ?b) M)"
    using es c(3) e by simp
  then have "hash_rep (h\<lparr>hbuckets := (hbuckets h)[?b := c]\<rparr>) M"
    using h b by (auto simp: hash_rep_def hash_wf_def nth_list_update hash_slot_def)
  then show ?thesis using c(1) by (auto simp: hash_delete_def Let_def)
qed

subsection \<open>Lists\<close>

definition list_rep :: "'d store \<Rightarrow> 'd sql_list \<Rightarrow> nat list \<Rightarrow> bool" where
  "list_rep st l as \<longleftrightarrow> seg (nodes st) (lh l) as None \<and> distinct as \<and> lcnt l = int (length as) \<and>
    lt l = (if as = [] then None else Some (last as)) \<and> (\<forall>a. nodes st a \<noteq> None \<longrightarrow> a < brk st) \<and>
    (\<forall>h. lht l = Some h \<longrightarrow> hash_rep h (mset (map (data_at st) as)))"

text \<open>What an insertion changes: one new node, and links inside the list.\<close>

definition inserted :: "'d store \<Rightarrow> nat list \<Rightarrow> 'd store \<Rightarrow> 'd option \<Rightarrow> bool" where
  "inserted st as st' d \<longleftrightarrow> brk st' = brk st + 1 \<and> destroyed st' = destroyed st \<and> data_at st' (brk st) = d \<and>
    (\<forall>a\<in>set as. data_at st' a = data_at st a) \<and>
    (\<forall>a. a \<notin> set as \<longrightarrow> a \<noteq> brk st \<longrightarrow> nodes st' a = nodes st a)"

lemma list_rep_fresh: "list_rep st l as \<Longrightarrow> brk st \<notin> set as"
  unfolding list_rep_def using seg_dom by (metis less_irrefl)

lemma ht_add_simps [simp]:
  "lh (ht_add l d) = lh l" "lt (ht_add l d) = lt l" "lcnt (ht_add l d) = lcnt l"
  "lsa (ht_add l d) = lsa l" "ldestroy (ht_add l d) = ldestroy l"
  by (simp_all add: ht_add_def split: option.splits)

lemma ht_add_rep:
  assumes "\<forall>h. lht l = Some h \<longrightarrow> hash_rep h M" "M' = add_mset d M"
  shows "\<forall>h. lht (ht_add l d) = Some h \<longrightarrow> hash_rep h M'"
  using assms hash_add_rep by (auto simp: ht_add_def split: option.splits)

lemma data_at_list: "inserted st as st' d \<Longrightarrow> map (data_at st') as = map (data_at st) as"
  by (simp add: inserted_def)

lemma list_rep_insert:
  assumes rep: "list_rep st l (xs @ ys)" and ins: "inserted st (xs @ ys) st' d"
    and seg: "seg (nodes st') (lh l') (xs @ brk st # ys) None"
    and l': "lht l' = lht l" "lcnt l' = lcnt l" "lt l' = (if ys = [] then Some (brk st) else lt l)"
  shows "list_rep st' (ht_add (l'\<lparr>lcnt := lcnt l' + 1\<rparr>) d) (xs @ brk st # ys) \<and>
    map (data_at st') (xs @ brk st # ys) = map (data_at st) xs @ d # map (data_at st) ys"
proof -
  have fresh: "brk st \<notin> set (xs @ ys)" using list_rep_fresh [OF rep] .
  have data: "map (data_at st') (xs @ brk st # ys) = map (data_at st) xs @ d # map (data_at st) ys"
    using ins by (auto simp: inserted_def)
  have "a < brk st'" if "nodes st' a \<noteq> None" for a
  proof (cases "a = brk st")
    case False
    have "nodes st a \<noteq> None"
    proof (cases "a \<in> set (xs @ ys)")
      case True
      then show ?thesis using rep seg_dom unfolding list_rep_def by blast
    next
      case out: False
      then have "nodes st' a = nodes st a" using ins False unfolding inserted_def by blast
      then show ?thesis using that by simp
    qed
    then have "a < brk st" using rep unfolding list_rep_def by blast
    then show ?thesis using ins by (simp add: inserted_def)
  qed (use ins in \<open>simp add: inserted_def\<close>)
  moreover have "\<forall>h. lht (ht_add (l'\<lparr>lcnt := lcnt l' + 1\<rparr>) d) = Some h \<longrightarrow>
      hash_rep h (mset (map (data_at st') (xs @ brk st # ys)))"
  proof (rule ht_add_rep)
    show "\<forall>h. lht (l'\<lparr>lcnt := lcnt l' + 1\<rparr>) = Some h \<longrightarrow> hash_rep h (mset (map (data_at st) (xs @ ys)))"
      using rep l'(1) by (simp add: list_rep_def)
    show "mset (map (data_at st') (xs @ brk st # ys)) = add_mset d (mset (map (data_at st) (xs @ ys)))"
      unfolding data by simp
  qed
  ultimately show ?thesis
    using rep fresh seg l' data by (auto simp: list_rep_def)
qed

text \<open>Linking the new node after \<open>x\<close>.\<close>

lemma link_after:
  assumes rep: "list_rep st l (xs @ x # ys)"
    and q: "seg (nodes st) (Some x) (x # ys) None"
    and st2: "nodes st2 = (nodes st)(brk st \<mapsto> \<lparr>nxt = q, data = d\<rparr>)" "brk st2 = brk st + 1"
      "destroyed st2 = destroyed st" "q = (case ys of [] \<Rightarrow> None | y # _ \<Rightarrow> Some y)"
  shows "\<exists>st'. set_nxt st2 x (Some (brk st)) = Some st' \<and> inserted st (xs @ x # ys) st' d \<and>
    seg (nodes st') (lh l) (xs @ x # brk st # ys) None"
proof -
  have fresh: "brk st \<notin> set (xs @ x # ys)" using list_rep_fresh [OF rep] .
  have d: "distinct (xs @ x # ys)" using rep by (simp add: list_rep_def)
  obtain nd where nd: "nodes st x = Some nd" "seg (nodes st) (nxt nd) ys None" using q by auto
  let ?ns = "(nodes st)(brk st \<mapsto> \<lparr>nxt = q, data = d\<rparr>, x \<mapsto> nd\<lparr>nxt := Some (brk st)\<rparr>)"
  have set: "set_nxt st2 x (Some (brk st)) = Some (st2\<lparr>nodes := ?ns\<rparr>)"
    using nd(1) fresh st2(1) by (auto simp: set_nxt_def)
  have xs: "seg (nodes st) (lh l) xs (Some x)" using rep by (auto simp: list_rep_def seg_append)
  have "seg ?ns (lh l) xs (Some x)"
    using xs fresh d by (subst seg_frame [where ns = "nodes st"]) auto
  moreover have "nxt nd = q" using nd(2) st2(4) by (cases ys) auto
  then have "seg ?ns q ys None"
    using nd(2) fresh d by (subst seg_frame [where ns = "nodes st"]) auto
  ultimately have "seg ?ns (lh l) (xs @ x # brk st # ys) None"
    using fresh by (auto simp: seg_append)
  moreover have "inserted st (xs @ x # ys) (st2\<lparr>nodes := ?ns\<rparr>) d"
    using st2 fresh nd(1) by (auto simp: inserted_def data_at_def)
  ultimately show ?thesis using set by auto
qed

lemma list_append_rep:
  assumes rep: "list_rep st l as"
  shows "\<exists>st' l'. list_append st l d = Some (st', l') \<and> list_rep st' l' (as @ [brk st]) \<and>
    inserted st as st' d \<and> map (data_at st') (as @ [brk st]) = map (data_at st) as @ [d]"
proof (cases as rule: rev_cases)
  case Nil
  let ?st = "st\<lparr>nodes := (nodes st)(brk st \<mapsto> \<lparr>nxt = None, data = d\<rparr>), brk := brk st + 1\<rparr>"
  have ins: "inserted st [] ?st d" by (simp add: inserted_def data_at_def)
  have "list_append st l d = Some (?st, ht_add (l\<lparr>lh := Some (brk st), lt := Some (brk st), lcnt := lcnt l + 1\<rparr>) d)"
    using rep Nil by (simp add: list_append_def node_create_def list_rep_def)
  moreover have "list_rep ?st (ht_add (l\<lparr>lh := Some (brk st), lt := Some (brk st), lcnt := lcnt l + 1\<rparr>) d)
      ([] @ brk st # []) \<and> map (data_at ?st) ([] @ brk st # []) = map (data_at st) [] @ d # map (data_at st) []"
    using list_rep_insert [of st l "[]" "[]" ?st d "l\<lparr>lh := Some (brk st), lt := Some (brk st)\<rparr>"] rep ins Nil by simp
  ultimately show ?thesis using ins Nil by auto
next
  case (snoc xs x)
  let ?st = "st\<lparr>nodes := (nodes st)(brk st \<mapsto> \<lparr>nxt = None, data = d\<rparr>), brk := brk st + 1\<rparr>"
  have "seg (nodes st) (Some x) [x] None"
    using rep snoc by (auto simp: list_rep_def seg_append)
  then obtain st' where st': "set_nxt ?st x (Some (brk st)) = Some st'" "inserted st (xs @ [x]) st' d"
    "seg (nodes st') (lh l) (xs @ x # [brk st]) None"
    using link_after [where st = st and l = l and xs = xs and x = x and ys = "[]" and ?st2.0 = ?st and q = None and d = d]
      rep snoc by auto
  have "list_append st l d = Some (st', ht_add (l\<lparr>lt := Some (brk st), lcnt := lcnt l + 1\<rparr>) d)"
    using rep snoc st'(1) by (simp add: list_append_def node_create_def list_rep_def)
  moreover have "list_rep st' (ht_add (l\<lparr>lt := Some (brk st), lcnt := lcnt l + 1\<rparr>) d) (as @ brk st # []) \<and>
      map (data_at st') (as @ brk st # []) = map (data_at st) as @ d # map (data_at st) []"
    using list_rep_insert [of st l as "[]" st' d "l\<lparr>lt := Some (brk st)\<rparr>"] rep st' snoc by simp
  ultimately show ?thesis using st'(2) snoc by auto
qed

text \<open>Linking the new node in front.\<close>

lemma link_front:
  assumes rep: "list_rep st l as"
  shows "\<exists>st'. set_nxt (snd (node_create st d)) (brk st) (lh l) = Some st' \<and> inserted st as st' d \<and>
    seg (nodes st') (Some (brk st)) (brk st # as) None"
proof -
  have fresh: "brk st \<notin> set as" using list_rep_fresh [OF rep] .
  let ?st = "st\<lparr>nodes := (nodes st)(brk st \<mapsto> \<lparr>nxt = lh l, data = d\<rparr>), brk := brk st + 1\<rparr>"
  have "set_nxt (snd (node_create st d)) (brk st) (lh l) = Some ?st"
    by (simp add: set_nxt_def node_create_def)
  moreover have "seg (nodes ?st) (lh l) as None"
    using rep fresh by (subst seg_frame [where ns = "nodes st"]) (auto simp: list_rep_def)
  moreover have "inserted st as ?st d"
    using fresh by (auto simp: inserted_def data_at_def)
  ultimately show ?thesis by auto
qed

lemma list_prepend_rep:
  assumes rep: "list_rep st l as"
  shows "\<exists>st' l'. list_prepend st l d = Some (st', l') \<and> list_rep st' l' (brk st # as) \<and>
    inserted st as st' d \<and> map (data_at st') (brk st # as) = d # map (data_at st) as"
proof -
  obtain st' where st': "set_nxt (snd (node_create st d)) (brk st) (lh l) = Some st'" "inserted st as st' d"
    "seg (nodes st') (Some (brk st)) (brk st # as) None"
    using link_front [OF rep] by blast
  define l' where "l' = (if lcnt l = 0 then l\<lparr>lt := Some (brk st)\<rparr> else l)\<lparr>lh := Some (brk st)\<rparr>"
  have "list_prepend st l d = Some (st', ht_add (l'\<lparr>lcnt := lcnt l' + 1\<rparr>) d)"
    using st'(1) by (cases "lcnt l = 0") (simp_all add: list_prepend_def node_create_def l'_def)
  moreover have "list_rep st' (ht_add (l'\<lparr>lcnt := lcnt l' + 1\<rparr>) d) ([] @ brk st # as) \<and>
      map (data_at st') ([] @ brk st # as) = map (data_at st) [] @ d # map (data_at st) as"
    using rep st'(2,3) by (intro list_rep_insert [where l = l]) (auto simp: l'_def list_rep_def)
  ultimately show ?thesis using st'(2) by auto
qed

lemma list_append_before_rep:
  assumes rep: "list_rep st l (xs @ m # ys)"
  shows "\<exists>st' l'. list_append_before st l (Some m) d = Some (st', l') \<and> list_rep st' l' (xs @ brk st # m # ys) \<and>
    inserted st (xs @ m # ys) st' d \<and>
    map (data_at st') (xs @ brk st # m # ys) = map (data_at st) xs @ d # map (data_at st) (m # ys)"
proof (cases xs rule: rev_cases)
  case Nil
  then have h: "lh l = Some m" using rep by (auto simp: list_rep_def)
  obtain st' where st': "set_nxt (snd (node_create st d)) (brk st) (lh l) = Some st'"
    "inserted st (m # ys) st' d" "seg (nodes st') (Some (brk st)) (brk st # m # ys) None"
    using link_front [OF rep, of d] unfolding Nil append_Nil by blast
  let ?l = "l\<lparr>lh := Some (brk st)\<rparr>"
  have "list_append_before st l (Some m) d = Some (st', ht_add (?l\<lparr>lcnt := lcnt ?l + 1\<rparr>) d)"
    using st'(1) h by (simp add: list_append_before_def node_create_def)
  moreover have "list_rep st' (ht_add (?l\<lparr>lcnt := lcnt ?l + 1\<rparr>) d) ([] @ brk st # m # ys) \<and>
      map (data_at st') ([] @ brk st # m # ys) = map (data_at st) [] @ d # map (data_at st) (m # ys)"
    using rep st'(2,3) Nil by (intro list_rep_insert [where l = l]) auto
  ultimately show ?thesis using st'(2) Nil by auto
next
  case (snoc zs x)
  let ?st = "st\<lparr>nodes := (nodes st)(brk st \<mapsto> \<lparr>nxt = Some m, data = d\<rparr>), brk := brk st + 1\<rparr>"
  have fresh: "brk st \<notin> set (xs @ m # ys)" using list_rep_fresh [OF rep] .
  have dist: "distinct (xs @ m # ys)" using rep by (simp add: list_rep_def)
  have "seg (nodes st) (lh l) ((zs @ [x]) @ m # ys) None" using rep snoc by (simp add: list_rep_def)
  then have seg: "seg (nodes st) (lh l) (zs @ [x]) (Some m)" "seg (nodes st) (Some x) (x # m # ys) None"
    by (auto simp: seg_append)
  define a where "a = hd (zs @ [x])"
  have a: "lh l = Some a" "a \<in> set xs"
    using seg_head [OF seg(1)] snoc by (auto simp: a_def hd_append)
  have "seg (nodes ?st) (Some a) (zs @ [x]) (Some m)"
    using seg(1) a(1) fresh snoc by (subst seg_frame [where ns = "nodes st"]) auto
  then have before: "node_before ?st a (Some m) = Some x"
    by (rule node_before_seg) (use dist snoc in auto)
  have "list_rep st l (zs @ x # m # ys)" using rep snoc by simp
  then have "\<exists>st'. set_nxt ?st x (Some (brk st)) = Some st' \<and> inserted st (zs @ x # m # ys) st' d \<and>
      seg (nodes st') (lh l) (zs @ x # brk st # m # ys) None"
    by (rule link_after [OF _ seg(2), where q = "Some m"]) simp_all
  then obtain st' where st': "set_nxt ?st x (Some (brk st)) = Some st'" "inserted st (zs @ x # m # ys) st' d"
    "seg (nodes st') (lh l) (zs @ x # brk st # m # ys) None"
    by (elim exE conjE)
  define st1 where "st1 = snd (node_create st d)"
  have nc: "node_create st d = (brk st, st1)" by (simp add: st1_def node_create_def)
  have link: "set_nxt st1 (brk st) (Some m) = Some ?st" by (simp add: st1_def set_nxt_def node_create_def)
  have "lh l \<noteq> Some m" using a dist by auto
  then have "list_append_before st l (Some m) d = Some (st', ht_add (l\<lparr>lcnt := lcnt l + 1\<rparr>) d)"
    using st'(1) a(1) before link by (simp add: list_append_before_def nc)
  moreover have "list_rep st' (ht_add (l\<lparr>lcnt := lcnt l + 1\<rparr>) d) (xs @ brk st # m # ys) \<and>
      map (data_at st') (xs @ brk st # m # ys) = map (data_at st) xs @ d # map (data_at st) (m # ys)"
    using rep st'(2,3) snoc by (intro list_rep_insert [where l = l]) auto
  ultimately show ?thesis using st'(2) snoc by auto
qed

text \<open>Removing a node.\<close>

lemma list_rep_split:
  assumes "list_rep st l (xs @ n # ys)"
  obtains nd where "nodes st n = Some nd" "seg (nodes st) (lh l) xs (Some n)" "seg (nodes st) (nxt nd) ys None"
    "n \<notin> set xs" "n \<notin> set ys" "distinct xs" "distinct ys" "set xs \<inter> set ys = {}"
proof -
  have "seg (nodes st) (lh l) (xs @ n # ys) None" "distinct (xs @ n # ys)"
    using assms by (simp_all add: list_rep_def)
  then show ?thesis using that by (auto simp: seg_append)
qed

lemma list_unlink_rep:
  assumes rep: "list_rep st l (xs @ n # ys)" and nd: "nodes st n = Some nd"
  shows "\<exists>st1 h1. list_unlink st l n (nxt nd) =
      Some (if xs = [] then None else Some (last xs), st1, l\<lparr>lh := h1\<rparr>) \<and>
    seg (nodes st1) h1 (xs @ ys) None \<and> nodes st1 n = Some nd \<and> data_at st1 = data_at st \<and>
    brk st1 = brk st \<and> destroyed st1 = destroyed st \<and> (\<forall>a. a \<notin> set xs \<longrightarrow> nodes st1 a = nodes st a) \<and>
    (\<forall>a. nodes st1 a \<noteq> None \<longrightarrow> nodes st a \<noteq> None)"
proof (cases xs rule: rev_cases)
  case Nil
  then show ?thesis
    using rep nd by (intro exI [of _ st] exI [of _ "nxt nd"]) (auto simp: list_unlink_def list_rep_def)
next
  case (snoc zs x)
  from list_rep_split [OF rep] nd
  have seg: "seg (nodes st) (lh l) (zs @ [x]) (Some n)" "seg (nodes st) (nxt nd) ys None"
    and dist: "n \<notin> set zs" "n \<noteq> x" "x \<notin> set ys" "x \<notin> set zs"
    using snoc by auto
  obtain ndx where ndx: "nodes st x = Some ndx" using seg(1) by (auto simp: seg_append)
  define st1 where "st1 = st\<lparr>nodes := (nodes st)(x \<mapsto> ndx\<lparr>nxt := nxt nd\<rparr>)\<rparr>"
  have "seg (nodes st) (lh l) zs (Some x)" using seg(1) by (auto simp: seg_append)
  then have "seg (nodes st1) (lh l) zs (Some x)"
    using dist by (subst seg_frame [where ns = "nodes st"]) (auto simp: st1_def)
  moreover have "seg (nodes st1) (nxt nd) ys None"
    using seg(2) dist by (subst seg_frame [where ns = "nodes st"]) (auto simp: st1_def)
  ultimately have "seg (nodes st1) (lh l) (xs @ ys) None"
    using snoc by (auto simp: seg_append st1_def)
  moreover have "lh l \<noteq> Some n"
    using seg_head [OF seg(1)] dist by (cases zs) auto
  then have "list_unlink st l n (nxt nd) = Some (Some x, st1, l)"
    using node_pred_seg [OF seg(1) dist(1,2)] ndx dist
    by (simp add: list_unlink_def set_nxt_def st1_def)
  moreover have "data_at st1 = data_at st" using ndx by (auto simp: data_at_def st1_def fun_eq_iff)
  moreover have "nodes st1 n = Some nd" using nd dist by (simp add: st1_def)
  ultimately show ?thesis
    using snoc ndx by (intro exI [of _ st1] exI [of _ "lh l"]) (auto simp: st1_def)
qed

lemma hash_rep_None: "hash_rep h (add_mset None M) = hash_rep h M"
  by (simp add: hash_rep_def)

lemma ht_delete_rep:
  assumes "\<forall>h. lht l = Some h \<longrightarrow> hash_rep h (add_mset d M)" "\<not> (\<not> alive \<and> lht l \<noteq> None \<and> d \<noteq> None)"
  shows "\<exists>h'. ht_delete alive l d = Some (l\<lparr>lht := h'\<rparr>) \<and> (\<forall>h. h' = Some h \<longrightarrow> hash_rep h M)"
proof (cases "lht l = None \<or> d = None")
  case True
  then have "ht_delete alive l d = Some (l\<lparr>lht := lht l\<rparr>)" by (auto simp: ht_delete_def split: option.splits)
  moreover have "\<forall>h. lht l = Some h \<longrightarrow> hash_rep h M"
    using assms(1) True by (auto simp: hash_rep_None)
  ultimately show ?thesis by blast
next
  case False
  then obtain h v where hv: "lht l = Some h" "d = Some v" by auto
  then have "hash_rep h (add_mset (Some v) M)" and alive using assms by simp_all
  from hash_delete_rep [OF this(1)] obtain h' where "hash_delete True h (Some v) = Some h'" "hash_rep h' M"
    by (elim exE conjE)
  then have "ht_delete alive l d = Some (l\<lparr>lht := Some h'\<rparr>)" "\<forall>h. Some h' = Some h \<longrightarrow> hash_rep h M"
    using hv \<open>alive\<close> by (simp_all add: ht_delete_def)
  then show ?thesis by blast
qed

definition removed :: "'d sql_list \<Rightarrow> 'd store \<Rightarrow> nat list \<Rightarrow> nat \<Rightarrow> 'd store \<Rightarrow> bool" where
  "removed l st as n st' \<longleftrightarrow> brk st' = brk st \<and>
    destroyed st' = destroyed st @ (case data_at st n of Some d \<Rightarrow> if ldestroy l then [d] else [] | None \<Rightarrow> []) \<and>
    (\<forall>a. a \<noteq> n \<longrightarrow> data_at st' a = data_at st a) \<and> (\<not> lsa l \<longrightarrow> nodes st' n = None) \<and>
    (\<forall>a. a \<notin> set as \<longrightarrow> nodes st' a = nodes st a)"

lemma removed_data:
  assumes "removed l st as n st'" "n \<notin> set bs"
  shows "map (data_at st') bs = map (data_at st) bs"
proof (rule map_cong [OF refl])
  fix a assume "a \<in> set bs"
  then have "a \<noteq> n" using assms(2) by auto
  then show "data_at st' a = data_at st a" using assms(1) by (simp add: removed_def)
qed

lemma node_destroy_nodes:
  assumes "nodes st n = Some nd"
  shows "\<exists>st'. node_destroy st l n = Some st' \<and> brk st' = brk st \<and>
    destroyed st' = destroyed st @ (case data nd of Some d \<Rightarrow> if ldestroy l then [d] else [] | None \<Rightarrow> []) \<and>
    nodes st' = (if lsa l then nodes st else (nodes st)(n := None))"
  using assms by (cases "data nd") (auto simp: node_destroy_def)

text \<open>
  \<^verbatim>\<open>list_remove_node\<close> destroys the data and then has the hash table compute its key: a list that
  has a destructor and a hash table cannot remove a node with data.
\<close>

definition reads_destroyed :: "'d store \<Rightarrow> 'd sql_list \<Rightarrow> nat \<Rightarrow> bool" where
  "reads_destroyed st l n \<longleftrightarrow> ldestroy l \<and> lht l \<noteq> None \<and> data_at st n \<noteq> None"

lemma list_unlink_keeps:
  "list_unlink st l n q = Some (p, st', l') \<Longrightarrow> lht l' = lht l \<and> ldestroy l' = ldestroy l"
  by (auto simp: list_unlink_def split: if_splits bind_splits)

lemma list_remove_node_destroyed:
  assumes "reads_destroyed st l n"
  shows "list_remove_node st l n = None"
proof (cases "nodes st n")
  case (Some nd)
  have dead: "ht_delete (\<not> ldestroy l') l' (data nd) = None" if "ldestroy l'" "lht l' = lht l" for l'
    using assms Some that by (auto simp: reads_destroyed_def data_at_def ht_delete_def hash_delete_def)
  show ?thesis
  proof (cases "list_unlink st l n (nxt nd)")
    case unlinked: (Some r)
    obtain p st1 l1 where r: "r = (p, st1, l1)" by (cases r)
    with unlinked have keep: "lht l1 = lht l" "ldestroy l1"
      using list_unlink_keeps assms by (fastforce simp: reads_destroyed_def)+
    define l2 where "l2 = (if lt l1 = Some n then l1\<lparr>lt := p\<rparr> else l1)"
    have "ldestroy l2" "lht l2 = lht l" using keep by (simp_all add: l2_def)
    then have "ht_delete (\<not> ldestroy l2) (l2\<lparr>lcnt := lcnt l2 - 1\<rparr>) (data nd) = None"
      using dead [of "l2\<lparr>lcnt := lcnt l2 - 1\<rparr>"] by simp
    then show ?thesis
      using Some unlinked unfolding r by (simp add: list_remove_node_def l2_def [symmetric] Let_def bind_eq_None_conv)
  qed (use Some in \<open>simp add: list_remove_node_def\<close>)
qed (simp add: list_remove_node_def)

lemma list_remove_node_rep:
  assumes rep: "list_rep st l (xs @ n # ys)" and ok: "\<not> reads_destroyed st l n"
  shows "\<exists>st' l'. list_remove_node st l n = Some (if xs = [] then None else Some (last xs), st', l') \<and>
    list_rep st' l' (xs @ ys) \<and> removed l st (xs @ n # ys) n st'"
proof -
  obtain nd where nd: "nodes st n = Some nd" and out: "n \<notin> set xs" "n \<notin> set ys"
    using list_rep_split [OF rep] by metis
  let ?p = "if xs = [] then None else Some (last xs)"
  obtain st1 h1 where u: "list_unlink st l n (nxt nd) = Some (?p, st1, l\<lparr>lh := h1\<rparr>)"
    "seg (nodes st1) h1 (xs @ ys) None" "nodes st1 n = Some nd" "data_at st1 = data_at st"
    "brk st1 = brk st" "destroyed st1 = destroyed st" "\<forall>a. a \<notin> set xs \<longrightarrow> nodes st1 a = nodes st a"
    "\<forall>a. nodes st1 a \<noteq> None \<longrightarrow> nodes st a \<noteq> None"
    using list_unlink_rep [OF rep nd] by blast
  define l1 where "l1 = (if lt l = Some n then l\<lparr>lh := h1, lt := ?p\<rparr> else l\<lparr>lh := h1\<rparr>)"
  have l1: "lsa l1 = lsa l" "ldestroy l1 = ldestroy l" by (simp_all add: l1_def)
  obtain st' where st': "node_destroy st1 l1 n = Some st'" "brk st' = brk st1"
    "destroyed st' = destroyed st1 @ (case data nd of Some d \<Rightarrow> if ldestroy l then [d] else [] | None \<Rightarrow> [])"
    "nodes st' = (if lsa l then nodes st1 else (nodes st1)(n := None))"
    using node_destroy_nodes [OF u(3), of l1] unfolding l1 by (elim exE conjE)
  have dn: "data_at st n = data nd" using nd by (simp add: data_at_def)
  have alive: "\<not> (\<not> (\<not> ldestroy l1) \<and> lht (l1\<lparr>lcnt := lcnt l1 - 1\<rparr>) \<noteq> None \<and> data nd \<noteq> None)"
    using ok dn by (simp add: reads_destroyed_def l1_def)
  have same: "data_at st' a = data_at st a" if "a \<noteq> n" for a
    using that st'(4) u(4) by (metis data_at_def fun_upd_other)
  have ds: "map (data_at st') (xs @ ys) = map (data_at st) (xs @ ys)"
  proof (rule map_cong [OF refl])
    fix a assume "a \<in> set (xs @ ys)"
    then have "a \<noteq> n" using out by auto
    then show "data_at st' a = data_at st a" by (rule same)
  qed
  have "\<forall>h. lht (l1\<lparr>lcnt := lcnt l1 - 1\<rparr>) = Some h \<longrightarrow>
      hash_rep h (add_mset (data nd) (mset (map (data_at st') (xs @ ys))))"
    using rep dn unfolding ds by (simp add: list_rep_def l1_def)
  then obtain h' where h': "ht_delete (\<not> ldestroy l1) (l1\<lparr>lcnt := lcnt l1 - 1\<rparr>) (data nd) = Some (l1\<lparr>lcnt := lcnt l1 - 1, lht := h'\<rparr>)"
    "\<forall>h. h' = Some h \<longrightarrow> hash_rep h (mset (map (data_at st') (xs @ ys)))"
    using ht_delete_rep [of "l1\<lparr>lcnt := lcnt l1 - 1\<rparr>" "data nd" _ "\<not> ldestroy l1"] alive by fastforce
  have "seg (nodes st') h1 (xs @ ys) None"
    using u(2) out st'(4) by (subst seg_frame [where ns = "nodes st1"]) auto
  moreover have "lt l1 = (if xs @ ys = [] then None else Some (last (xs @ ys)))"
    using rep out by (auto simp: l1_def list_rep_def)
  moreover have "a < brk st'" if "nodes st' a \<noteq> None" for a
    using that rep st'(2,4) u(5,8) by (auto simp: list_rep_def split: if_splits)
  ultimately have "list_rep st' (l1\<lparr>lcnt := lcnt l1 - 1, lht := h'\<rparr>) (xs @ ys)"
    using rep h'(2) by (auto simp: list_rep_def l1_def)
  moreover have "list_remove_node st l n = Some (?p, st', l1\<lparr>lcnt := lcnt l1 - 1, lht := h'\<rparr>)"
    using nd u(1) st'(1) h'(1) by (simp add: list_remove_node_def l1_def)
  moreover have "removed l st (xs @ n # ys) n st'"
    using st' u same dn by (auto simp: removed_def)
  ultimately show ?thesis by blast
qed

lemma list_data_rep: "list_rep st l as \<Longrightarrow> list_data st l = Some (map (data_at st) as)"
  using list_walk_seg by (fastforce simp: list_data_def list_rep_def)

text \<open>A list in the store keeps its meaning when other nodes change.\<close>

lemma list_rep_frame:
  assumes rep: "list_rep st l as" and same: "\<And>a. a \<in> set as \<Longrightarrow> nodes st' a = nodes st a"
    and wf: "\<And>a. nodes st' a \<noteq> None \<Longrightarrow> a < brk st'"
  shows "list_rep st' l as" "map (data_at st') as = map (data_at st) as"
proof -
  show d: "map (data_at st') as = map (data_at st) as" using same by (auto simp: data_at_def)
  have "seg (nodes st') (lh l) as None"
    using rep same by (subst seg_frame [where ns = "nodes st"]) (auto simp: list_rep_def)
  moreover have "\<forall>h. lht l = Some h \<longrightarrow> hash_rep h (mset (map (data_at st') as))"
    unfolding d using rep by (simp add: list_rep_def)
  ultimately show "list_rep st' l as" using rep wf by (simp add: list_rep_def)
qed

lemma list_destroy_loop_seg:
  "seg (nodes st) p as None \<Longrightarrow> distinct as \<Longrightarrow> ldestroy l \<or> \<not> lsa l \<Longrightarrow>
   \<exists>st'. list_destroy_loop l st p = Some st' \<and>
     nodes st' = (\<lambda>a. if a \<in> set as \<and> \<not> lsa l then None else nodes st a) \<and>
     destroyed st' = destroyed st @ (if ldestroy l then List.map_filter (data_at st) as else [])"
proof (induction as arbitrary: st p)
  case Nil
  then show ?case by (subst list_destroy_loop.simps) (simp add: map_filter_def)
next
  case (Cons a as)
  then obtain nd where nd: "p = Some a" "nodes st a = Some nd" "seg (nodes st) (nxt nd) as None" by auto
  obtain st1 where st1: "node_destroy st l a = Some st1"
    "destroyed st1 = destroyed st @ (case data nd of Some d \<Rightarrow> if ldestroy l then [d] else [] | None \<Rightarrow> [])"
    "nodes st1 = (if lsa l then nodes st else (nodes st)(a := None))"
    using node_destroy_nodes [OF nd(2), of l] by blast
  have "seg (nodes st1) (nxt nd) as None"
    using nd(3) Cons.prems(2) st1(3) by (subst seg_frame [where ns = "nodes st"]) auto
  then obtain st' where st': "list_destroy_loop l st1 (nxt nd) = Some st'"
    "nodes st' = (\<lambda>b. if b \<in> set as \<and> \<not> lsa l then None else nodes st1 b)"
    "destroyed st' = destroyed st1 @ (if ldestroy l then List.map_filter (data_at st1) as else [])"
    using Cons.IH [of st1 "nxt nd"] Cons.prems by auto
  have "List.map_filter (data_at st1) as = List.map_filter (data_at st) as"
    using Cons.prems(2) st1(3) by (auto simp: map_filter_def data_at_def intro!: map_cong filter_cong)
  moreover have "list_destroy_loop l st p = Some st'"
    using nd st1(1) st'(1) Cons.prems(3) by (subst list_destroy_loop.simps) simp
  moreover have "nodes st' = (\<lambda>b. if b \<in> set (a # as) \<and> \<not> lsa l then None else nodes st b)"
    using st'(2) st1(3) by (auto simp: fun_eq_iff)
  ultimately show ?case
    using st'(3) st1(2) nd(2) by (auto simp: map_filter_simps data_at_def split: option.splits)
qed

text \<open>Removing by data: the first node that holds it goes, and the data is not destroyed.\<close>

lemma find_split:
  "find P as = Some n \<Longrightarrow> \<exists>xs ys. as = xs @ n # ys \<and> P n \<and> (\<forall>x\<in>set xs. \<not> P x)"
proof (induction as)
  case (Cons a as)
  show ?case
  proof (cases "P a")
    case True
    then show ?thesis using Cons.prems by (intro exI [of _ "[]"] exI [of _ as]) auto
  next
    case False
    then obtain xs ys where "as = xs @ n # ys \<and> P n \<and> (\<forall>x\<in>set xs. \<not> P x)" using Cons by auto
    then show ?thesis using False by (intro exI [of _ "a # xs"] exI [of _ ys]) auto
  qed
qed simp

lemma list_remove_data_rep:
  assumes rep: "list_rep st l (xs @ n # ys)" and n: "data_at st n = d" "\<forall>x\<in>set xs. data_at st x \<noteq> d"
  shows "\<exists>st' l'. list_remove_data st l d = Some (st', l') \<and> list_rep st' l' (xs @ ys) \<and>
    map (data_at st') (xs @ ys) = map (data_at st) (xs @ ys) \<and> destroyed st' = destroyed st \<and> brk st' = brk st \<and>
    (\<forall>a. a \<notin> set (xs @ n # ys) \<longrightarrow> nodes st' a = nodes st a)"
proof -
  obtain nd where nd: "nodes st n = Some nd" and out: "n \<notin> set xs" "n \<notin> set ys"
    using list_rep_split [OF rep] by metis
  have "find (\<lambda>a. data_at st a = d) (xs @ n # ys) = Some n"
    using n by (induction xs) auto
  then have w: "node_with st (lh l) d = Some (Some n)"
    using node_with_seg [of st "lh l" "xs @ n # ys" d] rep by (simp add: list_rep_def)
  define st1 where "st1 = st\<lparr>nodes := (nodes st)(n \<mapsto> nd\<lparr>data := None\<rparr>)\<rparr>"
  have sd: "set_data st n None = Some st1" using nd by (simp add: set_data_def st1_def)
  have d1: "data_at st1 = (data_at st)(n := None)" by (auto simp: data_at_def st1_def fun_eq_iff)
  have rest: "map (data_at st1) (xs @ ys) = map (data_at st) (xs @ ys)" using out d1 by auto
  have "\<forall>h. lht l = Some h \<longrightarrow> hash_rep h (add_mset d (mset (map (data_at st) (xs @ ys))))"
    using rep n(1) by (simp add: list_rep_def)
  from ht_delete_rep [OF this, of True]
  obtain h' where h': "ht_delete True l d = Some (l\<lparr>lht := h'\<rparr>)"
    "\<forall>h. h' = Some h \<longrightarrow> hash_rep h (mset (map (data_at st) (xs @ ys)))"
    by auto
  have "mset (map (data_at st1) (xs @ n # ys)) = add_mset None (mset (map (data_at st) (xs @ ys)))"
    using arg_cong [OF rest, of mset] d1 by simp
  then have "\<forall>h. lht (l\<lparr>lht := h'\<rparr>) = Some h \<longrightarrow> hash_rep h (mset (map (data_at st1) (xs @ n # ys)))"
    using h'(2) by (simp only: hash_rep_None sql_list.simps) simp
  moreover have "seg (nodes st1) (lh l) (xs @ n # ys) None"
    using rep nd by (subst seg_frame [where ns = "nodes st"]) (auto simp: st1_def list_rep_def)
  ultimately have "list_rep st1 (l\<lparr>lht := h'\<rparr>) (xs @ n # ys)"
    using rep nd by (auto simp: list_rep_def st1_def)
  moreover have "\<not> reads_destroyed st1 (l\<lparr>lht := h'\<rparr>) n" using d1 by (simp add: reads_destroyed_def)
  ultimately obtain st' l' where r: "list_remove_node st1 (l\<lparr>lht := h'\<rparr>) n = Some (if xs = [] then None else Some (last xs), st', l')"
    "list_rep st' l' (xs @ ys)" "removed (l\<lparr>lht := h'\<rparr>) st1 (xs @ n # ys) n st'"
    using list_remove_node_rep by blast
  have "list_remove_data st l d = Some (st', l')"
    using w h'(1) sd r(1) by (simp add: list_remove_data_def)
  moreover have "map (data_at st') (xs @ ys) = map (data_at st1) (xs @ ys)"
    using removed_data [OF r(3)] out by simp
  ultimately show ?thesis
    using r(2,3) rest d1 by (auto simp: removed_def st1_def)
qed

subsection \<open>Ordering\<close>

context atom_order
begin

lemma sorted_insert:
  assumes "sorted_wrt (\<lambda>x y. cmp x y \<ge> 0) (xs @ ys)" "\<forall>x\<in>set xs. \<not> cmp d x > 0"
    and "ys \<noteq> [] \<Longrightarrow> cmp d (hd ys) > 0"
  shows "sorted_wrt (\<lambda>x y. cmp x y \<ge> 0) (xs @ d # ys)"
proof -
  have "cmp x d \<ge> 0" if "x \<in> set xs" for x
    using assms(2) that cmp_le_swap [of d x] by auto
  moreover have "cmp d y \<ge> 0" if y: "y \<in> set ys" for y
  proof (cases "y = hd ys")
    case True
    then show ?thesis using assms(3) y by force
  next
    case False
    then have "cmp (hd ys) y \<ge> 0" using assms(1) y by (cases ys) (auto simp: sorted_wrt_append)
    then have "cmp y (hd ys) \<le> 0" "cmp (hd ys) d \<le> 0"
      using assms(3) y cmp_le_swap by force+
    then show ?thesis using cmp_trans cmp_le_swap by blast
  qed
  ultimately show ?thesis using assms(1) by (auto simp: sorted_wrt_append)
qed

end

lemma inserted_low:
  assumes "inserted st as st' d" "\<forall>a\<in>set as. b \<le> a" "b \<le> brk st"
  shows "b \<le> brk st'" "\<forall>a<b. nodes st' a = nodes st a"
proof -
  show "b \<le> brk st'" using assms by (simp add: inserted_def)
  have "a \<notin> set as \<and> a \<noteq> brk st" if "a < b" for a using assms(2,3) that by auto
  then show "\<forall>a<b. nodes st' a = nodes st a" using assms(1) unfolding inserted_def by blast
qed

lemma order_step:
  assumes cmp: "atom_order cmp" and rep: "list_rep st res as" and b: "\<forall>a\<in>set as. b \<le> a" "b \<le> brk st"
    and sorted: "sorted_wrt (\<lambda>x y. cmp x y \<ge> 0) (map (data_at st) as)"
  shows "\<exists>st' res' as'. (case find (\<lambda>m. cmp d (data_at st m) > 0) as of
        Some m \<Rightarrow> list_append_before st res (Some m) d
      | None \<Rightarrow> list_append st res d) = Some (st', res') \<and> list_rep st' res' as' \<and>
    sorted_wrt (\<lambda>x y. cmp x y \<ge> 0) (map (data_at st') as') \<and>
    mset (map (data_at st') as') = add_mset d (mset (map (data_at st) as)) \<and>
    (\<forall>a\<in>set as'. b \<le> a) \<and> b \<le> brk st' \<and> (\<forall>a<b. nodes st' a = nodes st a)"
proof (cases "find (\<lambda>m. cmp d (data_at st m) > 0) as")
  case None
  obtain st' res' where r: "list_append st res d = Some (st', res')" "list_rep st' res' (as @ [brk st])"
    "inserted st as st' d" "map (data_at st') (as @ [brk st]) = map (data_at st) as @ [d]"
    using list_append_rep [OF rep, of d] by (elim exE conjE)
  have "sorted_wrt (\<lambda>x y. cmp x y \<ge> 0) (map (data_at st) as @ d # [])"
    using None sorted by (intro atom_order.sorted_insert [OF cmp]) (auto simp: find_None_iff)
  then have "sorted_wrt (\<lambda>x y. cmp x y \<ge> 0) (map (data_at st') (as @ [brk st]))" unfolding r(4) .
  moreover have "mset (map (data_at st') (as @ [brk st])) = add_mset d (mset (map (data_at st) as))"
    unfolding r(4) by simp
  moreover have "\<forall>a\<in>set (as @ [brk st]). b \<le> a" using b by simp
  ultimately show ?thesis unfolding None option.case
    using r(1,2) inserted_low [OF r(3) b] by blast
next
  case (Some m)
  then obtain xs ys where s: "as = xs @ m # ys" "cmp d (data_at st m) > 0"
    "\<forall>x\<in>set xs. \<not> cmp d (data_at st x) > 0"
    using find_split [OF Some] by blast
  have rep': "list_rep st res (xs @ m # ys)" using rep s(1) by simp
  obtain st' res' where r: "list_append_before st res (Some m) d = Some (st', res')"
    "list_rep st' res' (xs @ brk st # m # ys)" "inserted st (xs @ m # ys) st' d"
    "map (data_at st') (xs @ brk st # m # ys) = map (data_at st) xs @ d # map (data_at st) (m # ys)"
    using list_append_before_rep [OF rep', of d] by (elim exE conjE)
  have "sorted_wrt (\<lambda>x y. cmp x y \<ge> 0) (map (data_at st) xs @ d # map (data_at st) (m # ys))"
    using s sorted by (intro atom_order.sorted_insert [OF cmp]) auto
  then have "sorted_wrt (\<lambda>x y. cmp x y \<ge> 0) (map (data_at st') (xs @ brk st # m # ys))" unfolding r(4) .
  moreover have "mset (map (data_at st') (xs @ brk st # m # ys)) = add_mset d (mset (map (data_at st) as))"
    unfolding r(4) s(1) by simp
  moreover have "\<forall>a\<in>set (xs @ brk st # m # ys). b \<le> a" using b s(1) by simp
  ultimately show ?thesis unfolding Some option.case
    using r(1,2) inserted_low [OF r(3)] b s(1) by blast
qed

lemma dup_of_None: "dup_of None d = d"
  by (simp add: dup_of_def)

lemma order_loop_sorted:
  assumes cmp: "atom_order cmp"
  shows "list_rep st res as \<Longrightarrow> \<forall>a\<in>set as. b \<le> a \<Longrightarrow> b \<le> brk st \<Longrightarrow>
    sorted_wrt (\<lambda>x y. cmp x y \<ge> 0) (map (data_at st) as) \<Longrightarrow>
    \<exists>st' res' as'. order_loop cmp None st res ds = Some (st', res') \<and> list_rep st' res' as' \<and>
      sorted_wrt (\<lambda>x y. cmp x y \<ge> 0) (map (data_at st') as') \<and>
      mset (map (data_at st') as') = mset (map (data_at st) as) + mset ds \<and> (\<forall>a<b. nodes st' a = nodes st a)"
proof (induction ds arbitrary: st res as)
  case Nil
  then show ?case by auto
next
  case (Cons d ds)
  obtain st1 res1 as1 where s: "(case find (\<lambda>m. cmp d (data_at st m) > 0) as of
        Some m \<Rightarrow> list_append_before st res (Some m) d
      | None \<Rightarrow> list_append st res d) = Some (st1, res1)" "list_rep st1 res1 as1"
    "sorted_wrt (\<lambda>x y. cmp x y \<ge> 0) (map (data_at st1) as1)"
    "mset (map (data_at st1) as1) = add_mset d (mset (map (data_at st) as))"
    "\<forall>a\<in>set as1. b \<le> a" "b \<le> brk st1" "\<forall>a<b. nodes st1 a = nodes st a"
    using order_step [OF cmp Cons.prems, of d] by (elim exE conjE)
  have w: "list_walk st (lh res) = Some as" using Cons.prems(1) list_walk_seg by (auto simp: list_rep_def)
  have step: "order_loop cmp None st res (d # ds) = order_loop cmp None st1 res1 ds"
    unfolding order_loop.simps w dup_of_None using s(1) by simp
  from Cons.IH [OF s(2,5,6,3)] obtain st' res' as' where
    "order_loop cmp None st1 res1 ds = Some (st', res')" "list_rep st' res' as'"
    "sorted_wrt (\<lambda>x y. cmp x y \<ge> 0) (map (data_at st') as')"
    "mset (map (data_at st') as') = mset (map (data_at st1) as1) + mset ds" "\<forall>a<b. nodes st' a = nodes st1 a"
    by (elim exE conjE)
  then show ?case using step s(4,7) by (intro exI [of _ st'] exI [of _ res'] exI [of _ as']) simp
qed

lemma list_new_like_rep:
  "(\<And>a. nodes st a \<noteq> None \<Longrightarrow> a < brk st) \<Longrightarrow> list_rep st (list_new_like l) []"
  by (simp add: list_rep_def list_new_like_def list_new_def list_create_def)

subsection \<open>Matching\<close>

lemma match_inner_0: "match_inner f 0 pos fnd ms = (0, fnd \<or> (\<exists>m\<in>set ms. f m = 0))"
  by (induction ms arbitrary: pos fnd) auto

lemma match_outer_0: "match_outer cmp 0 ns ms = (if \<forall>n\<in>set ns. \<exists>m\<in>set ms. cmp n m = 0 then 0 else - 1)"
  by (induction ns) (auto simp: match_inner_0)

subsection \<open>Properties\<close>

text \<open>
  C4.  Insertion into a list of the store implements insertion into a sequence, and keeps the list
  well-formed: the chain of nodes from head to tail, the tail pointer, the count and the
  hash table agree.  Appending adds the data at the end, prepending at the front, and inserting
  before the i-th node at position i; nodes outside the list are not touched.
\<close>

theorem list_insert_refines:
  assumes "list_rep st l as"
  shows "(\<exists>st' l'. list_append st l d = Some (st', l') \<and> list_rep st' l' (as @ [brk st]) \<and>
      inserted st as st' d \<and> list_data st' l' = Some (map (data_at st) as @ [d])) \<and>
    (\<exists>st' l'. list_prepend st l d = Some (st', l') \<and> list_rep st' l' (brk st # as) \<and>
      inserted st as st' d \<and> list_data st' l' = Some (d # map (data_at st) as)) \<and>
    (\<forall>i<length as. \<exists>st' l'. list_append_before st l (Some (as ! i)) d = Some (st', l') \<and>
      list_rep st' l' (take i as @ brk st # drop i as) \<and> inserted st as st' d \<and>
      list_data st' l' = Some (take i (map (data_at st) as) @ d # drop i (map (data_at st) as)))"
proof (intro conjI allI impI)
  show "\<exists>st' l'. list_append st l d = Some (st', l') \<and> list_rep st' l' (as @ [brk st]) \<and>
      inserted st as st' d \<and> list_data st' l' = Some (map (data_at st) as @ [d])"
    using list_append_rep [OF assms, of d] list_data_rep by metis
  show "\<exists>st' l'. list_prepend st l d = Some (st', l') \<and> list_rep st' l' (brk st # as) \<and>
      inserted st as st' d \<and> list_data st' l' = Some (d # map (data_at st) as)"
    using list_prepend_rep [OF assms, of d] list_data_rep by metis
  fix i assume i: "i < length as"
  then have "as = take i as @ as ! i # drop (Suc i) as" by (simp add: id_take_nth_drop)
  moreover have "drop i as = as ! i # drop (Suc i) as" using i by (simp add: Cons_nth_drop_Suc)
  ultimately have "\<exists>st' l'. list_append_before st l (Some (as ! i)) d = Some (st', l') \<and>
      list_rep st' l' (take i as @ brk st # drop i as) \<and> inserted st as st' d \<and>
      map (data_at st') (take i as @ brk st # drop i as) = map (data_at st) (take i as) @ d # map (data_at st) (drop i as)"
    using list_append_before_rep [of st l "take i as" "as ! i" "drop (Suc i) as" d] assms by metis
  then show "\<exists>st' l'. list_append_before st l (Some (as ! i)) d = Some (st', l') \<and>
      list_rep st' l' (take i as @ brk st # drop i as) \<and> inserted st as st' d \<and>
      list_data st' l' = Some (take i (map (data_at st) as) @ d # drop i (map (data_at st) as))"
    using list_data_rep unfolding take_map drop_map by metis
qed

definition store_12 :: "nat store" where
  "store_12 = \<lparr>nodes = [0 \<mapsto> \<lparr>nxt = Some 1, data = Some 10\<rparr>, 1 \<mapsto> \<lparr>nxt = None, data = Some 20\<rparr>],
     brk = 2, destroyed = []\<rparr>"

definition list_12 :: "nat sql_list" where
  "list_12 = \<lparr>lsa = False, lht = None, ldestroy = True, lh = Some 0, lt = Some 1, lcnt = 2\<rparr>"

lemma rep_12: "list_rep store_12 list_12 [0, 1]"
  by (auto simp: list_rep_def store_12_def list_12_def split: if_splits)

lemma data_12: "map (data_at store_12) [0, 1] = [Some 10, Some 20]"
  by (simp add: data_at_def store_12_def)

theorem list_insert_refines_witness:
  "(\<exists>st' l'. list_append store_12 list_12 (Some 30) = Some (st', l') \<and>
     list_data st' l' = Some [Some 10, Some 20, Some 30]) \<and>
   (\<exists>st' l'. list_append_before store_12 list_12 (Some 1) (Some 15) = Some (st', l') \<and>
     list_data st' l' = Some [Some 10, Some 15, Some 20])"
proof
  show "\<exists>st' l'. list_append store_12 list_12 (Some 30) = Some (st', l') \<and>
     list_data st' l' = Some [Some 10, Some 20, Some 30]"
    using list_insert_refines [OF rep_12, of "Some 30"] unfolding data_12 by auto
  have "\<exists>st' l'. list_append_before store_12 list_12 (Some ([0, 1] ! 1)) (Some 15) = Some (st', l') \<and>
      list_data st' l' = Some (take 1 [Some 10, Some 20] @ Some 15 # drop 1 [Some 10, Some 20])"
    using list_insert_refines [OF rep_12, of "Some 15"] unfolding data_12 by fastforce
  then show "\<exists>st' l'. list_append_before store_12 list_12 (Some 1) (Some 15) = Some (st', l') \<and>
     list_data st' l' = Some [Some 10, Some 15, Some 20]"
    by simp
qed

text \<open>
  C5.  Removal from a list of the store implements removal from a sequence and keeps the list
  well-formed.  Removing the i-th node returns the node before it; the node is freed unless the list
  has an allocator, and its data is destroyed if the list has a destructor.  When the list has both
  a destructor and a hash table, and the node has data, the removal reads the data it has just
  destroyed and there is no result.  Removing by data takes out the first node that holds it
  and does not destroy the data; it never reads destroyed data.
\<close>

theorem list_remove_refines:
  assumes "list_rep st l as" "i < length as"
  shows "(if ldestroy l \<and> lht l \<noteq> None \<and> data_at st (as ! i) \<noteq> None then list_remove_node st l (as ! i) = None
      else \<exists>st' l'. list_remove_node st l (as ! i) = Some (if i = 0 then None else Some (as ! (i - 1)), st', l') \<and>
      list_rep st' l' (take i as @ drop (Suc i) as) \<and> removed l st as (as ! i) st' \<and>
      list_data st' l' = Some (take i (map (data_at st) as) @ drop (Suc i) (map (data_at st) as))) \<and>
    ((\<forall>j<i. data_at st (as ! j) \<noteq> data_at st (as ! i)) \<longrightarrow>
      (\<exists>st' l'. list_remove_data st l (data_at st (as ! i)) = Some (st', l') \<and>
        list_rep st' l' (take i as @ drop (Suc i) as) \<and> destroyed st' = destroyed st \<and>
        list_data st' l' = Some (take i (map (data_at st) as) @ drop (Suc i) (map (data_at st) as))))"
proof -
  let ?xs = "take i as" and ?n = "as ! i" and ?ys = "drop (Suc i) as"
  let ?D = "Some (take i (map (data_at st) as) @ drop (Suc i) (map (data_at st) as))"
  have as: "as = ?xs @ ?n # ?ys" using assms(2) by (simp add: id_take_nth_drop)
  then have rep: "list_rep st l (?xs @ ?n # ?ys)" using assms(1) by simp
  have out: "?n \<notin> set (?xs @ ?ys)" using rep by (auto simp: list_rep_def)
  have p: "(if ?xs = [] then None else Some (last ?xs)) = (if i = 0 then None else Some (as ! (i - 1)))"
    using assms(2) by (cases i) (auto simp: take_Suc_conv_app_nth)
  have keep: "?D = Some (map (data_at st) (?xs @ ?ys))"
    by (simp add: take_map drop_map)
  have 1: "\<exists>st' l'. list_remove_node st l ?n = Some (if i = 0 then None else Some (as ! (i - 1)), st', l') \<and>
      list_rep st' l' (?xs @ ?ys) \<and> removed l st as ?n st' \<and> list_data st' l' = ?D"
    if ok: "\<not> reads_destroyed st l ?n"
  proof -
    obtain st' l' where r: "list_remove_node st l ?n = Some (if ?xs = [] then None else Some (last ?xs), st', l')"
      "list_rep st' l' (?xs @ ?ys)" "removed l st (?xs @ ?n # ?ys) ?n st'"
      using list_remove_node_rep [OF rep ok] by (elim exE conjE)
    have "map (data_at st') (?xs @ ?ys) = map (data_at st) (?xs @ ?ys)"
      by (rule removed_data [OF r(3) out])
    then have "list_data st' l' = ?D" unfolding keep list_data_rep [OF r(2)] by simp
    moreover have "removed l st as ?n st'" using r(3) as by simp
    ultimately show ?thesis using r(1,2) unfolding p by blast
  qed
  have 2: "\<exists>st' l'. list_remove_data st l (data_at st ?n) = Some (st', l') \<and> list_rep st' l' (?xs @ ?ys) \<and>
      destroyed st' = destroyed st \<and> list_data st' l' = ?D"
    if "\<forall>j<i. data_at st (as ! j) \<noteq> data_at st ?n"
  proof -
    have "\<forall>x\<in>set ?xs. data_at st x \<noteq> data_at st ?n"
      using that by (auto simp: in_set_conv_nth)
    from list_remove_data_rep [OF rep refl this] show ?thesis
      unfolding keep using list_data_rep by metis
  qed
  show ?thesis using 1 2 list_remove_node_destroyed [of st l ?n] unfolding reads_destroyed_def by presburger
qed

theorem list_remove_refines_witness:
  "(\<exists>st' l'. list_remove_node store_12 list_12 1 = Some (Some 0, st', l') \<and> list_data st' l' = Some [Some 10]) \<and>
   (\<exists>st' l'. list_remove_data store_12 list_12 (Some 20) = Some (st', l') \<and> list_data st' l' = Some [Some 10])"
proof -
  have d: "data_at store_12 0 = Some 10" "data_at store_12 1 = Some 20"
    by (simp_all add: data_at_def store_12_def)
  have "list_rep store_12 list_12 [0, 1]" "lht list_12 = None" by (rule rep_12) (simp add: list_12_def)
  with list_remove_refines [OF this(1), of 1] show ?thesis
    using d by (simp add: d(2) [unfolded One_nat_def]) blast
qed

text \<open>
  C36.  Destroying a list ends without reading a freed node.  A list without an allocator has each of
  its nodes freed and no other; of a list with an allocator no node is freed.  The data of
  the nodes goes to the destructor in the order of the list, once for every node with data,
  when the list has a destructor; no data is destroyed when it has none.
\<close>

theorem list_destroy_frees:
  assumes "list_rep st l as"
  shows "\<exists>st'. list_destroy st l = Some st' \<and>
    nodes st' = (if lsa l then nodes st else (\<lambda>a. if a \<in> set as then None else nodes st a)) \<and>
    destroyed st' = destroyed st @ (if ldestroy l then List.map_filter (data_at st) as else [])"
proof (cases "ldestroy l \<or> \<not> lsa l")
  case True
  then show ?thesis
    using list_destroy_loop_seg [of st "lh l" as l] assms by (auto simp: list_destroy_def list_rep_def)
next
  case False
  then have "list_destroy_loop l st (lh l) = Some st"
    by (subst list_destroy_loop.simps) (simp split: option.split)
  with False show ?thesis by (simp add: list_destroy_def)
qed

theorem list_destroy_frees_witness:
  "\<exists>st'. list_destroy store_12 list_12 = Some st' \<and> nodes st' 0 = None \<and> nodes st' 1 = None \<and>
     destroyed st' = [10, 20]"
  using list_destroy_frees [OF rep_12]
  by (auto simp: list_12_def data_at_def store_12_def map_filter_simps)

text \<open>
  Ordering a list with a comparison that is a total order up to equality returns a new
  well-formed list with the same data in descending order; the nodes that were in the store
  before are unchanged.
\<close>

theorem list_order_sorted:
  assumes "list_rep st l as" "atom_order cmp"
  shows "\<exists>st' res as' ds. list_order st l cmp None = Some (st', res) \<and> list_rep st' res as' \<and>
    list_data st' res = Some ds \<and> sorted_wrt (\<lambda>x y. cmp x y \<ge> 0) ds \<and>
    mset ds = mset (map (data_at st) as) \<and> (\<forall>a<brk st. nodes st' a = nodes st a)"
proof -
  have "list_rep st (list_new_like l) []"
    using assms(1) by (intro list_new_like_rep) (simp add: list_rep_def)
  from order_loop_sorted [OF assms(2) this, of "brk st" "map (data_at st) as"]
  obtain st' res as' where "order_loop cmp None st (list_new_like l) (map (data_at st) as) = Some (st', res)"
    "list_rep st' res as'" "sorted_wrt (\<lambda>x y. cmp x y \<ge> 0) (map (data_at st') as')"
    "mset (map (data_at st') as') = mset (map (data_at st) as)" "\<forall>a<brk st. nodes st' a = nodes st a"
    by auto
  then show ?thesis
    using list_data_rep [OF assms(1)] list_data_rep [of st' res as']
    by (intro exI [of _ st'] exI [of _ res] exI [of _ as'] exI [of _ "map (data_at st') as'"])
       (simp add: list_order_def)
qed

definition nat_cmp :: "nat option \<Rightarrow> nat option \<Rightarrow> int" where
  "nat_cmp x y = simple_CMP (int (case x of None \<Rightarrow> 0 | Some n \<Rightarrow> n)) (int (case y of None \<Rightarrow> 0 | Some n \<Rightarrow> n))"

theorem list_order_sorted_witness:
  "\<exists>st' res ds. list_order store_12 list_12 nat_cmp None = Some (st', res) \<and> list_data st' res = Some ds \<and>
     sorted_wrt (\<lambda>x y. nat_cmp x y \<ge> 0) ds \<and> mset ds = {#Some 10, Some 20#}"
proof -
  have "atom_order nat_cmp"
    by unfold_locales (auto simp: nat_cmp_def simple.cmp_swap dest: simple.cmp_trans)
  from list_order_sorted [OF rep_12 this] show ?thesis
    unfolding data_12 by auto
qed

text \<open>
  \<^verbatim>\<open>list_match\<close> of two different lists answers 0 when they have the same length and every element
  of the first equals some element of the second.  The positions already taken are
  never recorded, so an element of the second list may be matched any number of times.
\<close>

theorem list_match_subset:
  assumes "list_rep st l1 as" "list_rep st l2 bs" "l1 \<noteq> l2"
  shows "list_match st (Some l1) (Some l2) cmp =
    Some (if length as = length bs \<and>
        (\<forall>n\<in>set as. \<exists>m\<in>set bs. cmp (data_at st n) (data_at st m) = 0) then 0 else - 1)"
proof -
  have "lcnt l1 = lcnt l2 \<longleftrightarrow> length as = length bs" using assms(1,2) by (simp add: list_rep_def)
  then show ?thesis
    using assms(3) list_data_rep [OF assms(1)] list_data_rep [OF assms(2)]
    by (simp add: list_match_def match_outer_0)
qed

definition store_2 :: "nat store" where
  "store_2 = \<lparr>nodes = [0 \<mapsto> \<lparr>nxt = Some 1, data = Some 10\<rparr>, 1 \<mapsto> \<lparr>nxt = None, data = Some 10\<rparr>,
     2 \<mapsto> \<lparr>nxt = Some 3, data = Some 10\<rparr>, 3 \<mapsto> \<lparr>nxt = None, data = Some 20\<rparr>],
     brk = 4, destroyed = []\<rparr>"

theorem list_match_subset_witness:
  "list_match store_2 (Some list_12) (Some (list_12\<lparr>lh := Some 2, lt := Some 3\<rparr>)) nat_cmp = Some 0"
proof -
  have "list_rep store_2 list_12 [0, 1]" "list_rep store_2 (list_12\<lparr>lh := Some 2, lt := Some 3\<rparr>) [2, 3]"
    "list_12 \<noteq> list_12\<lparr>lh := Some 2, lt := Some 3\<rparr>"
    by (auto simp: list_rep_def store_2_def list_12_def split: if_splits)
  from list_match_subset [OF this, of nat_cmp] show ?thesis
    by (simp add: data_at_def store_2_def nat_cmp_def simple_CMP_def)
qed

lemma append_before_NULL:
  assumes rep: "list_rep st l (zs @ [x])"
  shows "\<exists>st' l'. list_append_before st l None d = Some (st', l') \<and> inserted st (zs @ [x]) st' d \<and>
    seg (nodes st') (lh l) (zs @ [x, brk st]) None \<and> l' = ht_add (l\<lparr>lcnt := lcnt l + 1\<rparr>) d"
proof -
  let ?st = "st\<lparr>nodes := (nodes st)(brk st \<mapsto> \<lparr>nxt = None, data = d\<rparr>), brk := brk st + 1\<rparr>"
  define st1 where "st1 = snd (node_create st d)"
  have nc: "node_create st d = (brk st, st1)" by (simp add: st1_def node_create_def)
  have link: "set_nxt st1 (brk st) None = Some ?st" by (simp add: st1_def set_nxt_def node_create_def)
  have fresh: "brk st \<notin> set (zs @ [x])" using list_rep_fresh [OF rep] .
  have seg: "seg (nodes st) (lh l) (zs @ [x]) None" "distinct (zs @ [x])" using rep by (simp_all add: list_rep_def)
  define a where "a = hd (zs @ [x])"
  have a: "lh l = Some a" using seg_head [OF seg(1)] by (simp add: a_def)
  have "seg (nodes ?st) (Some a) (zs @ [x]) None"
    using seg(1) a fresh by (subst seg_frame [where ns = "nodes st"]) auto
  then have before: "node_before ?st a None = Some x"
    by (rule node_before_seg) (use seg(2) in auto)
  have "seg (nodes st) (Some x) (x # []) None" using seg(1) by (auto simp: seg_append)
  then have "\<exists>st'. set_nxt ?st x (Some (brk st)) = Some st' \<and> inserted st (zs @ x # []) st' d \<and>
      seg (nodes st') (lh l) (zs @ x # brk st # []) None"
    using rep by (intro link_after [where q = None]) simp_all
  then show ?thesis
    using a before link by (auto simp: list_append_before_def nc)
qed

text \<open>
  Inserting before \<^verbatim>\<open>NULL\<close> links the data at the end of a non-empty list but leaves the
  tail pointer at the old last node.  The next append therefore cuts the inserted node off again:
  the list then counts one element more than it holds.
\<close>

theorem append_before_NULL_lost:
  assumes "list_rep st l as" "as \<noteq> []"
  shows "\<exists>st1 l1 st2 l2. list_append_before st l None d = Some (st1, l1) \<and>
    list_data st1 l1 = Some (map (data_at st) as @ [d]) \<and> list_append st1 l1 e = Some (st2, l2) \<and>
    list_data st2 l2 = Some (map (data_at st) as @ [e]) \<and> lcnt l2 = int (length as) + 2"
proof -
  obtain zs x where as: "as = zs @ [x]" using assms(2) by (metis rev_exhaust)
  have rep: "list_rep st l (zs @ [x])" using assms(1) as by simp
  obtain st1 l1 where s1: "list_append_before st l None d = Some (st1, l1)" "inserted st (zs @ [x]) st1 d"
    "seg (nodes st1) (lh l) (zs @ [x, brk st]) None" "l1 = ht_add (l\<lparr>lcnt := lcnt l + 1\<rparr>) d"
    using append_before_NULL [OF rep, of d] by (elim exE conjE)
  have fresh: "brk st \<notin> set as" using list_rep_fresh [OF assms(1)] .
  have data1: "map (data_at st1) (as @ [brk st]) = map (data_at st) as @ [d]"
    using s1(2) as by (simp add: inserted_def)
  have "list_data st1 l1 = Some (map (data_at st1) (as @ [brk st]))"
    using list_walk_seg [OF s1(3)] s1(4) as by (simp add: list_data_def)
  then have 1: "list_data st1 l1 = Some (map (data_at st) as @ [d])" unfolding data1 .
  obtain nd where nd: "nodes st1 x = Some nd" using s1(3) by (auto simp: seg_append)
  define n where "n = brk st1"
  have low: "a < n" if "a \<in> set as" for a
  proof -
    have "nodes st a \<noteq> None" using assms(1) that seg_dom unfolding list_rep_def by blast
    then have "a < brk st" using assms(1) unfolding list_rep_def by blast
    then show ?thesis using s1(2) by (simp add: n_def inserted_def)
  qed
  define st2 where "st2 = st1\<lparr>nodes := (nodes st1)(n \<mapsto> \<lparr>nxt = None, data = e\<rparr>, x \<mapsto> nd\<lparr>nxt := Some n\<rparr>), brk := n + 1\<rparr>"
  have xn: "x \<noteq> n" "n \<notin> set zs" "x \<notin> set zs" using low as assms(1) by (auto simp: list_rep_def)
  have cnt: "lcnt l = int (length as)" "lt l = Some x" using rep as by (auto simp: list_rep_def)
  define l2 where "l2 = ht_add (l1\<lparr>lt := Some n, lcnt := lcnt l1 + 1\<rparr>) e"
  have ap: "list_append st1 l1 e = Some (st2, l2)"
    using s1(4) cnt nd xn by (simp add: list_append_def node_create_def set_nxt_def st2_def l2_def flip: n_def)
  have "seg (nodes st1) (lh l) zs (Some x)" using s1(3) by (auto simp: seg_append)
  then have "seg (nodes st2) (lh l) zs (Some x)"
    using xn by (subst seg_frame [where ns = "nodes st1"]) (auto simp: st2_def)
  then have "seg (nodes st2) (lh l) (as @ [n]) None"
    using xn as by (auto simp: seg_append st2_def)
  then have "list_data st2 l2 = Some (map (data_at st2) (as @ [n]))"
    using list_walk_seg s1(4) by (fastforce simp: list_data_def l2_def)
  moreover have "map (data_at st2) as = map (data_at st1) as"
    using low nd by (intro map_cong [OF refl]) (auto simp: st2_def data_at_def)
  moreover have "data_at st2 n = e" using xn by (simp add: st2_def data_at_def)
  moreover have "map (data_at st1) as = map (data_at st) as" using data1 by simp
  ultimately have "list_data st2 l2 = Some (map (data_at st) as @ [e])" by simp
  moreover have "lcnt l2 = int (length as) + 2" using cnt s1(4) by (simp add: l2_def)
  ultimately show ?thesis using s1(1) 1 ap by blast
qed

theorem append_before_NULL_witness:
  "\<exists>st1 l1 st2 l2. list_append_before store_12 list_12 None (Some 30) = Some (st1, l1) \<and>
     list_append st1 l1 (Some 40) = Some (st2, l2) \<and>
     list_data st2 l2 = Some [Some 10, Some 20, Some 40] \<and> lcnt l2 = 4"
proof -
  have "[0, 1] \<noteq> ([] :: nat list)" by simp
  from append_before_NULL_lost [OF rep_12 this, of "Some 30" "Some 40"] show ?thesis
    unfolding data_12 by auto
qed

end
