(* ===== verification/Gdk_Qsort.thy ===== *)
theory Gdk_Qsort
  imports Gdk_Atoms "HOL-Library.Monad_Syntax" "HOL-Library.Multiset"
begin

text \<open>
  The quicksort of the kernel (\<^verbatim>\<open>gdk/gdk_qsort.c\<close>, \<^verbatim>\<open>gdk/gdk_qsort_impl.h\<close>).  The arrays \<^verbatim>\<open>h\<close>
  and \<^verbatim>\<open>t\<close>, which are permuted together, are one list of rows; the pointer \<^verbatim>\<open>h\<close> is the index
  of its first row.  The tokens \<^verbatim>\<open>LE\<close>, \<^verbatim>\<open>LT\<close> and \<^verbatim>\<open>EQ\<close>, which the source redefines before each
  inclusion, are arguments.  Reading or swapping a row outside the \<open>n\<close> rows that were passed
  is \<^const>\<open>None\<close>, so a result also says that every access was in bounds.
\<close>

type_synonym ('k, 't) rows = "('k \<times> 't) list"

definition CMP :: "('k \<Rightarrow> 'k \<Rightarrow> bool) \<Rightarrow> nat \<Rightarrow> nat \<Rightarrow> ('k, 't) rows \<Rightarrow> nat \<Rightarrow> nat \<Rightarrow> bool option" where
  "CMP R h n xs i j =
    (if i < n \<and> j < n \<and> h + n \<le> length xs then Some (R (fst (xs ! (h + i))) (fst (xs ! (h + j)))) else None)"

definition SWAP :: "nat \<Rightarrow> nat \<Rightarrow> ('k, 't) rows \<Rightarrow> nat \<Rightarrow> nat \<Rightarrow> ('k, 't) rows option" where
  "SWAP h n xs i j =
    (if i < n \<and> j < n \<and> h + n \<le> length xs
     then Some (xs[h + i := xs ! (h + j), h + j := xs ! (h + i)]) else None)"

primrec multi_SWAP :: "nat \<Rightarrow> nat \<Rightarrow> ('k, 't) rows \<Rightarrow> nat \<Rightarrow> nat \<Rightarrow> nat \<Rightarrow> ('k, 't) rows option" where
  "multi_SWAP h n xs i j 0 = Some xs"
| "multi_SWAP h n xs i j (Suc r) = do {
     xs \<leftarrow> multi_SWAP h n xs i j r;
     SWAP h n xs (i + r) (j + r)
   }"

definition MED3 :: "('k \<Rightarrow> 'k \<Rightarrow> bool) \<Rightarrow> nat \<Rightarrow> nat \<Rightarrow> ('k, 't) rows \<Rightarrow> nat \<Rightarrow> nat \<Rightarrow> nat \<Rightarrow> nat option" where
  "MED3 LT h n xs a b c = do {
     lt \<leftarrow> CMP LT h n xs a b;
     if lt then do {
       lt \<leftarrow> CMP LT h n xs b c;
       if lt then Some b
       else do { lt \<leftarrow> CMP LT h n xs a c; Some (if lt then c else a) }
     } else do {
       lt \<leftarrow> CMP LT h n xs c b;
       if lt then Some b
       else do { lt \<leftarrow> CMP LT h n xs a c; Some (if lt then a else c) }
     }
   }"

text \<open>The insertion sort of small chunks: the inner and the outer loop.\<close>

fun insert_down :: "('k \<Rightarrow> 'k \<Rightarrow> bool) \<Rightarrow> nat \<Rightarrow> nat \<Rightarrow> ('k, 't) rows \<Rightarrow> nat \<Rightarrow> ('k, 't) rows option" where
  "insert_down LE h n xs 0 = Some xs"
| "insert_down LE h n xs (Suc a) = do {
     le \<leftarrow> CMP LE h n xs (Suc a) a;
     if le then do { xs \<leftarrow> SWAP h n xs (Suc a) a; insert_down LE h n xs a } else Some xs
   }"

function insertion :: "('k \<Rightarrow> 'k \<Rightarrow> bool) \<Rightarrow> nat \<Rightarrow> nat \<Rightarrow> ('k, 't) rows \<Rightarrow> nat \<Rightarrow> ('k, 't) rows option" where
  "insertion LE h n xs b =
    (if b < n then do { xs \<leftarrow> insert_down LE h n xs b; insertion LE h n xs (b + 1) } else Some xs)"
  by pat_completeness auto
termination
  by (relation "measure (\<lambda>(LE, h, n, xs, b). n - b)") auto

declare insertion.simps [simp del]

definition pivot :: "('k \<Rightarrow> 'k \<Rightarrow> bool) \<Rightarrow> nat \<Rightarrow> nat \<Rightarrow> ('k, 't) rows \<Rightarrow> nat option" where
  "pivot LT h n xs =
    (let b = n div 2 in
     if n > 7 then
       let a = 0; c = n - 1 in
       if n > 40 then
         let d = n div 8 in do {
           a \<leftarrow> MED3 LT h n xs a (a + d) (a + 2 * d);
           b \<leftarrow> MED3 LT h n xs (b - d) b (b + d);
           c \<leftarrow> MED3 LT h n xs (c - 2 * d) (c - d) c;
           MED3 LT h n xs a b c
         }
       else MED3 LT h n xs a b c
     else Some b)"

text \<open>The two scans of the partitioning loop, and the loop.\<close>

partial_function (option) scan_up ::
  "('k \<Rightarrow> 'k \<Rightarrow> bool) \<Rightarrow> ('k \<Rightarrow> 'k \<Rightarrow> bool) \<Rightarrow> nat \<Rightarrow> nat \<Rightarrow> nat \<Rightarrow> ('k, 't) rows \<Rightarrow> nat \<Rightarrow> nat \<Rightarrow> bool \<Rightarrow>
   (('k, 't) rows \<times> nat \<times> nat \<times> bool) option" where
  "scan_up LE EQ h n c xs a b swap_cnt =
    (if b \<le> c then do {
       le \<leftarrow> CMP LE h n xs b 0;
       if le then do {
         eq \<leftarrow> CMP EQ h n xs b 0;
         if eq then do {
           xs \<leftarrow> SWAP h n xs a b;
           scan_up LE EQ h n c xs (a + 1) (b + 1) True
         } else scan_up LE EQ h n c xs a (b + 1) swap_cnt
       } else Some (xs, a, b, swap_cnt)
     } else Some (xs, a, b, swap_cnt))"

partial_function (option) scan_down ::
  "('k \<Rightarrow> 'k \<Rightarrow> bool) \<Rightarrow> ('k \<Rightarrow> 'k \<Rightarrow> bool) \<Rightarrow> nat \<Rightarrow> nat \<Rightarrow> nat \<Rightarrow> ('k, 't) rows \<Rightarrow> nat \<Rightarrow> nat \<Rightarrow> bool \<Rightarrow>
   (('k, 't) rows \<times> nat \<times> nat \<times> bool) option" where
  "scan_down LE EQ h n b xs c d swap_cnt =
    (if b \<le> c then do {
       le \<leftarrow> CMP LE h n xs 0 c;
       if le then do {
         eq \<leftarrow> CMP EQ h n xs 0 c;
         if eq then do {
           xs \<leftarrow> SWAP h n xs c d;
           scan_down LE EQ h n b xs (c - 1) (d - 1) True
         } else scan_down LE EQ h n b xs (c - 1) d swap_cnt
       } else Some (xs, c, d, swap_cnt)
     } else Some (xs, c, d, swap_cnt))"

partial_function (option) flag ::
  "('k \<Rightarrow> 'k \<Rightarrow> bool) \<Rightarrow> ('k \<Rightarrow> 'k \<Rightarrow> bool) \<Rightarrow> nat \<Rightarrow> nat \<Rightarrow> ('k, 't) rows \<Rightarrow> nat \<Rightarrow> nat \<Rightarrow> nat \<Rightarrow> nat \<Rightarrow> bool \<Rightarrow>
   (('k, 't) rows \<times> nat \<times> nat \<times> nat \<times> nat \<times> bool) option" where
  "flag LE EQ h n xs a b c d swap_cnt = do {
     (xs, a, b, swap_cnt) \<leftarrow> scan_up LE EQ h n c xs a b swap_cnt;
     (xs, c, d, swap_cnt) \<leftarrow> scan_down LE EQ h n b xs c d swap_cnt;
     if b > c then Some (xs, a, b, c, d, swap_cnt)
     else do {
       xs \<leftarrow> SWAP h n xs b c;
       flag LE EQ h n xs a (b + 1) (c - 1) d True
     }
   }"

text \<open>
  The sort.  The recursive call on the smaller part and the jump back to \<^verbatim>\<open>loop\<close> for the larger
  part are both calls here.
\<close>

partial_function (option) GDKqsort_impl ::
  "('k \<Rightarrow> 'k \<Rightarrow> bool) \<Rightarrow> ('k \<Rightarrow> 'k \<Rightarrow> bool) \<Rightarrow> ('k \<Rightarrow> 'k \<Rightarrow> bool) \<Rightarrow> nat \<Rightarrow> nat \<Rightarrow> ('k, 't) rows \<Rightarrow> ('k, 't) rows option" where
  "GDKqsort_impl LE LT EQ h n xs =
    (if n < 7 then insertion LE h n xs 1
     else do {
       b \<leftarrow> pivot LT h n xs;
       xs \<leftarrow> (if b \<noteq> 0 then SWAP h n xs 0 b else Some xs);
       (xs, a, b, c, d, swap_cnt) \<leftarrow> flag LE EQ h n xs 1 1 (n - 1) (n - 1) False;
       if \<not> swap_cnt \<and> n < 1024 then insertion LE h n xs 1
       else do {
         xs \<leftarrow> multi_SWAP h n xs 0 (b - min a (b - a)) (min a (b - a));
         xs \<leftarrow> multi_SWAP h n xs b (n - min (d - c) (n - d - 1)) (min (d - c) (n - d - 1));
         if b - a < d - c then do {
           xs \<leftarrow> (if b - a > 1 then GDKqsort_impl LE LT EQ h (b - a) xs else Some xs);
           if d - c > 1 then GDKqsort_impl LE LT EQ (h + (n - (d - c))) (d - c) xs else Some xs
         } else do {
           xs \<leftarrow> (if d - c > 1 then GDKqsort_impl LE LT EQ (h + (n - (d - c))) (d - c) xs else Some xs);
           if b - a > 1 then GDKqsort_impl LE LT EQ h (b - a) xs else Some xs
         }
       }
     })"

text \<open>
  The instances: the integer types compare the values, the others call the comparison
  function of the atom on what the entries denote.
\<close>

definition GDKqsort_impl_int :: "nat \<Rightarrow> nat \<Rightarrow> (int, 't) rows \<Rightarrow> (int, 't) rows option" where
  "GDKqsort_impl_int = GDKqsort_impl (\<le>) (<) (=)"

definition GDKqsort_impl_int_rev :: "nat \<Rightarrow> nat \<Rightarrow> (int, 't) rows \<Rightarrow> (int, 't) rows option" where
  "GDKqsort_impl_int_rev = GDKqsort_impl (\<ge>) (>) (=)"

definition GDKqsort_impl_any :: "('k \<Rightarrow> 'k \<Rightarrow> int) \<Rightarrow> nat \<Rightarrow> nat \<Rightarrow> ('k, 't) rows \<Rightarrow> ('k, 't) rows option" where
  "GDKqsort_impl_any cmp =
    GDKqsort_impl (\<lambda>x y. cmp x y \<le> 0) (\<lambda>x y. cmp x y < 0) (\<lambda>x y. cmp x y = 0)"

definition GDKqsort_impl_any_rev :: "('k \<Rightarrow> 'k \<Rightarrow> int) \<Rightarrow> nat \<Rightarrow> nat \<Rightarrow> ('k, 't) rows \<Rightarrow> ('k, 't) rows option" where
  "GDKqsort_impl_any_rev cmp =
    GDKqsort_impl (\<lambda>x y. cmp x y \<ge> 0) (\<lambda>x y. cmp x y > 0) (\<lambda>x y. cmp x y = 0)"

text \<open>
  The interface functions: the storage type selects the instance, and a heap \<^verbatim>\<open>base\<close> or a
  variable sized type the one that calls the comparison function \<^verbatim>\<open>cmp\<close> of the atom.  The
  instances for \<^verbatim>\<open>flt\<close> and \<^verbatim>\<open>dbl\<close> are left out.
\<close>

definition GDKqsort ::
  "tpe \<Rightarrow> bool \<Rightarrow> bool \<Rightarrow> (int \<Rightarrow> int \<Rightarrow> int) \<Rightarrow> (int, 't) rows \<Rightarrow> nat \<Rightarrow> (int, 't) rows option" where
  "GDKqsort tpe varsized base cmp xs n =
    (if varsized \<or> base then GDKqsort_impl_any cmp 0 n xs
     else case ATOMstorage tpe of TYPE_other \<Rightarrow> GDKqsort_impl_any cmp 0 n xs | _ \<Rightarrow> GDKqsort_impl_int 0 n xs)"

definition GDKqsort_rev ::
  "tpe \<Rightarrow> bool \<Rightarrow> bool \<Rightarrow> (int \<Rightarrow> int \<Rightarrow> int) \<Rightarrow> (int, 't) rows \<Rightarrow> nat \<Rightarrow> (int, 't) rows option" where
  "GDKqsort_rev tpe varsized base cmp xs n =
    (if varsized \<or> base then GDKqsort_impl_any_rev cmp 0 n xs
     else case ATOMstorage tpe of TYPE_other \<Rightarrow> GDKqsort_impl_any_rev cmp 0 n xs | _ \<Rightarrow> GDKqsort_impl_int_rev 0 n xs)"

subsection \<open>Rearranging a section\<close>

definition rearr :: "nat \<Rightarrow> nat \<Rightarrow> ('k, 't) rows \<Rightarrow> ('k, 't) rows \<Rightarrow> bool" where
  "rearr h n xs ys \<longleftrightarrow> mset ys = mset xs \<and> (\<forall>i. i < h \<or> h + n \<le> i \<longrightarrow> ys ! i = xs ! i)"

lemma rearr_refl [simp]: "rearr h n xs xs"
  by (simp add: rearr_def)

lemma rearr_length: "rearr h n xs ys \<Longrightarrow> length ys = length xs"
  using mset_eq_length by (auto simp: rearr_def)

lemma rearr_trans: "rearr h n xs ys \<Longrightarrow> rearr h n ys zs \<Longrightarrow> rearr h n xs zs"
  by (simp add: rearr_def)

lemma rearr_weaken: "rearr h' n' xs ys \<Longrightarrow> h \<le> h' \<Longrightarrow> h' + n' \<le> h + n \<Longrightarrow> rearr h n xs ys"
  by (auto simp: rearr_def)

lemma rearr_outside: "rearr h n xs ys \<Longrightarrow> i < h \<or> h + n \<le> i \<Longrightarrow> ys ! i = xs ! i"
  by (auto simp: rearr_def)

lemma section_split:
  assumes "h + n \<le> length xs"
  shows "xs = take h xs @ take n (drop h xs) @ drop (h + n) xs"
  using assms by (metis append_take_drop_id drop_drop add.commute)

lemma rearr_section:
  assumes r: "rearr h n xs ys" and l: "h + n \<le> length xs"
  shows "mset (take n (drop h ys)) = mset (take n (drop h xs))"
proof -
  have len: "length ys = length xs" using r by (rule rearr_length)
  have t: "take h ys = take h xs"
    using r l len by (intro nth_equalityI) (auto simp: rearr_def)
  have d: "drop (h + n) ys = drop (h + n) xs"
    using r l len by (intro nth_equalityI) (auto simp: rearr_def)
  have "mset ys = mset xs" using r by (simp add: rearr_def)
  then have "mset (take h ys @ take n (drop h ys) @ drop (h + n) ys) =
    mset (take h xs @ take n (drop h xs) @ drop (h + n) xs)"
    using section_split [of h n xs] section_split [of h n ys] l len by metis
  then show ?thesis using t d by simp
qed

lemma set_section: "h + n \<le> length xs \<Longrightarrow> set (take n (drop h xs)) = {xs ! (h + i) |i. i < n}"
  by (rule set_eqI) (simp add: in_set_conv_nth, metis nth_drop nth_take add_leD1)

lemma rearr_all:
  assumes "rearr h n xs ys" "h + n \<le> length xs" "\<forall>i<n. P (xs ! (h + i))" "i < n"
  shows "P (ys ! (h + i))"
proof -
  have "set (take n (drop h ys)) = set (take n (drop h xs))"
    using rearr_section [OF assms(1,2)] mset_eq_setD by blast
  moreover have "ys ! (h + i) \<in> set (take n (drop h ys))"
    using set_section [of h n ys] assms(2,4) rearr_length [OF assms(1)] by auto
  ultimately obtain k where "k < n" "ys ! (h + i) = xs ! (h + k)"
    using set_section [of h n xs] assms(2) by auto
  then show ?thesis using assms(3) by simp
qed

definition swapped :: "nat \<Rightarrow> nat \<Rightarrow> nat \<Rightarrow> nat \<Rightarrow> ('k, 't) rows \<Rightarrow> ('k, 't) rows \<Rightarrow> bool" where
  "swapped h n i j xs ys \<longleftrightarrow> length ys = length xs \<and>
    (\<forall>k<n. ys ! (h + k) = (if k = i then xs ! (h + j) else if k = j then xs ! (h + i) else xs ! (h + k)))"

lemma swapped_nth:
  "swapped h n i j xs ys \<Longrightarrow> k < n \<Longrightarrow>
    ys ! (h + k) = (if k = i then xs ! (h + j) else if k = j then xs ! (h + i) else xs ! (h + k))"
  by (simp add: swapped_def)

lemma rearr_all_from:
  assumes "rearr (h + k) m xs ys" "h + k + m \<le> length xs" "\<forall>i. k \<le> i \<longrightarrow> i < k + m \<longrightarrow> P (xs ! (h + i))" "k \<le> i" "i < k + m"
  shows "P (ys ! (h + i))"
  using rearr_all [OF assms(1,2), of P "i - k"] assms(3-5) by (simp add: add.assoc)

lemma SWAP_eq:
  assumes "i < n" "j < n" "h + n \<le> length xs"
  obtains ys where "SWAP h n xs i j = Some ys" "rearr h n xs ys" "swapped h n i j xs ys"
proof -
  have "\<exists>ys. SWAP h n xs i j = Some ys \<and> rearr h n xs ys \<and> swapped h n i j xs ys"
    using assms by (auto simp: SWAP_def rearr_def swapped_def mset_swap nth_list_update)
  then show thesis using that by (elim exE conjE)
qed

lemma CMP_eq [simp]:
  "i < n \<Longrightarrow> j < n \<Longrightarrow> h + n \<le> length xs \<Longrightarrow> CMP R h n xs i j = Some (R (fst (xs ! (h + i))) (fst (xs ! (h + j))))"
  by (simp add: CMP_def)

definition exchanged :: "nat \<Rightarrow> nat \<Rightarrow> nat \<Rightarrow> nat \<Rightarrow> nat \<Rightarrow> ('k, 't) rows \<Rightarrow> ('k, 't) rows \<Rightarrow> bool" where
  "exchanged h n i j r xs ys \<longleftrightarrow> length ys = length xs \<and>
    (\<forall>k<n. ys ! (h + k) = (if i \<le> k \<and> k < i + r then xs ! (h + (k - i + j))
       else if j \<le> k \<and> k < j + r then xs ! (h + (k - j + i)) else xs ! (h + k)))"

lemma exchanged_nth:
  "exchanged h n i j r xs ys \<Longrightarrow> k < n \<Longrightarrow>
    ys ! (h + k) = (if i \<le> k \<and> k < i + r then xs ! (h + (k - i + j))
       else if j \<le> k \<and> k < j + r then xs ! (h + (k - j + i)) else xs ! (h + k))"
  by (simp add: exchanged_def)

lemma multi_SWAP_exchanged:
  assumes "i + r \<le> j" "j + r \<le> n" "h + n \<le> length xs"
  shows "\<exists>ys. multi_SWAP h n xs i j r = Some ys \<and> rearr h n xs ys \<and> exchanged h n i j r xs ys"
  using assms
proof (induction r)
  case (Suc r)
  then obtain ys where ys: "multi_SWAP h n xs i j r = Some ys" "rearr h n xs ys" "exchanged h n i j r xs ys"
    by auto
  have "i + r < n" "j + r < n" "h + n \<le> length ys" using Suc.prems rearr_length [OF ys(2)] by auto
  then obtain zs where zs: "SWAP h n ys (i + r) (j + r) = Some zs" "rearr h n ys zs" "swapped h n (i + r) (j + r) ys zs"
    by (rule SWAP_eq)
  have "zs ! (h + k) = (if i \<le> k \<and> k < i + Suc r then xs ! (h + (k - i + j))
       else if j \<le> k \<and> k < j + Suc r then xs ! (h + (k - j + i)) else xs ! (h + k))" if "k < n" for k
  proof -
    have "ys ! (h + (j + r)) = xs ! (h + (j + r))" "ys ! (h + (i + r)) = xs ! (h + (i + r))"
      using exchanged_nth [OF ys(3), of "j + r"] exchanged_nth [OF ys(3), of "i + r"] Suc.prems by simp_all
    then show ?thesis
      using swapped_nth [OF zs(3) that] exchanged_nth [OF ys(3) that] Suc.prems
      by (cases "k = i + r"; cases "k = j + r"; cases "i \<le> k"; cases "j \<le> k") (simp_all add: add.commute)
  qed
  then have "exchanged h n i j (Suc r) xs zs"
    using rearr_length [OF ys(2)] rearr_length [OF zs(2)] by (simp add: exchanged_def)
  then show ?case using ys(1) zs(1) rearr_trans [OF ys(2) zs(2)] by simp
qed (auto simp: exchanged_def)

lemma MED3_in:
  assumes "a < n" "b < n" "c < n" "h + n \<le> length xs"
  shows "\<exists>m. MED3 LT h n xs a b c = Some m \<and> m < n"
  using assms by (simp add: MED3_def)

lemma pivot_in:
  assumes "7 \<le> n" "h + n \<le> length xs"
  shows "\<exists>b. pivot LT h n xs = Some b \<and> b < n"
proof -
  consider "n = 7" | "7 < n" "n \<le> 40" | "40 < n" using assms(1) by linarith
  then show ?thesis
  proof cases
    case 3
    define d where "d = n div 8"
    have d: "2 * d < n" "n div 2 + d < n" "n div 2 - d < n" using 3 by (auto simp: d_def)
    obtain a where a: "MED3 LT h n xs 0 (0 + d) (0 + 2 * d) = Some a" "a < n"
      using 3 d MED3_in [of 0 n "0 + d" "0 + 2 * d" h xs LT] assms(2) by auto
    obtain b where b: "MED3 LT h n xs (n div 2 - d) (n div 2) (n div 2 + d) = Some b" "b < n"
      using 3 d MED3_in [of "n div 2 - d" n "n div 2" "n div 2 + d" h xs LT] assms(2) by (auto simp del: less_imp_diff_less) 
    obtain c where c: "MED3 LT h n xs (n - 1 - 2 * d) (n - 1 - d) (n - 1) = Some c" "c < n"
      using 3 d MED3_in [of "n - 1 - 2 * d" n "n - 1 - d" "n - 1" h xs LT] assms(2) by auto
    show ?thesis
      using 3 assms(2) MED3_in [of a n b c h xs LT] a b c by (simp add: pivot_def Let_def d_def)
  qed (use assms(2) MED3_in [of 0 n "n div 2" "n - 1" h xs LT] in \<open>simp_all add: pivot_def Let_def\<close>)
qed

subsection \<open>The sort is correct for every total preorder\<close>

locale qsort_order =
  fixes LE LT EQ :: "'k \<Rightarrow> 'k \<Rightarrow> bool"
  assumes LE_total: "LE x y \<or> LE y x"
    and LE_trans: "LE x y \<Longrightarrow> LE y z \<Longrightarrow> LE x z"
    and EQ_LE: "EQ x y \<longleftrightarrow> LE x y \<and> LE y x"
begin

abbreviation key :: "('k, 't) rows \<Rightarrow> nat \<Rightarrow> 'k" where
  "key xs i \<equiv> fst (xs ! i)"

definition sorted_in :: "nat \<Rightarrow> nat \<Rightarrow> ('k, 't) rows \<Rightarrow> bool" where
  "sorted_in h n xs \<longleftrightarrow> (\<forall>i j. i < j \<longrightarrow> j < n \<longrightarrow> LE (key xs (h + i)) (key xs (h + j)))"

definition hole :: "nat \<Rightarrow> nat \<Rightarrow> nat \<Rightarrow> ('k, 't) rows \<Rightarrow> bool" where
  "hole h b a xs \<longleftrightarrow>
    (\<forall>i j. i < j \<longrightarrow> j \<le> b \<longrightarrow> j \<noteq> a \<longrightarrow> LE (key xs (h + i)) (key xs (h + j)))"

lemma holeD:
  "hole h b a xs \<Longrightarrow> i < j \<Longrightarrow> j \<le> b \<Longrightarrow> j \<noteq> a \<Longrightarrow> LE (key xs (h + i)) (key xs (h + j))"
  unfolding hole_def by blast

lemma hole_done:
  assumes "hole h b a xs" "a \<noteq> 0 \<Longrightarrow> LE (key xs (h + (a - 1))) (key xs (h + a))"
  shows "sorted_in h (Suc b) xs"
  unfolding sorted_in_def
proof (intro allI impI)
  fix i j assume ij: "i < j" "j < Suc b"
  show "LE (key xs (h + i)) (key xs (h + j))"
  proof (cases "j = a")
    case True
    then have a: "LE (key xs (h + (a - 1))) (key xs (h + a))" using assms(2) ij by simp
    show ?thesis
    proof (cases "i = a - 1")
      case False
      then have "LE (key xs (h + i)) (key xs (h + (a - 1)))"
        using holeD [OF assms(1), of i "a - 1"] ij True by simp
      with a True show ?thesis using LE_trans by blast
    qed (use a True in simp)
  qed (use holeD [OF assms(1)] ij in simp)
qed

lemma insert_down_sorts:
  assumes "hole h b a xs" "a \<le> b" "b < n" "h + n \<le> length xs"
  shows "\<exists>ys. insert_down LE h n xs a = Some ys \<and> rearr h n xs ys \<and> sorted_in h (Suc b) ys"
  using assms
proof (induction a arbitrary: xs)
  case 0
  then show ?case using hole_done [of h b 0 xs] by simp
next
  case (Suc a)
  let ?le = "LE (key xs (h + Suc a)) (key xs (h + a))"
  show ?case
  proof (cases ?le)
    case True
    have "Suc a < n" "a < n" using Suc.prems by auto
    then obtain ys where ys: "SWAP h n xs (Suc a) a = Some ys" "rearr h n xs ys" "swapped h n (Suc a) a xs ys"
      using Suc.prems(4) by (rule SWAP_eq)
    have "hole h b a ys"
      unfolding hole_def
    proof (intro allI impI)
      fix i j assume ij: "i < j" "j \<le> b" "j \<noteq> a"
      note le = holeD [OF Suc.prems(1)]
      show "LE (key ys (h + i)) (key ys (h + j))"
        using swapped_nth [OF ys(3), of i] swapped_nth [OF ys(3), of j] ij Suc.prems(3) True
          le [of i j] le [of a j] le [of "Suc a" j] le [of i a]
        by (cases "i = a"; cases "j = Suc a"; cases "i = Suc a") simp_all
    qed
    then obtain zs where "insert_down LE h n ys a = Some zs" "rearr h n ys zs" "sorted_in h (Suc b) zs"
      using Suc.IH [of ys] Suc.prems rearr_length [OF ys(2)] by auto
    then show ?thesis
      using ys(1,2) True Suc.prems by (auto intro: rearr_trans)
  next
    case False
    then have "LE (key xs (h + a)) (key xs (h + Suc a))" using LE_total by blast
    then have "sorted_in h (Suc b) xs" using hole_done [OF Suc.prems(1)] by simp
    then show ?thesis using False Suc.prems by simp
  qed
qed

lemma insertion_sorts:
  assumes "sorted_in h b xs" "1 \<le> b" "b \<le> n" "h + n \<le> length xs"
  shows "\<exists>ys. insertion LE h n xs b = Some ys \<and> rearr h n xs ys \<and> sorted_in h n ys"
  using assms
proof (induction "n - b" arbitrary: b xs)
  case 0
  then show ?case by (simp add: insertion.simps)
next
  case (Suc m)
  have "hole h b b xs" using Suc.prems(1) by (auto simp: hole_def sorted_in_def)
  then obtain ys where ys: "insert_down LE h n xs b = Some ys" "rearr h n xs ys" "sorted_in h (Suc b) ys"
    using insert_down_sorts [of h b b xs n] Suc.hyps(2) Suc.prems by fastforce
  have "b < n" "m = n - (b + 1)" using Suc.hyps(2) by auto
  then obtain zs where "insertion LE h n ys (b + 1) = Some zs" "rearr h n ys zs" "sorted_in h n zs"
    using Suc.hyps(1) [of "b + 1" ys] Suc.prems ys rearr_length [OF ys(2)] by auto
  then show ?case
    using ys(1,2) Suc.hyps(2) by (subst insertion.simps) (auto intro: rearr_trans)
qed

lemma insertion_1:
  assumes "h + n \<le> length xs"
  shows "\<exists>ys. insertion LE h n xs 1 = Some ys \<and> rearr h n xs ys \<and> sorted_in h n ys"
proof (cases "n = 0")
  case True
  then show ?thesis by (simp add: insertion.simps sorted_in_def)
qed (use insertion_sorts [of h 1 xs n] assms in \<open>auto simp: sorted_in_def\<close>)

text \<open>
  The invariant of the partitioning loop, as the comment in the source states it for its
  end: the rows before \<open>a\<close> and after \<open>d\<close> equal the pivot \<open>p\<close>, those from \<open>a\<close> to \<open>b\<close> are less,
  those from \<open>c + 1\<close> to \<open>d\<close> are greater.
\<close>

definition part :: "nat \<Rightarrow> nat \<Rightarrow> 'k \<Rightarrow> ('k, 't) rows \<Rightarrow> nat \<Rightarrow> nat \<Rightarrow> nat \<Rightarrow> nat \<Rightarrow> bool" where
  "part h n p xs a b c d \<longleftrightarrow>
    h + n \<le> length xs \<and> 1 \<le> a \<and> a \<le> b \<and> b \<le> c + 1 \<and> c \<le> d \<and> d < n \<and> key xs h = p \<and>
    (\<forall>i<a. EQ (key xs (h + i)) p) \<and> (\<forall>i. a \<le> i \<longrightarrow> i < b \<longrightarrow> \<not> LE p (key xs (h + i))) \<and>
    (\<forall>i. c < i \<longrightarrow> i \<le> d \<longrightarrow> \<not> LE (key xs (h + i)) p) \<and> (\<forall>i. d < i \<longrightarrow> i < n \<longrightarrow> EQ (key xs (h + i)) p)"

lemma partD:
  assumes "part h n p xs a b c d"
  shows "h + n \<le> length xs" "1 \<le> a" "a \<le> b" "b \<le> c + 1" "c \<le> d" "d < n" "key xs h = p"
    "i < a \<Longrightarrow> EQ (key xs (h + i)) p" "a \<le> i \<Longrightarrow> i < b \<Longrightarrow> \<not> LE p (key xs (h + i))"
    "c < i \<Longrightarrow> i \<le> d \<Longrightarrow> \<not> LE (key xs (h + i)) p" "d < i \<Longrightarrow> i < n \<Longrightarrow> EQ (key xs (h + i)) p"
  using assms by (auto simp: part_def)

lemma EQ_sym: "EQ x y \<longleftrightarrow> EQ y x"
  by (auto simp: EQ_LE)

lemma part_up:
  assumes "part h n p xs a b c d" "b \<le> c" "\<not> LE p (key xs (h + b))"
  shows "part h n p xs a (b + 1) c d"
  using assms by (auto simp: part_def less_Suc_eq)

lemma part_down:
  assumes "part h n p xs a b c d" "b \<le> c" "\<not> LE (key xs (h + c)) p"
  shows "part h n p xs a b (c - 1) d"
proof -
  have "c < i \<or> i = c" if "c - 1 < i" for i using that by linarith
  then show ?thesis using assms by (fastforce simp: part_def)
qed

lemma part_keep:
  assumes "part h n p xs a b c d" "swapped h n i j xs ys" "1 \<le> i" "1 \<le> j"
  shows "h + n \<le> length ys" "key ys h = p"
  using partD [OF assms(1)] swapped_nth [OF assms(2), of 0] assms(2-) by (auto simp: swapped_def)

lemma part_up_eq:
  assumes p: "part h n p xs a b c d" and b: "b \<le> c" and e: "EQ (key xs (h + b)) p" and s: "swapped h n a b xs ys"
  shows "part h n p ys (a + 1) (b + 1) c d"
proof -
  note P = partD [OF p]
  have k: "h + n \<le> length ys" "key ys h = p" using part_keep [OF p s] P(2,3) by auto
  have "EQ (key ys (h + i)) p" if "i < a + 1" for i
    using swapped_nth [OF s, of i] P(3-6) P(8) [of i] that e b by (cases "i = a") auto
  moreover have "\<not> LE p (key ys (h + i))" if "a + 1 \<le> i" "i < b + 1" for i
    using swapped_nth [OF s, of i] P(4-6) P(9) [of i] P(9) [of a] that b by (cases "i = b") auto
  moreover have "\<not> LE (key ys (h + i)) p" if "c < i" "i \<le> d" for i
    using swapped_nth [OF s, of i] P(3-6) P(10) [of i] that b by auto
  moreover have "EQ (key ys (h + i)) p" if "d < i" "i < n" for i
    using swapped_nth [OF s, of i] P(3-6) P(11) [of i] that b by auto
  ultimately show ?thesis using k P(2-6) b by (simp add: part_def)
qed

lemma part_down_eq:
  assumes p: "part h n p xs a b c d" and b: "b \<le> c" and e: "EQ (key xs (h + c)) p" and s: "swapped h n c d xs ys"
  shows "part h n p ys a b (c - 1) (d - 1)"
proof -
  note P = partD [OF p]
  have k: "h + n \<le> length ys" "key ys h = p" using part_keep [OF p s] P(2-5) b by auto
  have "EQ (key ys (h + i)) p" if "i < a" for i
    using swapped_nth [OF s, of i] P(3-6) P(8) [of i] that b by auto
  moreover have "\<not> LE p (key ys (h + i))" if "a \<le> i" "i < b" for i
    using swapped_nth [OF s, of i] P(4-6) P(9) [of i] that b by auto
  moreover have "\<not> LE (key ys (h + i)) p" if "c - 1 < i" "i \<le> d - 1" for i
    using swapped_nth [OF s, of i] P(2-6) P(10) [of i] P(10) [of d] that b by (cases "i = c") auto
  moreover have "EQ (key ys (h + i)) p" if "d - 1 < i" "i < n" for i
    using swapped_nth [OF s, of i] P(2-6) P(11) [of i] that b e by (cases "i = d") auto
  moreover have "c - 1 \<le> d - 1" "d - 1 < n" using P(5,6) by linarith+
  ultimately show ?thesis using k P(2-6) b by (simp add: part_def)
qed

lemma part_swap:
  assumes p: "part h n p xs a b c d" and b: "b < c" and s: "swapped h n b c xs ys"
    and l: "\<not> LE (key xs (h + b)) p" "\<not> LE p (key xs (h + c))"
  shows "part h n p ys a (b + 1) (c - 1) d"
proof -
  note P = partD [OF p]
  have k: "h + n \<le> length ys" "key ys h = p" using part_keep [OF p s] P(2-5) b by auto
  have "EQ (key ys (h + i)) p" if "i < a" for i
    using swapped_nth [OF s, of i] P(3-6) P(8) [of i] that b by auto
  moreover have "\<not> LE p (key ys (h + i))" if "a \<le> i" "i < b + 1" for i
    using swapped_nth [OF s, of i] P(4-6) P(9) [of i] that b l(2) by (cases "i = b") auto
  moreover have "\<not> LE (key ys (h + i)) p" if "c - 1 < i" "i \<le> d" for i
    using swapped_nth [OF s, of i] P(2-6) P(10) [of i] that b l(1) by (cases "i = c") auto
  moreover have "EQ (key ys (h + i)) p" if "d < i" "i < n" for i
    using swapped_nth [OF s, of i] P(2-6) P(11) [of i] that b by auto
  ultimately show ?thesis using k P(2-6) b by (simp add: part_def)
qed

lemma scan_up_spec:
  assumes "part h n p xs a b c d"
  shows "\<exists>ys a' b' s'. scan_up LE EQ h n c xs a b s = Some (ys, a', b', s') \<and> rearr h n xs ys \<and>
    part h n p ys a' b' c d \<and> b \<le> b' \<and> (b' \<le> c \<longrightarrow> \<not> LE (key ys (h + b')) p)"
  using assms
proof (induction "c + 1 - b" arbitrary: xs a b s)
  case 0
  then show ?case using scan_up.simps [of LE EQ h n c xs a b s] by auto
next
  case (Suc m)
  note P = partD [OF Suc.prems]
  have b: "b \<le> c" "b < n" "m = c + 1 - (b + 1)" using Suc.hyps(2) P(4-6) by auto
  have cmp: "CMP R h n xs b 0 = Some (R (key xs (h + b)) p)" for R
    using b P(1,7) CMP_eq [of b n 0 h xs R] by simp
  show ?case
  proof (cases "LE (key xs (h + b)) p")
    case False
    then show ?thesis using scan_up.simps [of LE EQ h n c xs a b s] b cmp Suc.prems by auto
  next
    case le: True
    show ?thesis
    proof (cases "EQ (key xs (h + b)) p")
      case True
      have "a < n" using P(3) b(2) by simp
      then obtain ys where ys: "SWAP h n xs a b = Some ys" "rearr h n xs ys" "swapped h n a b xs ys"
        using b(2) P(1) by (rule SWAP_eq)
      from Suc.hyps(1) [OF b(3) part_up_eq [OF Suc.prems b(1) True ys(3)]] obtain zs a' b' s' where
        "scan_up LE EQ h n c ys (a + 1) (b + 1) True = Some (zs, a', b', s')" "rearr h n ys zs"
        "part h n p zs a' b' c d" "b + 1 \<le> b'" "b' \<le> c \<longrightarrow> \<not> LE (key zs (h + b')) p" by blast
      then show ?thesis
        using scan_up.simps [of LE EQ h n c xs a b s] b cmp le True ys rearr_trans [of h n xs ys zs] by auto
    next
      case False
      then have "\<not> LE p (key xs (h + b))" using le by (simp add: EQ_LE)
      from Suc.hyps(1) [OF b(3) part_up [OF Suc.prems b(1) this]] obtain zs a' b' s' where
        "scan_up LE EQ h n c xs a (b + 1) s = Some (zs, a', b', s')" "rearr h n xs zs"
        "part h n p zs a' b' c d" "b + 1 \<le> b'" "b' \<le> c \<longrightarrow> \<not> LE (key zs (h + b')) p" by blast
      then show ?thesis
        using scan_up.simps [of LE EQ h n c xs a b s] b cmp le False by auto
    qed
  qed
qed

lemma scan_down_spec:
  assumes "part h n p xs a b c d"
  shows "\<exists>ys c' d' s'. scan_down LE EQ h n b xs c d s = Some (ys, c', d', s') \<and> rearr h n xs ys \<and>
    part h n p ys a b c' d' \<and> c' \<le> c \<and> (\<forall>i\<le>c'. ys ! (h + i) = xs ! (h + i)) \<and>
    (b \<le> c' \<longrightarrow> \<not> LE p (key ys (h + c')))"
  using assms
proof (induction "c + 1 - b" arbitrary: xs c d s)
  case 0
  then show ?case using scan_down.simps [of LE EQ h n b xs c d s] by auto
next
  case (Suc m)
  note P = partD [OF Suc.prems]
  have b: "b \<le> c" "c < n" "m = (c - 1) + 1 - b" using Suc.hyps(2) P(2-6) by auto
  have cmp: "CMP R h n xs 0 c = Some (R p (key xs (h + c)))" for R
    using b P(1,7) CMP_eq [of 0 n c h xs R] by simp
  show ?case
  proof (cases "LE p (key xs (h + c))")
    case False
    then show ?thesis using scan_down.simps [of LE EQ h n b xs c d s] b cmp Suc.prems by auto
  next
    case le: True
    show ?thesis
    proof (cases "EQ p (key xs (h + c))")
      case True
      obtain ys where ys: "SWAP h n xs c d = Some ys" "rearr h n xs ys" "swapped h n c d xs ys"
        using b(2) P(6,1) by (rule SWAP_eq)
      have "EQ (key xs (h + c)) p" using True EQ_sym by blast
      from Suc.hyps(1) [OF b(3) part_down_eq [OF Suc.prems b(1) this ys(3)]] obtain zs c' d' s' where
        z: "scan_down LE EQ h n b ys (c - 1) (d - 1) True = Some (zs, c', d', s')" "rearr h n ys zs"
        "part h n p zs a b c' d'" "c' \<le> c - 1" "\<forall>i\<le>c'. zs ! (h + i) = ys ! (h + i)" "b \<le> c' \<longrightarrow> \<not> LE p (key zs (h + c'))"
        by blast
      have "zs ! (h + i) = xs ! (h + i)" if "i \<le> c'" for i
      proof -
        have "i < c" "i < d" "i < n" using that z(4) P(2-6) b(1) by linarith+
        then show ?thesis using z(5) that swapped_nth [OF ys(3), of i] by simp
      qed
      then show ?thesis
        using scan_down.simps [of LE EQ h n b xs c d s] b cmp le True ys z rearr_trans [of h n xs ys zs] by simp
    next
      case False
      then have "\<not> LE (key xs (h + c)) p" using le by (simp add: EQ_LE)
      from Suc.hyps(1) [OF b(3) part_down [OF Suc.prems b(1) this]] obtain zs c' d' s' where
        "scan_down LE EQ h n b xs (c - 1) d s = Some (zs, c', d', s')" "rearr h n xs zs"
        "part h n p zs a b c' d'" "c' \<le> c - 1" "\<forall>i\<le>c'. zs ! (h + i) = xs ! (h + i)" "b \<le> c' \<longrightarrow> \<not> LE p (key zs (h + c'))"
        by blast
      then show ?thesis
        using scan_down.simps [of LE EQ h n b xs c d s] b cmp le False by simp
    qed
  qed
qed

lemma flag_spec:
  assumes "part h n p xs a b c d"
  shows "\<exists>ys a' b' c' d' s'. flag LE EQ h n xs a b c d s = Some (ys, a', b', c', d', s') \<and> rearr h n xs ys \<and>
    part h n p ys a' b' c' d' \<and> c' < b'"
  using assms
proof (induction "c + 1 - b" arbitrary: xs a b c d s rule: less_induct)
  case less
  obtain ys a1 b1 s1 where y: "scan_up LE EQ h n c xs a b s = Some (ys, a1, b1, s1)" "rearr h n xs ys"
    "part h n p ys a1 b1 c d" "b \<le> b1" "b1 \<le> c \<longrightarrow> \<not> LE (key ys (h + b1)) p"
    using scan_up_spec [where s = s, OF less.prems] by (elim exE conjE)
  obtain zs c1 d1 s2 where z: "scan_down LE EQ h n b1 ys c d s1 = Some (zs, c1, d1, s2)" "rearr h n ys zs"
    "part h n p zs a1 b1 c1 d1" "c1 \<le> c" "\<forall>i\<le>c1. zs ! (h + i) = ys ! (h + i)" "b1 \<le> c1 \<longrightarrow> \<not> LE p (key zs (h + c1))"
    using scan_down_spec [where s = s1, OF y(3)] by (elim exE conjE)
  note r = rearr_trans [OF y(2) z(2)]
  have eq: "flag LE EQ h n xs a b c d s = (if b1 > c1 then Some (zs, a1, b1, c1, d1, s2)
     else do { xs \<leftarrow> SWAP h n zs b1 c1; flag LE EQ h n xs a1 (b1 + 1) (c1 - 1) d1 True })"
    using flag.simps [of LE EQ h n xs a b c d s] y(1) z(1) by simp
  show ?case
  proof (cases "b1 > c1")
    case True
    then show ?thesis using eq z(3) r by auto
  next
    case False
    note P = partD [OF z(3)]
    have l: "\<not> LE (key zs (h + b1)) p" "\<not> LE p (key zs (h + c1))"
      using False y(5) z(4-6) by auto
    then have "b1 \<noteq> c1" using LE_total by metis
    then have bc: "b1 < c1" "b1 < n" "c1 < n" using False P(5,6) by auto
    obtain ws where w: "SWAP h n zs b1 c1 = Some ws" "rearr h n zs ws" "swapped h n b1 c1 zs ws"
      using bc(2,3) P(1) by (rule SWAP_eq)
    have "c1 - 1 + 1 - (b1 + 1) < c + 1 - b" using bc(1) y(4) z(4) by linarith
    from less.hyps [OF this part_swap [OF z(3) bc(1) w(3) l]] obtain vs a' b' c' d' s' where
      v: "flag LE EQ h n ws a1 (b1 + 1) (c1 - 1) d1 True = Some (vs, a', b', c', d', s')" "rearr h n ws vs"
        "part h n p vs a' b' c' d'" "c' < b'"
      by blast
    show ?thesis
      using eq False w(1) v rearr_trans [OF rearr_trans [OF r w(2)] v(2)] by simp
  qed
qed

text \<open>After moving the rows equal to the pivot to the middle.\<close>

definition parted :: "nat \<Rightarrow> nat \<Rightarrow> 'k \<Rightarrow> ('k, 't) rows \<Rightarrow> nat \<Rightarrow> nat \<Rightarrow> bool" where
  "parted h n p xs l g \<longleftrightarrow> h + n \<le> length xs \<and> l + g < n \<and>
    (\<forall>i<l. \<not> LE p (key xs (h + i))) \<and> (\<forall>i. l \<le> i \<longrightarrow> i < n - g \<longrightarrow> EQ (key xs (h + i)) p) \<and>
    (\<forall>i. n - g \<le> i \<longrightarrow> i < n \<longrightarrow> \<not> LE (key xs (h + i)) p)"

lemma rows_moved:
  assumes r: "r1 + r1 \<le> b" "b + r2 \<le> n - r2" "r2 \<le> n" and l: "h + n \<le> length xs"
  shows "\<exists>ys zs. multi_SWAP h n xs 0 (b - r1) r1 = Some ys \<and> multi_SWAP h n ys b (n - r2) r2 = Some zs \<and> rearr h n xs zs \<and>
    (\<forall>k<b. zs ! (h + k) = (if k < r1 then xs ! (h + (k + (b - r1)))
       else if b - r1 \<le> k then xs ! (h + (k - (b - r1))) else xs ! (h + k))) \<and>
    (\<forall>k. b \<le> k \<longrightarrow> k < n \<longrightarrow> zs ! (h + k) = (if k < b + r2 then xs ! (h + (k - b + (n - r2)))
       else if n - r2 \<le> k then xs ! (h + (k - (n - r2) + b)) else xs ! (h + k)))"
proof -
  have "0 + r1 \<le> b - r1" "b - r1 + r1 \<le> n" using r by linarith+
  then obtain ys where ys: "multi_SWAP h n xs 0 (b - r1) r1 = Some ys" "rearr h n xs ys" "exchanged h n 0 (b - r1) r1 xs ys"
    using multi_SWAP_exchanged [OF _ _ l] by blast
  have "h + n \<le> length ys" "n - r2 + r2 \<le> n" using l rearr_length [OF ys(2)] r(3) by simp_all
  then obtain zs where zs: "multi_SWAP h n ys b (n - r2) r2 = Some zs" "rearr h n ys zs" "exchanged h n b (n - r2) r2 ys zs"
    using multi_SWAP_exchanged [of b r2 "n - r2" n h ys] r(2) by blast
  note Y = exchanged_nth [OF ys(3)] and Z = exchanged_nth [OF zs(3)]
  have low: "zs ! (h + k) = (if k < r1 then xs ! (h + (k + (b - r1)))
      else if b - r1 \<le> k then xs ! (h + (k - (b - r1))) else xs ! (h + k))" if "k < b" for k
  proof -
    have k: "k < n" "\<not> n - r2 \<le> k" "\<not> b \<le> k" using that r by linarith+
    then show ?thesis using Z [OF k(1)] Y [OF k(1)] that r(1) by simp
  qed
  have y: "ys ! (h + k) = xs ! (h + k)" if "b \<le> k" "k < n" for k
    using Y [OF that(2)] r(1) that by simp
  have high: "zs ! (h + k) = (if k < b + r2 then xs ! (h + (k - b + (n - r2)))
      else if n - r2 \<le> k then xs ! (h + (k - (n - r2) + b)) else xs ! (h + k))" if "b \<le> k" "k < n" for k
  proof -
    have "b \<le> k - b + (n - r2)" "k - (n - r2) + b < n" using that r by linarith+
    then show ?thesis
      using Z [OF that(2)] that y [of k] y [of "k - b + (n - r2)"] y [of "k - (n - r2) + b"] r(2)
      by (cases "k < b + r2"; cases "n - r2 \<le> k") simp_all
  qed
  show ?thesis
    by (intro exI conjI allI impI) (rule ys(1) zs(1) rearr_trans [OF ys(2) zs(2)] low high; assumption)+
qed

lemma part_middle:
  assumes p: "part h n p xs a b c d" and b: "c < b"
  shows "\<exists>ys zs. multi_SWAP h n xs 0 (b - min a (b - a)) (min a (b - a)) = Some ys \<and>
    multi_SWAP h n ys b (n - min (d - c) (n - d - 1)) (min (d - c) (n - d - 1)) = Some zs \<and>
    rearr h n xs zs \<and> parted h n p zs (b - a) (d - c)"
proof -
  note P = partD [OF p]
  define r1 r2 where r: "r1 = min a (b - a)" "r2 = min (d - c) (n - d - 1)"
  have bc: "b = c + 1" using b P(4) by simp
  have r1: "r1 = a \<and> a \<le> b - a \<or> r1 = b - a \<and> b - a \<le> a" using r by auto
  have r2: "r2 = d - c \<and> d - c \<le> n - d - 1 \<or> r2 = n - d - 1 \<and> n - d - 1 \<le> d - c" using r by auto
  have bnd: "r1 + r1 \<le> b" "b + r2 \<le> n - r2" "r2 \<le> n" using r1 r2 P(2-6) bc by linarith+
  from rows_moved [OF bnd P(1)] obtain ys zs where
    zs: "multi_SWAP h n xs 0 (b - r1) r1 = Some ys" "multi_SWAP h n ys b (n - r2) r2 = Some zs" "rearr h n xs zs"
    and lh: "\<forall>k<b. zs ! (h + k) = (if k < r1 then xs ! (h + (k + (b - r1)))
       else if b - r1 \<le> k then xs ! (h + (k - (b - r1))) else xs ! (h + k))"
      "\<forall>k. b \<le> k \<longrightarrow> k < n \<longrightarrow> zs ! (h + k) = (if k < b + r2 then xs ! (h + (k - b + (n - r2)))
       else if n - r2 \<le> k then xs ! (h + (k - (n - r2) + b)) else xs ! (h + k))"
    by (elim exE conjE)
  note low = lh(1) [rule_format] and high = lh(2) [rule_format]
  have "\<not> LE p (key zs (h + i))" if "i < b - a" for i
  proof (cases "i < r1")
    case True
    then have "a \<le> i + (b - r1)" "i + (b - r1) < b" "i < b" using r1 that by linarith+
    then show ?thesis using low [of i] P(9) [of "i + (b - r1)"] True by simp
  next
    case False
    then have "a \<le> i" "i < b" "\<not> b - r1 \<le> i" using r1 that by linarith+
    then show ?thesis using low [of i] P(9) [of i] False by simp
  qed
  moreover have "EQ (key zs (h + i)) p" if "b - a \<le> i" "i < b" for i
  proof (cases "b - r1 \<le> i")
    case True
    then have "i - (b - r1) < a" "\<not> i < r1" using r1 that bnd by linarith+
    then show ?thesis using low [of i] P(8) [of "i - (b - r1)"] True that by simp
  next
    case False
    then have "i < a" "\<not> i < r1" using r1 that by linarith+
    then show ?thesis using low [of i] P(8) [of i] False that by simp
  qed
  moreover have "EQ (key zs (h + i)) p" if "b \<le> i" "i < n - (d - c)" for i
  proof (cases "i < b + r2")
    case True
    then have "d < i - b + (n - r2)" "i - b + (n - r2) < n" "i < n" using r2 that bnd P(5,6) bc by linarith+
    then show ?thesis using high [of i] P(11) [of "i - b + (n - r2)"] True that by simp
  next
    case False
    then have "d < i" "i < n" "\<not> n - r2 \<le> i" using r2 that P(5,6) bc by linarith+
    then show ?thesis using high [of i] P(11) [of i] False that by simp
  qed
  moreover have "\<not> LE (key zs (h + i)) p" if "n - (d - c) \<le> i" "i < n" for i
  proof (cases "n - r2 \<le> i")
    case True
    then have "c < i - (n - r2) + b" "i - (n - r2) + b \<le> d" "b \<le> i" "\<not> i < b + r2" using r2 that bnd P(5,6) bc by linarith+
    then show ?thesis using high [of i] P(10) [of "i - (n - r2) + b"] True that by simp
  next
    case False
    then have "c < i" "i \<le> d" "b \<le> i" "\<not> i < b + r2" using r2 that bnd P(5,6) bc by linarith+
    then show ?thesis using high [of i] P(10) [of i] False that by simp
  qed
  moreover have "b - a + (d - c) < n" using P(2-6) bc by linarith
  ultimately have "parted h n p zs (b - a) (d - c)"
    using P(1) rearr_length [OF zs(3)] not_less by (simp add: parted_def) blast
  then show ?thesis using zs r by auto
qed

lemma parted_low:
  assumes p: "parted h n p xs l g" and r: "rearr h l xs ys"
  shows "parted h n p ys l g" "sorted_in (h + (n - g)) g xs \<Longrightarrow> sorted_in (h + (n - g)) g ys"
proof -
  have len: "h + l \<le> length xs" "length ys = length xs" "l \<le> n - g" using p rearr_length [OF r] by (auto simp: parted_def)
  have "\<forall>i<l. \<not> LE p (key xs (h + i))" using p by (simp add: parted_def)
  then have low: "\<forall>i<l. \<not> LE p (key ys (h + i))"
    using rearr_all [OF r len(1), of "\<lambda>x. \<not> LE p (fst x)"] by blast
  have out: "ys ! (h + i) = xs ! (h + i)" if "l \<le> i" for i using rearr_outside [OF r] that by simp
  then show "parted h n p ys l g" using p low len by (simp add: parted_def)
  have "ys ! (h + (n - g) + i) = xs ! (h + (n - g) + i)" for i using rearr_outside [OF r] len(3) by simp
  then show "sorted_in (h + (n - g)) g xs \<Longrightarrow> sorted_in (h + (n - g)) g ys" by (simp add: sorted_in_def)
qed

lemma parted_high:
  assumes p: "parted h n p xs l g" and r: "rearr (h + (n - g)) g xs ys"
  shows "parted h n p ys l g" "sorted_in h l xs \<Longrightarrow> sorted_in h l ys"
proof -
  have len: "h + (n - g) + g \<le> length xs" "length ys = length xs" "n - g + g = n" "l \<le> n - g"
    using p rearr_length [OF r] by (auto simp: parted_def)
  have "\<forall>i. n - g \<le> i \<longrightarrow> i < n \<longrightarrow> \<not> LE (key xs (h + i)) p" using p by (simp add: parted_def)
  then have high: "\<forall>i. n - g \<le> i \<longrightarrow> i < n \<longrightarrow> \<not> LE (key ys (h + i)) p"
    using rearr_all_from [OF r len(1), of "\<lambda>x. \<not> LE (fst x) p"] len(3) by simp
  have out: "ys ! (h + i) = xs ! (h + i)" if "i < n - g" for i
    by (rule rearr_outside [OF r]) (use that in linarith)
  then show "parted h n p ys l g" using p high len by (simp add: parted_def)
  show "sorted_in h l xs \<Longrightarrow> sorted_in h l ys" using out len(4) by (simp add: sorted_in_def)
qed

lemma parted_sorted:
  assumes p: "parted h n p xs l g" and s: "sorted_in h l xs" "sorted_in (h + (n - g)) g xs"
  shows "sorted_in h n xs"
  unfolding sorted_in_def
proof (intro allI impI)
  fix i j assume ij: "i < j" "j < n"
  note P = p [unfolded parted_def EQ_LE]
  have tot: "\<not> LE x y \<Longrightarrow> LE y x" for x y using LE_total by blast
  have below: "LE (key xs (h + k)) p" if "k < n - g" for k
    using P that tot [of p "key xs (h + k)"] by (cases "k < l") auto
  have above: "LE p (key xs (h + k))" if "l \<le> k" "k < n" for k
    using P that tot [of "key xs (h + k)" p] by (cases "k < n - g") auto
  consider "j < l" | "n - g \<le> i" | "i < n - g" "l \<le> j" by linarith
  then show "LE (key xs (h + i)) (key xs (h + j))"
  proof cases
    case 2
    then have "i - (n - g) < j - (n - g)" "j - (n - g) < g" "h + (n - g) + (i - (n - g)) = h + i" "h + (n - g) + (j - (n - g)) = h + j"
      using ij by auto
    then show ?thesis using s(2) unfolding sorted_in_def by metis
  next
    case 3
    then show ?thesis using below [of i] above [of j] ij LE_trans by blast
  qed (use s(1) ij in \<open>auto simp: sorted_in_def\<close>)
qed

lemma parted_both:
  assumes p: "parted h n p xs l g"
  shows "rearr h l xs ys \<Longrightarrow> sorted_in h l ys \<Longrightarrow> rearr (h + (n - g)) g ys zs \<Longrightarrow> sorted_in (h + (n - g)) g zs \<Longrightarrow>
      rearr h n xs zs \<and> sorted_in h n zs"
    and "rearr (h + (n - g)) g xs ys \<Longrightarrow> sorted_in (h + (n - g)) g ys \<Longrightarrow> rearr h l ys zs \<Longrightarrow> sorted_in h l zs \<Longrightarrow>
      rearr h n xs zs \<and> sorted_in h n zs"
proof -
  have l: "rearr h l us vs \<Longrightarrow> rearr h n us vs" and g: "rearr (h + (n - g)) g us vs \<Longrightarrow> rearr h n us vs" for us vs :: "('k, 'a) rows"
    using p by (auto simp: parted_def elim: rearr_weaken)
  show "rearr h n xs zs \<and> sorted_in h n zs"
    if "rearr h l xs ys" "sorted_in h l ys" "rearr (h + (n - g)) g ys zs" "sorted_in (h + (n - g)) g zs"
    using parted_sorted [OF parted_high(1) [OF parted_low(1) [OF p that(1)] that(3)] parted_high(2) [OF parted_low(1) [OF p that(1)] that(3,2)] that(4)]
      rearr_trans [OF l [OF that(1)] g [OF that(3)]] by simp
  show "rearr h n xs zs \<and> sorted_in h n zs"
    if "rearr (h + (n - g)) g xs ys" "sorted_in (h + (n - g)) g ys" "rearr h l ys zs" "sorted_in h l zs"
    using parted_sorted [OF parted_low(1) [OF parted_high(1) [OF p that(1)] that(3)] that(4) parted_low(2) [OF parted_high(1) [OF p that(1)] that(3,2)]]
      rearr_trans [OF g [OF that(1)] l [OF that(3)]] by simp
qed

lemma sort_parts:
  assumes p: "parted h n p xs l g"
    and f: "\<And>k m ys. m < n \<Longrightarrow> k + m \<le> length ys \<Longrightarrow> \<exists>zs. f k m ys = Some zs \<and> rearr k m ys zs \<and> sorted_in k m zs"
  shows "\<exists>zs. (if l < g then do { xs \<leftarrow> f h l xs; f (h + (n - g)) g xs } else do { xs \<leftarrow> f (h + (n - g)) g xs; f h l xs }) = Some zs \<and>
    rearr h n xs zs \<and> sorted_in h n zs"
proof -
  have b: "l < n" "g < n" "h + l \<le> length xs" "h + (n - g) + g \<le> length xs" using p by (auto simp: parted_def)
  show ?thesis
  proof (cases "l < g")
    case True
    obtain ys where ys: "f h l xs = Some ys" "rearr h l xs ys" "sorted_in h l ys" using f [OF b(1,3)] by (elim exE conjE)
    have "h + (n - g) + g \<le> length ys" using b(4) rearr_length [OF ys(2)] by simp
    from f [OF b(2) this] obtain zs where zs: "f (h + (n - g)) g ys = Some zs" "rearr (h + (n - g)) g ys zs" "sorted_in (h + (n - g)) g zs"
      by (elim exE conjE)
    show ?thesis using True ys(1) zs(1) parted_both(1) [OF p ys(2,3) zs(2,3)] by simp
  next
    case False
    obtain ys where ys: "f (h + (n - g)) g xs = Some ys" "rearr (h + (n - g)) g xs ys" "sorted_in (h + (n - g)) g ys"
      using f [OF b(2,4)] by (elim exE conjE)
    have "h + l \<le> length ys" using b(3) rearr_length [OF ys(2)] by simp
    from f [OF b(1) this] obtain zs where zs: "f h l ys = Some zs" "rearr h l ys zs" "sorted_in h l zs" by (elim exE conjE)
    show ?thesis using False ys(1) zs(1) parted_both(2) [OF p ys(2,3) zs(2,3)] by simp
  qed
qed

lemma partitioned:
  assumes "7 \<le> n" "h + n \<le> length xs"
  shows "\<exists>b x0 ys a b' c d s p. pivot LT h n xs = Some b \<and> (if b \<noteq> 0 then SWAP h n xs 0 b else Some xs) = Some x0 \<and>
    flag LE EQ h n x0 1 1 (n - 1) (n - 1) False = Some (ys, a, b', c, d, s) \<and> rearr h n xs ys \<and>
    part h n p ys a b' c d \<and> c < b'"
proof -
  obtain b where b: "pivot LT h n xs = Some b" "b < n" using pivot_in [OF assms] by blast
  obtain x0 where x0: "(if b \<noteq> 0 then SWAP h n xs 0 b else Some xs) = Some x0" "rearr h n xs x0"
  proof (cases "b = 0")
    case False
    then show thesis using SWAP_eq [of 0 n b h xs thesis] b(2) assms that by simp
  qed (use that in simp)
  have "part h n (key x0 h) x0 1 1 (n - 1) (n - 1)"
    using assms rearr_length [OF x0(2)] LE_total by (auto simp: part_def EQ_LE)
  from flag_spec [OF this, of False] show ?thesis
    using b(1) x0 rearr_trans by blast
qed

lemma GDKqsort_impl_sorts:
  fixes xs :: "('k, 't) rows"
  assumes "h + n \<le> length xs"
  shows "\<exists>ys. GDKqsort_impl LE LT EQ h n xs = Some ys \<and> rearr h n xs ys \<and> sorted_in h n ys"
  using assms
proof (induction n arbitrary: h xs rule: less_induct)
  case (less n)
  show ?case
  proof (cases "n < 7")
    case True
    then show ?thesis using insertion_1 [OF less.prems] GDKqsort_impl.simps [of LE LT EQ h n xs] by simp
  next
    case False
    then have "7 \<le> n" by simp
    from partitioned [OF this less.prems] obtain b x0 x1 a b1 c d s p where
      x1: "pivot LT h n xs = Some b" "(if b \<noteq> 0 then SWAP h n xs 0 b else Some xs) = Some x0"
        "flag LE EQ h n x0 1 1 (n - 1) (n - 1) False = Some (x1, a, b1, c, d, s)" "rearr h n xs x1" "part h n p x1 a b1 c d" "c < b1"
      by (elim exE conjE)
    note eq = GDKqsort_impl.simps [of LE LT EQ h n xs]
    show ?thesis
    proof (cases "\<not> s \<and> n < 1024")
      case True
      then have "GDKqsort_impl LE LT EQ h n xs = insertion LE h n x1 1" using eq False x1(1-3) by simp
      then show ?thesis
        using insertion_1 [of h n x1] less.prems rearr_length [OF x1(4)] rearr_trans [OF x1(4)] by auto
    next
      case big: False
      define f where "f k m ys = (if m > 1 then GDKqsort_impl LE LT EQ k m ys else Some ys)" for k m and ys :: "('k, 't) rows"
      obtain x2 x3 where x3: "multi_SWAP h n x1 0 (b1 - min a (b1 - a)) (min a (b1 - a)) = Some x2"
        "multi_SWAP h n x2 b1 (n - min (d - c) (n - d - 1)) (min (d - c) (n - d - 1)) = Some x3"
        "rearr h n x1 x3" "parted h n p x3 (b1 - a) (d - c)"
        using part_middle [OF x1(5,6)] by (elim exE conjE)
      have f: "\<exists>zs. f k m ys = Some zs \<and> rearr k m ys zs \<and> sorted_in k m zs" if "m < n" "k + m \<le> length ys" for k m ys
        using less.IH [OF that] by (cases "m > 1") (auto simp: sorted_in_def f_def)
      have "GDKqsort_impl LE LT EQ h n xs = (if b1 - a < d - c then do { xs \<leftarrow> f h (b1 - a) x3; f (h + (n - (d - c))) (d - c) xs }
         else do { xs \<leftarrow> f (h + (n - (d - c))) (d - c) x3; f h (b1 - a) xs })"
        using eq False x1(1-3) x3(1,2) big by (auto simp: f_def)
      with sort_parts [OF x3(4) f] rearr_trans [OF rearr_trans [OF x1(4) x3(3)]] show ?thesis by metis
    qed
  qed
qed

lemma sorted_in_wrt:
  "h + n \<le> length xs \<Longrightarrow> sorted_in h n xs \<longleftrightarrow> sorted_wrt LE (map fst (take n (drop h xs)))"
  by (auto simp: sorted_in_def sorted_wrt_iff_nth_less)

lemma sorts_prefix:
  assumes "n \<le> length xs"
  shows "\<exists>ys. GDKqsort_impl LE LT EQ 0 n xs = Some ys \<and> mset (take n ys) = mset (take n xs) \<and>
    drop n ys = drop n xs \<and> sorted_wrt LE (map fst (take n ys))"
proof -
  obtain ys where ys: "GDKqsort_impl LE LT EQ 0 n xs = Some ys" "rearr 0 n xs ys" "sorted_in 0 n ys"
    using GDKqsort_impl_sorts [of 0 n xs] assms by auto
  have "drop n ys = drop n xs"
    using rearr_outside [OF ys(2)] rearr_length [OF ys(2)] assms by (intro nth_equalityI) auto
  then show ?thesis
    using ys rearr_section [OF ys(2)] rearr_length [OF ys(2)] assms sorted_in_wrt [of 0 n ys] by simp
qed

end

interpretation qint: qsort_order "(\<le>) :: int \<Rightarrow> int \<Rightarrow> bool" "(<)" "(=)"
  by unfold_locales auto

interpretation qint_rev: qsort_order "(\<ge>) :: int \<Rightarrow> int \<Rightarrow> bool" "(>)" "(=)"
  by unfold_locales auto

sublocale atom_order < qany: qsort_order "\<lambda>x y. cmp x y \<le> 0" "\<lambda>x y. cmp x y < 0" "\<lambda>x y. cmp x y = 0"
proof unfold_locales
  show "cmp x y \<le> 0 \<or> cmp y x \<le> 0" for x y using cmp_le_swap [of x y] by linarith
  show "(cmp x y = 0) = (cmp x y \<le> 0 \<and> cmp y x \<le> 0)" for x y using cmp_le_swap [of y x] by linarith
qed (rule cmp_trans)

sublocale atom_order < qany_rev: qsort_order "\<lambda>x y. cmp x y \<ge> 0" "\<lambda>x y. cmp x y > 0" "\<lambda>x y. cmp x y = 0"
proof unfold_locales
  show "cmp x y \<ge> 0 \<or> cmp y x \<ge> 0" for x y using cmp_le_swap [of x y] by linarith
  show "(cmp x y = 0) = (cmp x y \<ge> 0 \<and> cmp y x \<ge> 0)" for x y using cmp_le_swap [of x y] by linarith
  show "cmp x z \<ge> 0" if "cmp x y \<ge> 0" "cmp y z \<ge> 0" for x y z
    using that cmp_trans [of z y x] cmp_le_swap by simp
qed

text \<open>String entries are compared by the strings the heap holds for them.\<close>

interpretation heap_str: atom_order "\<lambda>x y. strCmp (val x) (val y)" for val :: "int \<Rightarrow> string"
  by unfold_locales (use str.cmp_swap str.cmp_trans in blast)+

subsection \<open>Properties\<close>

lemma qsort_rows:
  assumes "n \<le> length xs" "tpe \<noteq> TYPE_other"
  shows "\<exists>ys. GDKqsort tpe False False cmp xs n = Some ys \<and> mset (take n ys) = mset (take n xs) \<and>
      drop n ys = drop n xs \<and> sorted_wrt (\<le>) (map fst (take n ys))"
  using qint.sorts_prefix [OF assms(1)] assms(2) by (cases tpe) (simp_all add: ATOMstorage_def GDKqsort_def GDKqsort_impl_int_def)

lemma qsort_rows_rev:
  assumes "n \<le> length xs" "tpe \<noteq> TYPE_other"
  shows "\<exists>ys. GDKqsort_rev tpe False False cmp xs n = Some ys \<and> mset (take n ys) = mset (take n xs) \<and>
      drop n ys = drop n xs \<and> sorted_wrt (\<ge>) (map fst (take n ys))"
  using qint_rev.sorts_prefix [OF assms(1)] assms(2)
  by (cases tpe) (simp_all add: ATOMstorage_def GDKqsort_rev_def GDKqsort_impl_int_rev_def)

text \<open>
  C7.  Sorting the first \<open>n\<close> rows by an integer column returns, touches no other row, permutes
  the rows as units, and leaves the column ascending, respectively descending for the
  reverse sort, whatever the storage type.
\<close>

theorem GDKqsort_integers:
  assumes "n \<le> length xs" "tpe \<noteq> TYPE_other"
  shows "(\<exists>ys. GDKqsort tpe False False cmp xs n = Some ys \<and> mset (take n ys) = mset (take n xs) \<and>
      drop n ys = drop n xs \<and> sorted_wrt (\<le>) (map fst (take n ys))) \<and>
    (\<exists>ys. GDKqsort_rev tpe False False cmp xs n = Some ys \<and> mset (take n ys) = mset (take n xs) \<and>
      drop n ys = drop n xs \<and> sorted_wrt (\<ge>) (map fst (take n ys)))"
  using qsort_rows [OF assms] qsort_rows_rev [OF assms] by blast

theorem GDKqsort_integers_witness:
  "\<exists>ys. GDKqsort TYPE_int False False simple_CMP [(9, ''a''), (3, ''b''), (5, ''c'')] 3 = Some ys \<and>
    mset ys = {#(9, ''a''), (3, ''b''), (5, ''c'')#} \<and> sorted_wrt (\<le>) (map fst ys)"
proof -
  obtain ys where "GDKqsort TYPE_int False False simple_CMP [(9, ''a''), (3, ''b''), (5, ''c'')] 3 = Some ys"
    "mset (take 3 ys) = {#(9, ''a''), (3, ''b''), (5, ''c'')#}" "drop 3 ys = []" "sorted_wrt (\<le>) (map fst (take 3 ys))"
    using GDKqsort_integers [of 3 "[(9, ''a''), (3, ''b''), (5, ''c'')]" TYPE_int simple_CMP] by auto
  then show ?thesis by simp
qed

text \<open>
  C34.  Sorting string entries through a heap orders the strings they denote by \<^verbatim>\<open>strCmp\<close>, nil
  first, and again only permutes the first \<open>n\<close> rows; so does the reverse sort, nil last.
\<close>

theorem GDKqsort_strings:
  assumes "n \<le> length xs"
  shows "(\<exists>ys. GDKqsort tpe True base (\<lambda>x y. strCmp (val x) (val y)) xs n = Some ys \<and>
      mset (take n ys) = mset (take n xs) \<and> drop n ys = drop n xs \<and>
      sorted_wrt (\<lambda>x y. strCmp x y \<le> 0) (map (val \<circ> fst) (take n ys))) \<and>
    (\<exists>ys. GDKqsort_rev tpe True base (\<lambda>x y. strCmp (val x) (val y)) xs n = Some ys \<and>
      mset (take n ys) = mset (take n xs) \<and> drop n ys = drop n xs \<and>
      sorted_wrt (\<lambda>x y. strCmp x y \<ge> 0) (map (val \<circ> fst) (take n ys)))"
  using heap_str.qany.sorts_prefix [OF assms, of val] heap_str.qany_rev.sorts_prefix [OF assms, of val]
  by (simp add: GDKqsort_def GDKqsort_rev_def GDKqsort_impl_any_def GDKqsort_impl_any_rev_def sorted_wrt_map o_def)

theorem GDKqsort_strings_witness:
  "\<exists>ys. GDKqsort TYPE_other True True (\<lambda>x y. strCmp ([''pear'', ''fig''] ! nat x) ([''pear'', ''fig''] ! nat y))
      [(0, 7::int), (1, 8)] 2 = Some ys \<and> mset ys = {#(0, 7), (1, 8)#} \<and>
    sorted_wrt (\<lambda>x y. strCmp x y \<le> 0) (map (\<lambda>r. [''pear'', ''fig''] ! nat (fst r)) ys)"
proof -
  obtain ys where "GDKqsort TYPE_other True True (\<lambda>x y. strCmp ([''pear'', ''fig''] ! nat x) ([''pear'', ''fig''] ! nat y))
      [(0, 7::int), (1, 8)] 2 = Some ys" "mset (take 2 ys) = {#(0, 7), (1, 8)#}" "drop 2 ys = []"
    "sorted_wrt (\<lambda>x y. strCmp x y \<le> 0) (map ((\<lambda>x. [''pear'', ''fig''] ! nat x) \<circ> fst) (take 2 ys))"
    using GDKqsort_strings [of 2 "[(0, 7::int), (1, 8)]" TYPE_other True "\<lambda>x. [''pear'', ''fig''] ! nat x"] by auto
  then show ?thesis by (simp add: o_def)
qed

end
