(* ===== verification/Sql_List_Sort.thy ===== *)
theory Sql_List_Sort
  imports Sql_List_Rep Gdk_Qsort
begin

text \<open>
  Sorting a list by integer keys (\<^verbatim>\<open>list_keysort\<close> and \<^verbatim>\<open>list_sort\<close> of \<^verbatim>\<open>sql/common/sql_list.c\<close>), which
  calls the quicksort of the kernel on an array of keys and an array of positions.  The array of
  keys, which \<^verbatim>\<open>list_keysort\<close> leaves sorted at its caller, is not part of the result.
\<close>

text \<open>Walking \<open>k\<close> nodes from the head; \<^const>\<open>None\<close> when the list ends before.\<close>

primrec node_at :: "'d store \<Rightarrow> nat option \<Rightarrow> nat \<Rightarrow> nat option" where
  "node_at st p 0 = p"
| "node_at st p (Suc k) = do { a \<leftarrow> p; nd \<leftarrow> nodes st a; node_at st (nxt nd) k }"

fun append_at :: "('d option \<Rightarrow> 'd option) option \<Rightarrow> 'd sql_list \<Rightarrow> 'd store \<Rightarrow> 'd sql_list \<Rightarrow> nat list \<Rightarrow> ('d store \<times> 'd sql_list) option" where
  "append_at dup l st res [] = Some (st, res)"
| "append_at dup l st res (i # pos) = do {
     a \<leftarrow> node_at st (lh l) i;
     nd \<leftarrow> nodes st a;
     (st, res) \<leftarrow> list_append st res (dup_of dup (data nd));
     append_at dup l st res pos
   }"

text \<open>What both functions do once \<^verbatim>\<open>keys\<close> and \<^verbatim>\<open>pos\<close> are filled.\<close>

definition sorted_copy :: "('d option \<Rightarrow> 'd option) option \<Rightarrow> 'd store \<Rightarrow> 'd sql_list \<Rightarrow> int list \<Rightarrow> nat list \<Rightarrow> ('d store \<times> 'd sql_list) option" where
  "sorted_copy dup st l keys pos = do {
     let cnt = nat (list_length (Some l));
     rows \<leftarrow> GDKqsort_rev TYPE_int False False simple_CMP (zip keys pos) cnt;
     append_at dup l st (list_new_like l) (map snd (take cnt rows))
   }"

definition list_keysort :: "'d store \<Rightarrow> 'd sql_list \<Rightarrow> int list \<Rightarrow> ('d option \<Rightarrow> 'd option) option \<Rightarrow> ('d store \<times> 'd sql_list) option" where
  "list_keysort st l keys dup = do {
     as \<leftarrow> list_walk st (lh l);
     sorted_copy dup st l keys [0..<length as]
   }"

definition list_sort :: "'d store \<Rightarrow> 'd sql_list \<Rightarrow> ('d option \<Rightarrow> int) \<Rightarrow> ('d option \<Rightarrow> 'd option) option \<Rightarrow> ('d store \<times> 'd sql_list) option" where
  "list_sort st l key dup = do {
     ds \<leftarrow> list_data st l;
     sorted_copy dup st l (map key ds) [0..<length ds]
   }"

subsection \<open>Copying by position\<close>

lemma node_at_seg: "seg (nodes st) p as None \<Longrightarrow> k < length as \<Longrightarrow> node_at st p k = Some (as ! k)"
  by (induction as arbitrary: p k) (auto simp: less_Suc_eq_0_disj)

lemma append_at_rep:
  assumes "seg (nodes st) (lh l) as None" "\<forall>a\<in>set as. a < b" "\<forall>i\<in>set pos. i < length as"
    "list_rep st res bs" "\<forall>a\<in>set bs. b \<le> a" "b \<le> brk st"
  shows "\<exists>st' res' bs'. append_at dup l st res pos = Some (st', res') \<and> list_rep st' res' bs' \<and>
    map (data_at st') bs' = map (data_at st) bs @ map (\<lambda>i. dup_of dup (data_at st (as ! i))) pos \<and>
    (\<forall>a<b. nodes st' a = nodes st a)"
  using assms
proof (induction pos arbitrary: st res bs)
  case (Cons i pos)
  have i: "i < length as" using Cons.prems(3) by simp
  have n: "node_at st (lh l) i = Some (as ! i)" using node_at_seg [OF Cons.prems(1) i] .
  obtain nd where nd: "nodes st (as ! i) = Some nd" using seg_dom [OF Cons.prems(1) nth_mem [OF i]] by blast
  then have d: "data nd = data_at st (as ! i)" by (simp add: data_at_def)
  obtain st1 res1 where s: "list_append st res (dup_of dup (data nd)) = Some (st1, res1)" "list_rep st1 res1 (bs @ [brk st])"
    "inserted st bs st1 (dup_of dup (data nd))" "map (data_at st1) (bs @ [brk st]) = map (data_at st) bs @ [dup_of dup (data nd)]"
    using list_append_rep [OF Cons.prems(4), of "dup_of dup (data nd)"] by (elim exE conjE)
  note low = inserted_low [OF s(3) Cons.prems(5,6)]
  have same: "nodes st1 a = nodes st a" if "a \<in> set as" for a using low(2) Cons.prems(2) that by blast
  have "seg (nodes st1) (lh l) as None" using Cons.prems(1) same by (subst seg_frame) auto
  moreover have "\<forall>a\<in>set (bs @ [brk st]). b \<le> a" "\<forall>i\<in>set pos. i < length as" using Cons.prems(3,5,6) by simp_all
  ultimately obtain st' res' bs' where r: "append_at dup l st1 res1 pos = Some (st', res')" "list_rep st' res' bs'"
    "map (data_at st') bs' = map (data_at st1) (bs @ [brk st]) @ map (\<lambda>i. dup_of dup (data_at st1 (as ! i))) pos"
    "\<forall>a<b. nodes st' a = nodes st1 a"
    using Cons.IH [OF _ Cons.prems(2) _ s(2) _ low(1)] by blast
  have "data_at st1 (as ! j) = data_at st (as ! j)" if "j \<in> set pos" for j
    using same [of "as ! j"] Cons.prems(3) that by (simp add: data_at_def)
  then have "map (data_at st') bs' = map (data_at st) bs @ map (\<lambda>i. dup_of dup (data_at st (as ! i))) (i # pos)"
    unfolding r(3) s(4) by (simp add: d)
  moreover have "append_at dup l st res (i # pos) = Some (st', res')" using n nd s(1) r(1) by simp
  ultimately show ?case using r(2,4) low(2) by (intro exI [of _ st'] exI [of _ res'] exI [of _ bs']) simp
qed auto

lemma sorted_copy_rep:
  assumes rep: "list_rep st l as" and len: "length keys = length as"
  shows "\<exists>st' res bs pos. sorted_copy dup st l keys [0..<length as] = Some (st', res) \<and> list_rep st' res bs \<and>
    mset pos = mset [0..<length as] \<and> sorted_wrt (\<ge>) (map ((!) keys) pos) \<and>
    map (data_at st') bs = map (\<lambda>i. dup_of dup (data_at st (as ! i))) pos \<and> (\<forall>a<brk st. nodes st' a = nodes st a)"
proof -
  let ?n = "length as" and ?rows = "zip keys [0..<length as]"
  have cnt: "nat (list_length (Some l)) = ?n" using rep by (simp add: list_rep_def list_length_def)
  obtain ys where ys: "GDKqsort_rev TYPE_int False False simple_CMP ?rows ?n = Some ys"
    "mset (take ?n ys) = mset (take ?n ?rows)" "sorted_wrt (\<ge>) (map fst (take ?n ys))"
    using qsort_rows_rev [of ?n ?rows] len by auto
  define pos where "pos = map snd (take ?n ys)"
  have m: "mset (take ?n ys) = mset ?rows" using ys(2) len by simp
  then have "set (take ?n ys) = set ?rows" by (rule mset_eq_setD)
  then have fst: "fst r = keys ! snd r" if "r \<in> set (take ?n ys)" for r
    using that by (auto simp: set_zip)
  have "image_mset snd (mset (take ?n ys)) = image_mset snd (mset ?rows)" using m by simp
  then have pos: "mset pos = mset [0..<?n]" using len by (simp add: pos_def flip: mset_map)
  have "map ((!) keys) pos = map fst (take ?n ys)" using fst by (simp add: pos_def)
  then have sorted: "sorted_wrt (\<ge>) (map ((!) keys) pos)" using ys(3) by simp
  have sg: "seg (nodes st) (lh l) as None" using rep by (simp add: list_rep_def)
  have "set pos = {0..<?n}" using mset_eq_setD [OF pos] by simp
  moreover have "list_rep st (list_new_like l) []" using rep by (intro list_new_like_rep) (simp add: list_rep_def)
  moreover have "\<forall>a\<in>set as. a < brk st" using rep seg_dom unfolding list_rep_def by metis
  ultimately obtain st' res bs where "append_at dup l st (list_new_like l) pos = Some (st', res)" "list_rep st' res bs"
    "map (data_at st') bs = map (\<lambda>i. dup_of dup (data_at st (as ! i))) pos" "\<forall>a<brk st. nodes st' a = nodes st a"
    using append_at_rep [of st l as "brk st" pos "list_new_like l" "[]" dup] sg by auto
  then show ?thesis using pos sorted ys(1) cnt by (intro exI [of _ st'] exI [of _ res] exI [of _ bs] exI [of _ pos]) (simp add: sorted_copy_def pos_def)
qed

subsection \<open>Properties\<close>

text \<open>
  C35.  Sorting a list returns, for any key function, a new well-formed list that holds the
  data of the old one, each passed through \<^verbatim>\<open>dup\<close>, in an order in which the keys descend;
  the nodes that were in the store before are unchanged.
\<close>

theorem list_sort_sorted:
  assumes "list_rep st l as"
  shows "\<exists>st' res bs ds. list_sort st l key dup = Some (st', res) \<and> list_rep st' res bs \<and>
    list_data st' res = Some (map (dup_of dup) ds) \<and> mset ds = mset (map (data_at st) as) \<and>
    sorted_wrt (\<ge>) (map key ds) \<and> (\<forall>a<brk st. nodes st' a = nodes st a)"
proof -
  let ?D = "map (data_at st) as"
  have "length (map key ?D) = length as" by simp
  from sorted_copy_rep [OF assms this, of dup] obtain st' res bs pos where
    r: "sorted_copy dup st l (map key ?D) [0..<length as] = Some (st', res)" "list_rep st' res bs"
      "mset pos = mset [0..<length as]" "sorted_wrt (\<ge>) (map ((!) (map key ?D)) pos)"
      "map (data_at st') bs = map (\<lambda>i. dup_of dup (data_at st (as ! i))) pos" "\<forall>a<brk st. nodes st' a = nodes st a"
    by (elim exE conjE)
  define ds where "ds = map ((!) ?D) pos"
  have in_range: "\<forall>i\<in>set pos. i < length as" using mset_eq_setD [OF r(3)] by simp
  have "mset ds = image_mset ((!) ?D) (mset [0..<length as])" using r(3) by (simp add: ds_def)
  also have "\<dots> = mset ?D" by (metis mset_map map_nth length_map)
  finally have "mset ds = mset ?D" .
  moreover have "map key ds = map ((!) (map key ?D)) pos" using in_range by (simp add: ds_def)
  moreover have "list_data st' res = Some (map (dup_of dup) ds)"
    using list_data_rep [OF r(2)] r(5) in_range by (simp add: ds_def)
  moreover have "list_sort st l key dup = Some (st', res)"
    using r(1) list_data_rep [OF assms] by (simp add: list_sort_def)
  ultimately show ?thesis using r(2,4,6) by metis
qed

theorem list_sort_sorted_witness:
  "\<exists>st' res ds. list_sort store_12 list_12 (\<lambda>d. int (the d)) None = Some (st', res) \<and>
     list_data st' res = Some ds \<and> mset ds = {#Some 10, Some 20#} \<and> sorted_wrt (\<ge>) (map (\<lambda>d. int (the d)) ds)"
proof -
  obtain st' res bs ds where "list_sort store_12 list_12 (\<lambda>d. int (the d)) None = Some (st', res)"
    "list_data st' res = Some (map (dup_of None) ds)" "mset ds = mset (map (data_at store_12) [0, 1])"
    "sorted_wrt (\<ge>) (map (\<lambda>d. int (the d)) ds)"
    using list_sort_sorted [OF rep_12, of "\<lambda>d. int (the d)" None] by (elim exE conjE)
  moreover have "map (dup_of None) ds = ds" by (simp add: dup_of_None map_idI)
  ultimately show ?thesis unfolding data_12 by auto
qed

end
