(* ===== verification/Sql_String.thy ===== *)
theory Sql_String
  imports Prelude "HOL-Library.Char_ord"
begin

unbundle bit_operations_syntax

text \<open>
  The string functions of the SQL layer (\<^verbatim>\<open>sql/common/sql_string.c\<close>): case conversion, quoting and
  unquoting.  A string is the text before the terminating NUL; a function that overwrites its
  argument returns the new text.  Access outside the buffer is the result \<^const>\<open>None\<close>.
\<close>

subsection \<open>Case and concatenation\<close>

text \<open>\<^verbatim>\<open>tolower\<close> and \<^verbatim>\<open>toupper\<close> in the C locale.\<close>

definition tolower :: "char \<Rightarrow> char" where
  "tolower c = (if CHR ''A'' \<le> c \<and> c \<le> CHR ''Z'' then char_of (of_char c + 32 :: nat) else c)"

definition toupper :: "char \<Rightarrow> char" where
  "toupper c = (if CHR ''a'' \<le> c \<and> c \<le> CHR ''z'' then char_of (of_char c - 32 :: nat) else c)"

fun mkLower :: "string \<Rightarrow> string" where
  "mkLower [] = []"
| "mkLower (c # s) = tolower c # mkLower s"

fun mkUpper :: "string \<Rightarrow> string" where
  "mkUpper [] = []"
| "mkUpper (c # s) = toupper c # mkUpper s"

definition toLower :: "string \<Rightarrow> string" where
  "toLower s = mkLower s"

definition toUpper :: "string \<Rightarrow> string" where
  "toUpper s = mkUpper s"

definition strconcat :: "string \<Rightarrow> string \<Rightarrow> string" where
  "strconcat s1 s2 = map (\<lambda>i. s1 ! i) [0..<length s1] @ map (\<lambda>j. cget s2 j) [0..<length s2]"

text \<open>The last loop walks back over zeros; in front of the buffer it reads outside of it.\<close>

fun zeros_back :: "string \<Rightarrow> nat \<Rightarrow> nat option" where
  "zeros_back s 0 = None"
| "zeros_back s (Suc k) = (if s ! k = CHR ''0'' then zeros_back s k else Some (Suc k))"

definition strip_extra_zeros :: "string \<Rightarrow> string option" where
  "strip_extra_zeros s =
    (let res = dropWhile (\<lambda>c. c = CHR ''0'') (dropWhile GDKisspace s); start = length s - length res
     in map_option (\<lambda>stop. take (stop - start) res) (zeros_back s (length s)))"

subsection \<open>Escapes\<close>

definition octal :: "char \<Rightarrow> bool" where
  "octal c \<longleftrightarrow> CHR ''0'' \<le> c \<and> c \<le> CHR ''7''"

definition octal_val :: "char \<Rightarrow> int" where
  "octal_val c = of_char c AND 7"

fun sql2str_loop :: "bool \<Rightarrow> string \<Rightarrow> string" where
  "sql2str_loop escaped [] = []"
| "sql2str_loop escaped (c # s) =
    (if escaped then
       if c = CHR ''n'' then CHR 0x0A # sql2str_loop False s
       else if c = CHR ''t'' then CHR 0x09 # sql2str_loop False s
       else if octal c \<and> octal (cget s 0) \<and> octal (cget s 1) then
         char_of (octal_val (cget s 1) OR push_bit 3 (octal_val (cget s 0)) OR push_bit 6 (octal_val c))
         # sql2str_loop False (drop 2 s)
       else c # sql2str_loop False s
     else if c = CHR 0x5C then sql2str_loop True s
     else c # sql2str_loop False s)"

definition str_nil :: string where "str_nil = [CHR 0x80]"

definition sql2str :: "string \<Rightarrow> string" where
  "sql2str s =
    (if s = str_nil then s
     else if CHR 0x5C \<notin> set s then s
     else sql2str_loop False s)"

definition sql_strdup :: "string \<Rightarrow> string option" where
  "sql_strdup s = (if length s < 2 then None else Some (take (length s - 2) (drop 1 s)))"

fun sql_escape_str :: "string \<Rightarrow> string" where
  "sql_escape_str [] = []"
| "sql_escape_str (c # s) =
    (if c = CHR 0x27 \<or> c = CHR 0x5C then CHR 0x5C # c # sql_escape_str s else c # sql_escape_str s)"

fun sql_escape_ident :: "string \<Rightarrow> string" where
  "sql_escape_ident [] = []"
| "sql_escape_ident (c # s) =
    (if c = CHR 0x22 \<or> c = CHR 0x5C then CHR 0x5C # c # sql_escape_ident s else c # sql_escape_ident s)"

subsection \<open>Properties\<close>

text \<open>The two escaping functions differ in the quote only.\<close>

fun escape :: "char \<Rightarrow> string \<Rightarrow> string" where
  "escape q [] = []"
| "escape q (c # s) = (if c = q \<or> c = CHR 0x5C then CHR 0x5C # c # escape q s else c # escape q s)"

lemma sql_escape_str_escape: "sql_escape_str s = escape (CHR 0x27) s"
  by (induction s) auto

lemma sql_escape_ident_escape: "sql_escape_ident s = escape (CHR 0x22) s"
  by (induction s) auto

lemma unescape_escape:
  "\<not> octal q \<Longrightarrow> q \<noteq> CHR ''n'' \<Longrightarrow> q \<noteq> CHR ''t'' \<Longrightarrow> sql2str_loop False (escape q s) = s"
  by (induction q s rule: escape.induct) (auto simp: octal_def less_eq_char_def)

lemma escape_plain: "CHR 0x5C \<notin> set (escape q s) \<Longrightarrow> escape q s = s"
  by (induction q s rule: escape.induct) (auto split: if_splits)

lemma escape_nil: "q \<noteq> CHR 0x80 \<Longrightarrow> escape q s = str_nil \<Longrightarrow> s = str_nil"
  by (cases s) (auto simp: str_nil_def split: if_splits elim: escape.elims)

lemma escape_quotes:
  "q \<noteq> CHR 0x5C \<Longrightarrow> i < length (escape q s) \<Longrightarrow> escape q s ! i = q \<Longrightarrow> 0 < i \<and> escape q s ! (i - 1) = CHR 0x5C"
proof (induction q s arbitrary: i rule: escape.induct)
  case (2 q c s)
  show ?case
  proof (cases "c = q \<or> c = CHR 0x5C")
    case True
    consider "i = 0" | "i = 1" | j where "i = Suc (Suc j)" by (cases i; cases "i - 1") auto
    then show ?thesis
      using 2 True by cases (auto split: nat.splits)
  next
    case False
    then show ?thesis using 2 by (cases i) (auto split: nat.splits)
  qed
qed simp

text \<open>
  C29.  Escaping a string or an identifier and then reading the escapes gives the text back,
  whatever bytes it holds, and in the escaped text every quote is preceded by a backslash.
\<close>

theorem sql_escape_roundtrip:
  "sql2str (sql_escape_str s) = s \<and> sql2str (sql_escape_ident s) = s \<and>
   (\<forall>i. i < length (sql_escape_str s) \<and> sql_escape_str s ! i = CHR 0x27 \<longrightarrow>
      0 < i \<and> sql_escape_str s ! (i - 1) = CHR 0x5C)"
proof (intro conjI allI impI)
  have "sql2str (escape q s) = s" if "\<not> octal q" "q \<noteq> CHR ''n''" "q \<noteq> CHR ''t''" "q \<noteq> CHR 0x80" for q
    using unescape_escape [OF that(1-3)] escape_plain [of q s] escape_nil [OF that(4)]
    by (auto simp: sql2str_def)
  then show "sql2str (sql_escape_str s) = s" "sql2str (sql_escape_ident s) = s"
    by (simp_all add: sql_escape_str_escape sql_escape_ident_escape octal_def less_eq_char_def)
  fix i assume "i < length (sql_escape_str s) \<and> sql_escape_str s ! i = CHR 0x27"
  then show "0 < i" "sql_escape_str s ! (i - 1) = CHR 0x5C"
    using escape_quotes [of "CHR 0x27" i s] by (simp_all add: sql_escape_str_escape)
qed

theorem sql_escape_roundtrip_witness:
  "sql2str (sql_escape_str [CHR 0x27, CHR 0x5C, CHR ''n'']) = [CHR 0x27, CHR 0x5C, CHR ''n''] \<and>
   sql_escape_str [CHR 0x27, CHR 0x5C, CHR ''n''] = [CHR 0x5C, CHR 0x27, CHR 0x5C, CHR 0x5C, CHR ''n'']"
  using sql_escape_roundtrip [of "[CHR 0x27, CHR 0x5C, CHR ''n'']"] by simp

end
