(* ===== verification/Gdk_Bat.thy ===== *)
theory Gdk_Bat
  imports Gdk_Atoms "HOL-Library.Monad_Syntax"
begin

text \<open>
  Columns of integers (\<^verbatim>\<open>BAT\<close> of \<^verbatim>\<open>gdk/gdk.h\<close>) with the properties the kernel keeps of them, and
  the candidate lists of the column operators (\<^verbatim>\<open>gdk/gdk_calc_private.h\<close>, \<^verbatim>\<open>gdk/gdk_calc.c\<close>).
  The head of a column is dense and starts at \<^verbatim>\<open>hseq\<close>.  The values are integers in the range of
  the type, the smallest one being nil.  Object identifiers are below \<open>2^63\<close>.
\<close>

named_theorems calc \<open>definitions of the column operators that simplification unfolds\<close>

subsection \<open>Columns\<close>

fun width :: "tpe \<Rightarrow> nat" where
  "width TYPE_bit = 8"
| "width TYPE_bte = 8"
| "width TYPE_sht = 16"
| "width TYPE_int = 32"
| "width TYPE_lng = 64"
| "width TYPE_other = 0"

abbreviation nil_of :: "tpe \<Rightarrow> int" where
  "nil_of t \<equiv> smin (width t)"

record bat =
  ttype :: tpe
  tvals :: "int list"
  hseq :: nat
  tsorted :: bool
  trevsorted :: bool
  tkey :: bool
  tnil :: bool
  tnonil :: bool
  descdirty :: bool

definition in_type :: "tpe \<Rightarrow> int \<Rightarrow> bool" where
  "in_type t v \<longleftrightarrow> smin (width t) \<le> v \<and> v \<le> smax (width t) \<and>
    (t = TYPE_bit \<longrightarrow> v \<in> {nil_of TYPE_bit, 0, 1})"

text \<open>
  The check of the recorded properties of a column, which fails an assertion when one of them does
  not hold; a failed assertion is \<^const>\<open>None\<close>.  A column that is recorded as sorted, or not as a key,
  is checked by comparing neighbours, another one by looking every value up among the earlier
  ones.  The memory for that is taken to be available.
\<close>

definition cmpprv :: "bat \<Rightarrow> bool" where
  "cmpprv b \<longleftrightarrow> tsorted b \<or> trevsorted b \<or> tkey b"

fun assert_scan :: "bat \<Rightarrow> int option \<Rightarrow> bool \<Rightarrow> bool \<Rightarrow> int list \<Rightarrow> bool option" where
  "assert_scan b prev cmpnil seennil [] = Some seennil"
| "assert_scan b prev cmpnil seennil (v # vs) =
    (if (case prev of None \<Rightarrow> False | Some u \<Rightarrow> cmpprv b \<and>
          (tsorted b \<and> u > v \<or> trevsorted b \<and> u < v \<or> tkey b \<and> u = v)) then None
     else if cmpnil \<and> tnonil b \<and> v = nil_of (ttype b) then None
     else if cmpnil \<and> v = nil_of (ttype b) then
       if cmpprv b then assert_scan b (Some v) False True vs else Some True
     else assert_scan b (Some v) cmpnil seennil vs)"

fun assert_unique :: "bat \<Rightarrow> int list \<Rightarrow> bool \<Rightarrow> int list \<Rightarrow> bool option" where
  "assert_unique b seen seennil [] = Some seennil"
| "assert_unique b seen seennil (v # vs) =
    (if v \<in> set seen \<and> tkey b then None
     else if tnonil b \<and> v = nil_of (ttype b) then None
     else assert_unique b (v # seen) (if v = nil_of (ttype b) then True else seennil) vs)"

definition BATassertHeadProps :: "bat \<Rightarrow> bool" where
  "BATassertHeadProps b =
    (if tnil b \<and> tnonil b then False
     else if \<not> tkey b \<and> \<not> tsorted b \<and> \<not> trevsorted b \<and> \<not> tnonil b \<and> \<not> tnil b then True
     else
       case (if tsorted b \<or> trevsorted b \<or> \<not> tkey b
             then assert_scan b None (tnonil b \<or> tnil b) False (tvals b)
             else assert_unique b [] False (tvals b)) of
         None \<Rightarrow> False
       | Some seennil \<Rightarrow> \<not> tnil b \<or> seennil)"

text \<open>A column has values of its C type, and its recorded properties pass the check.\<close>

definition BATassertProps :: "bat \<Rightarrow> bool" where
  "BATassertProps b \<longleftrightarrow> (\<forall>v\<in>set (tvals b). in_type (ttype b) v) \<and> BATassertHeadProps b"

lemma assert_unique_iff:
  "tkey b \<Longrightarrow> assert_unique b seen seennil vs =
    (if distinct vs \<and> set vs \<inter> set seen = {} \<and> (tnonil b \<longrightarrow> nil_of (ttype b) \<notin> set vs)
     then Some (seennil \<or> nil_of (ttype b) \<in> set vs) else None)"
  by (induction vs arbitrary: seen seennil) auto

definition ordered :: "bat \<Rightarrow> int list \<Rightarrow> bool" where
  "ordered b vs \<longleftrightarrow> (tsorted b \<longrightarrow> sorted vs) \<and> (trevsorted b \<longrightarrow> sorted_wrt (\<ge>) vs) \<and>
    (tkey b \<longrightarrow> distinct_adj vs)"

lemma ordered_Cons: "ordered b (u # v # vs) \<longleftrightarrow> \<not> (tsorted b \<and> u > v \<or> trevsorted b \<and> u < v \<or> tkey b \<and> u = v) \<and> ordered b (v # vs)"
  by (auto simp: ordered_def)

lemma assert_scan_iff:
  "assert_scan b prev cmpnil seennil vs =
    (if ordered b (case prev of None \<Rightarrow> vs | Some u \<Rightarrow> u # vs) \<and> (cmpnil \<and> tnonil b \<longrightarrow> nil_of (ttype b) \<notin> set vs)
     then Some (seennil \<or> cmpnil \<and> nil_of (ttype b) \<in> set vs) else None)"
proof (induction vs arbitrary: prev cmpnil seennil)
  case Nil
  show ?case by (cases prev) (simp_all add: ordered_def)
next
  case (Cons v vs)
  have free: "ordered b us" if "\<not> cmpprv b" for us using that by (auto simp: ordered_def cmpprv_def)
  show ?case
    by (cases prev; cases "cmpprv b") (auto simp: Cons.IH ordered_Cons free cmpprv_def split: if_splits)
qed

lemma distinct_adj_sorted:
  "sorted_wrt R vs \<Longrightarrow> distinct_adj vs \<Longrightarrow> (\<And>x y. R x y \<Longrightarrow> R y x \<Longrightarrow> x = y) \<Longrightarrow> distinct vs"
proof (induction vs)
  case (Cons v vs)
  then show ?case by (cases vs) auto
qed simp

lemma distinct_imp_adj: "distinct vs \<Longrightarrow> distinct_adj vs"
  by (induction vs) (auto simp: distinct_adj_Cons)

text \<open>What the check establishes.\<close>

lemma BATassertProps_iff:
  "BATassertProps b \<longleftrightarrow> (\<forall>v\<in>set (tvals b). in_type (ttype b) v) \<and>
    (tsorted b \<longrightarrow> sorted (tvals b)) \<and> (trevsorted b \<longrightarrow> sorted_wrt (\<ge>) (tvals b)) \<and>
    (tkey b \<longrightarrow> distinct (tvals b)) \<and>
    (tnil b \<longrightarrow> nil_of (ttype b) \<in> set (tvals b)) \<and> (tnonil b \<longrightarrow> nil_of (ttype b) \<notin> set (tvals b))"
proof -
  have up: "sorted (tvals b) \<Longrightarrow> distinct_adj (tvals b) \<Longrightarrow> distinct (tvals b)"
    by (erule distinct_adj_sorted) simp_all
  have down: "sorted_wrt (\<ge>) (tvals b) \<Longrightarrow> distinct_adj (tvals b) \<Longrightarrow> distinct (tvals b)"
    by (erule distinct_adj_sorted) simp_all
  have check: "BATassertHeadProps b \<longleftrightarrow> ordered b (tvals b) \<and>
      (tnil b \<longrightarrow> nil_of (ttype b) \<in> set (tvals b)) \<and> (tnonil b \<longrightarrow> nil_of (ttype b) \<notin> set (tvals b))"
    if "tsorted b \<or> trevsorted b \<or> \<not> tkey b"
    using that unfolding BATassertHeadProps_def if_P [OF that] assert_scan_iff
    by (cases "tnil b"; cases "tnonil b") (simp_all add: ordered_def, blast+)
  show ?thesis
  proof (cases "tsorted b \<or> trevsorted b \<or> \<not> tkey b")
    case True
    then have "ordered b (tvals b) \<longleftrightarrow> (tsorted b \<longrightarrow> sorted (tvals b)) \<and>
        (trevsorted b \<longrightarrow> sorted_wrt (\<ge>) (tvals b)) \<and> (tkey b \<longrightarrow> distinct (tvals b))"
      unfolding ordered_def using up down distinct_imp_adj [of "tvals b"] by blast
    then show ?thesis unfolding BATassertProps_def check [OF True] by blast
  next
    case False
    then show ?thesis
      unfolding BATassertProps_def BATassertHeadProps_def
      by (cases "tnil b"; cases "tnonil b") (simp_all add: assert_unique_iff)
  qed
qed

text \<open>\<^verbatim>\<open>BATnew\<close> starts with every order and no nils; the operators set the other properties.\<close>

definition BATnew :: "tpe \<Rightarrow> bat" where
  "BATnew t = \<lparr>ttype = t, tvals = [], hseq = 0, tsorted = True, trevsorted = True, tkey = False,
     tnil = False, tnonil = True, descdirty = False\<rparr>"

lemma ttype_BATnew [simp]: "ttype (BATnew t) = t"
  by (simp add: BATnew_def)

subsection \<open>Candidate lists\<close>

text \<open>A candidate list is a dense range of identifiers or an array of them.\<close>

datatype cands = Dense nat nat | Oids "nat list"

record canditer =
  cstart :: nat
  cend :: nat
  ccnt :: nat
  ccand :: "nat list option"

definition clip_start :: "nat \<Rightarrow> nat \<Rightarrow> nat \<Rightarrow> nat" where
  "clip_start seq cnt start =
    (if start \<le> seq then 0 else if start \<ge> seq + cnt then cnt else start - seq)"

definition clip_end :: "nat \<Rightarrow> nat \<Rightarrow> nat \<Rightarrow> nat" where
  "clip_end seq cnt end' =
    (if end' \<ge> seq + cnt then cnt else if end' \<le> seq then 0 else end' - seq)"

definition CANDINIT :: "nat \<Rightarrow> nat \<Rightarrow> cands option \<Rightarrow> canditer" where
  "CANDINIT seq cnt s =
    (case s of
       None \<Rightarrow> \<lparr>cstart = 0, cend = cnt, ccnt = cnt, ccand = None\<rparr>
     | Some (Dense sq n) \<Rightarrow>
         if n = 0 then \<lparr>cstart = 0, cend = 0, ccnt = cnt, ccand = None\<rparr>
         else \<lparr>cstart = clip_start seq cnt sq, cend = clip_end seq cnt (sq + n), ccnt = cnt, ccand = None\<rparr>
     | Some (Oids os) \<Rightarrow>
         if os = [] then \<lparr>cstart = 0, cend = 0, ccnt = cnt, ccand = None\<rparr>
         else \<lparr>cstart = clip_start seq cnt (hd os), cend = clip_end seq cnt (last os + 1), ccnt = cnt,
                ccand = Some os\<rparr>)"

text \<open>Subtraction of unsigned 64 bit numbers.\<close>

definition usub :: "nat \<Rightarrow> nat \<Rightarrow> nat" where
  "usub a b = (a + (2 ^ 64 - b)) mod 2 ^ 64"

text \<open>
  The loops of the operators: \<open>f k\<close> computes the value at position \<open>k\<close> and how many nils it adds,
  or fails; \<^verbatim>\<open>CHECKCAND\<close> puts nil at the positions that are not candidates and ends the loop after
  the last one.
\<close>

type_synonym cell = "(int \<times> nat) option"

function cand_loop :: "(nat \<Rightarrow> cell) \<Rightarrow> int \<Rightarrow> nat \<Rightarrow> nat \<Rightarrow> nat \<Rightarrow> nat list option \<Rightarrow> (int list \<times> nat) option" where
  "cand_loop f NIL candoff k e cand =
    (if k < e then
       (case cand of
          None \<Rightarrow> do {
            (v, n) \<leftarrow> f k;
            (vs, m) \<leftarrow> cand_loop f NIL candoff (k + 1) e None;
            Some (v # vs, n + m)
          }
        | Some [] \<Rightarrow> None
        | Some (c # cs) \<Rightarrow>
            if k < usub c candoff then do {
              (vs, m) \<leftarrow> cand_loop f NIL candoff (k + 1) e cand;
              Some (NIL # vs, 1 + m)
            } else do {
              (v, n) \<leftarrow> f k;
              (vs, m) \<leftarrow> cand_loop f NIL candoff (k + 1) (if cs = [] then k + 1 else e) (Some cs);
              Some (v # vs, n + m)
            })
     else Some ([], 0))"
  by pat_completeness auto
termination
  by (relation "measure (\<lambda>(f, NIL, candoff, k, e, cand). e - k)") auto

declare cand_loop.simps [simp del]

text \<open>The whole loop with \<^verbatim>\<open>CANDLOOP\<close> before and after it: the new column and its number of nils.\<close>

definition cand_run :: "(nat \<Rightarrow> cell) \<Rightarrow> int \<Rightarrow> nat \<Rightarrow> canditer \<Rightarrow> (int list \<times> nat) option" where
  "cand_run f NIL candoff ci = do {
     (vs, nils) \<leftarrow> cand_loop f NIL candoff (cstart ci) (cend ci) (ccand ci);
     let e = cstart ci + length vs;
     Some (replicate (cstart ci) NIL @ vs @ replicate (ccnt ci - e) NIL, cstart ci + nils + (ccnt ci - e))
   }"

subsection \<open>What the loops compute\<close>

definition is_cand :: "cands option \<Rightarrow> nat \<Rightarrow> bool" where
  "is_cand s x = (case s of None \<Rightarrow> True | Some (Dense sq n) \<Rightarrow> sq \<le> x \<and> x < sq + n | Some (Oids os) \<Rightarrow> x \<in> set os)"

definition cands_ok :: "nat \<Rightarrow> cands option \<Rightarrow> bool" where
  "cands_ok seq s = (case s of Some (Oids os) \<Rightarrow> sorted_wrt (<) os \<and> (\<forall>x\<in>set os. seq \<le> x \<and> x < 2 ^ 63) | _ \<Rightarrow> True)"

fun cells :: "(nat \<Rightarrow> cell) \<Rightarrow> nat list \<Rightarrow> (int list \<times> nat) option" where
  "cells f [] = Some ([], 0)"
| "cells f (k # ks) = do { (v, n) \<leftarrow> f k; (vs, m) \<leftarrow> cells f ks; Some (v # vs, n + m) }"

definition masked :: "(nat \<Rightarrow> bool) \<Rightarrow> int \<Rightarrow> (nat \<Rightarrow> cell) \<Rightarrow> nat \<Rightarrow> cell" where
  "masked P NIL f k = (if P k then f k else Some (NIL, 1))"

lemma cells_append:
  "cells f (ks @ js) = do { (vs, n) \<leftarrow> cells f ks; (ws, m) \<leftarrow> cells f js; Some (vs @ ws, n + m) }"
  by (induction ks) (auto simp: bind_eq_Some_conv split: prod.splits option.splits bind_split)

lemma cells_cong: "(\<And>k. k \<in> set ks \<Longrightarrow> f k = g k) \<Longrightarrow> cells f ks = cells g ks"
  by (induction ks) simp_all

lemma cells_length: "cells f ks = Some (vs, n) \<Longrightarrow> length vs = length ks"
  by (induction ks arbitrary: vs n) (auto simp: bind_eq_Some_conv)

lemma cells_masked_out:
  "(\<And>k. k \<in> set ks \<Longrightarrow> \<not> P k) \<Longrightarrow> cells (masked P NIL f) ks = Some (replicate (length ks) NIL, length ks)"
  by (induction ks) (simp_all add: masked_def)

lemma cells_masked_in:
  "(\<And>k. k \<in> set ks \<Longrightarrow> P k) \<Longrightarrow> cells (masked P NIL f) ks = cells f ks"
  by (rule cells_cong) (simp add: masked_def)

lemma upt_step: "k < e \<Longrightarrow> [k..<e] = k # [k + 1..<e]"
  by (simp add: upt_rec)

lemma cand_loop_all: "cand_loop f NIL off k e None = cells f [k..<e]"
proof (induction "e - k" arbitrary: k)
  case 0
  then show ?case by (simp add: cand_loop.simps)
next
  case (Suc m)
  then have "k < e" "m = e - (k + 1)" by auto
  with Suc.hyps(1) [of "k + 1"] show ?case by (subst cand_loop.simps) (simp add: upt_step)
qed

lemma usub_eq: "b \<le> a \<Longrightarrow> a < 2 ^ 63 \<Longrightarrow> usub a b = a - b"
proof -
  assume "b \<le> a" "a < 2 ^ 63"
  then have "a + (2 ^ 64 - b) = (a - b) + 2 ^ 64" "a - b < 2 ^ 64" by simp_all
  then show ?thesis by (simp only: usub_def mod_add_self2 mod_less)
qed

lemma upt_split: "a \<le> b \<Longrightarrow> b \<le> c \<Longrightarrow> [a..<c] = [a..<b] @ [b..<c]"
  using upt_add_eq_append [of a b "c - b"] by simp

lemma strict_bounds:
  assumes "sorted_wrt (<) os" "x \<in> set os"
  shows "hd os \<le> x" "x \<le> last (os :: nat list)"
proof -
  obtain i where i: "i < length os" "x = os ! i" using assms(2) by (auto simp: in_set_conv_nth)
  then have ne: "os \<noteq> []" by auto
  show "hd os \<le> x"
    using sorted_wrt_nth_less [OF assms(1), of 0 i] i ne by (cases "i = 0") (auto simp: hd_conv_nth)
  have "i < length os - 1 \<or> i = length os - 1" using i(1) by linarith
  then show "x \<le> last os"
    using sorted_wrt_nth_less [OF assms(1), of i "length os - 1"] i ne by (auto simp: last_conv_nth)
qed

lemma cand_loop_oids:
  assumes "os \<noteq> []" "sorted_wrt (<) os" "\<forall>x\<in>set os. seq \<le> x \<and> x < 2 ^ 63" "seq + k \<le> hd os" "seq + e \<le> last os + 1"
  shows "cand_loop f NIL seq k e (Some os) = cells (masked (\<lambda>k. seq + k \<in> set os) NIL f) [k..<e]"
  using assms
proof (induction "e - k" arbitrary: k os)
  case 0
  then show ?case by (simp add: cand_loop.simps)
next
  case (Suc m)
  then have ke: "k < e" "m = e - (k + 1)" by auto
  obtain c cs where os: "os = c # cs" using Suc.prems(1) by (cases os) auto
  have u: "usub c seq = c - seq" using Suc.prems(3) os by (intro usub_eq) auto
  have c: "\<forall>x\<in>set cs. c < x" "seq \<le> c" using Suc.prems(2,3) os by auto
  show ?case
  proof (cases "k < c - seq")
    case True
    have "seq + k \<notin> set os" using True os c by auto
    moreover have "cand_loop f NIL seq (k + 1) e (Some os) = cells (masked (\<lambda>k. seq + k \<in> set os) NIL f) [k + 1..<e]"
      using Suc.hyps(1) [OF ke(2) Suc.prems(1-3)] Suc.prems(5) True os by simp
    ultimately show ?thesis
      using True ke os u by (subst cand_loop.simps) (simp add: upt_step masked_def)
  next
    case False
    then have k: "c = seq + k" using Suc.prems(4) os c(2) by simp
    define e' where "e' = (if cs = [] then k + 1 else e)"
    have e: "e' = e" using Suc.prems(5) ke os k by (cases "cs = []") (simp_all add: e'_def)
    have "cand_loop f NIL seq (k + 1) e (Some cs) = cells (masked (\<lambda>k. seq + k \<in> set os) NIL f) [k + 1..<e]"
    proof (cases "cs = []")
      case True
      then have "e = k + 1" using e by (simp add: e'_def)
      then show ?thesis by (simp add: cand_loop.simps)
    next
      case cs: False
      have "seq + (k + 1) \<le> hd cs" using c(1) cs k by (cases cs) auto
      then have "cand_loop f NIL seq (k + 1) e (Some cs) = cells (masked (\<lambda>k. seq + k \<in> set cs) NIL f) [k + 1..<e]"
        using Suc.hyps(1) [OF ke(2) cs] Suc.prems(2,3,5) os cs by simp
      also have "\<dots> = cells (masked (\<lambda>k. seq + k \<in> set os) NIL f) [k + 1..<e]"
        by (rule cells_cong) (auto simp: masked_def os k)
      finally show ?thesis .
    qed
    moreover have "masked (\<lambda>k. seq + k \<in> set os) NIL f k = f k" by (simp add: masked_def os k)
    ultimately show ?thesis
      using False ke os u e unfolding e'_def by (subst cand_loop.simps) (simp add: upt_step)
  qed
qed

lemma cand_run_split:
  assumes "cand_loop f NIL off (cstart ci) (cend ci) (ccand ci) = cells (masked P NIL f) [cstart ci..<cend ci]"
    "cstart ci \<le> cend ci" "cend ci \<le> ccnt ci" "\<And>k. k < cstart ci \<Longrightarrow> \<not> P k" "\<And>k. cend ci \<le> k \<Longrightarrow> k < ccnt ci \<Longrightarrow> \<not> P k"
  shows "cand_run f NIL off ci = cells (masked P NIL f) [0..<ccnt ci]"
proof -
  have "[0..<ccnt ci] = [0..<cstart ci] @ [cstart ci..<cend ci] @ [cend ci..<ccnt ci]"
    using assms(2,3) upt_split [of 0 "cstart ci" "ccnt ci"] upt_split [of "cstart ci" "cend ci" "ccnt ci"] by simp
  moreover have "cells (masked P NIL f) [0..<cstart ci] = Some (replicate (cstart ci) NIL, cstart ci)"
    "cells (masked P NIL f) [cend ci..<ccnt ci] = Some (replicate (ccnt ci - cend ci) NIL, ccnt ci - cend ci)"
    using assms(4,5) by (subst cells_masked_out; simp)+
  ultimately have "cells (masked P NIL f) [0..<ccnt ci] =
      do { (vs, n) \<leftarrow> cells (masked P NIL f) [cstart ci..<cend ci];
           Some (replicate (cstart ci) NIL @ vs @ replicate (ccnt ci - cend ci) NIL, cstart ci + (n + (ccnt ci - cend ci))) }"
    by (cases "cells (masked P NIL f) [cstart ci..<cend ci]") (auto simp: cells_append)
  moreover have "cstart ci + length vs = cend ci" if "cells (masked P NIL f) [cstart ci..<cend ci] = Some (vs, n)" for vs n
    using cells_length [OF that] assms(2) by simp
  ultimately show ?thesis
    unfolding cand_run_def assms(1)
    by (cases "cells (masked P NIL f) [cstart ci..<cend ci]") (auto simp: Let_def)
qed

lemma cand_run_cells:
  assumes "cands_ok seq s" "seq + cnt < 2 ^ 63"
  shows "cand_run f NIL seq (CANDINIT seq cnt s) = cells (masked (\<lambda>k. is_cand s (seq + k)) NIL f) [0..<cnt]"
proof -
  have cnt: "ccnt (CANDINIT seq cnt s) = cnt" by (auto simp: CANDINIT_def split: option.splits cands.splits)
  consider "s = None" | sq n where "s = Some (Dense sq n)" | os where "s = Some (Oids os)" by (metis cands.exhaust option.exhaust)
  then have "cand_run f NIL seq (CANDINIT seq cnt s) =
      cells (masked (\<lambda>k. is_cand s (seq + k)) NIL f) [0..<ccnt (CANDINIT seq cnt s)]"
  proof cases
    case 1
    then show ?thesis
      by (intro cand_run_split) (simp_all add: CANDINIT_def is_cand_def cand_loop_all cells_masked_in)
  next
    case 2
    then show ?thesis
      by (intro cand_run_split)
        (auto simp: CANDINIT_def is_cand_def cand_loop_all clip_start_def clip_end_def intro!: cells_masked_in [symmetric] split: if_splits)
  next
    case (3 os)
    have ok: "sorted_wrt (<) os" "\<forall>x\<in>set os. seq \<le> x \<and> x < 2 ^ 63" using assms(1) 3 by (simp_all add: cands_ok_def)
    show ?thesis
    proof (cases "os = []")
      case True
      then show ?thesis using 3 by (intro cand_run_split) (simp_all add: CANDINIT_def is_cand_def cand_loop_all)
    next
      case False
      note b = strict_bounds [OF ok(1)]
      let ?ci = "CANDINIT seq cnt s"
      have hd: "seq \<le> hd os" and hl: "hd os \<le> last os" using ok(2) b(2) False by auto
      have ci: "cstart ?ci = min (hd os - seq) cnt" "cend ?ci = min (last os + 1 - seq) cnt" "ccand ?ci = Some os"
        using 3 False hd hl by (auto simp: CANDINIT_def clip_start_def clip_end_def)
      have bnd: "seq + min (hd os - seq) cnt \<le> hd os" "seq + min (last os + 1 - seq) cnt \<le> last os + 1"
        using hd hl by linarith+
      have loop: "cand_loop f NIL seq (cstart ?ci) (cend ?ci) (ccand ?ci) =
          cells (masked (\<lambda>k. seq + k \<in> set os) NIL f) [cstart ?ci..<cend ?ci]"
        unfolding ci by (rule cand_loop_oids [OF False ok bnd])
      have mem: "is_cand s x \<longleftrightarrow> x \<in> set os" for x using 3 by (simp add: is_cand_def)
      show ?thesis
      proof (rule cand_run_split)
        show "cand_loop f NIL seq (cstart ?ci) (cend ?ci) (ccand ?ci) =
            cells (masked (\<lambda>k. is_cand s (seq + k)) NIL f) [cstart ?ci..<cend ?ci]" unfolding mem by (rule loop)
        show "cstart ?ci \<le> cend ?ci" "cend ?ci \<le> ccnt ?ci" unfolding ci cnt using hl by linarith+
        show "\<not> is_cand s (seq + k)" if "k < cstart ?ci" for k
          using that b(1) [of "seq + k"] unfolding ci mem by linarith
        show "\<not> is_cand s (seq + k)" if "cend ?ci \<le> k" "k < ccnt ?ci" for k
          using that b(2) [of "seq + k"] unfolding ci mem cnt by linarith
      qed
    qed
  qed
  then show ?thesis using cnt by simp
qed

text \<open>A loop that cannot fail, and one that counts exactly the nils.\<close>

lemma cells_total:
  "(\<And>k. k \<in> set ks \<Longrightarrow> \<exists>n. f k = Some (v k, n)) \<Longrightarrow> \<exists>n. cells f ks = Some (map v ks, n)"
  by (induction ks) fastforce+

definition nil_count :: "int \<Rightarrow> int list \<Rightarrow> nat" where
  "nil_count NIL vs = length (filter ((=) NIL) vs)"

lemma cells_nil_count:
  "(\<And>k. k \<in> set ks \<Longrightarrow> f k = Some (v k, if v k = NIL then 1 else 0)) \<Longrightarrow>
    cells f ks = Some (map v ks, nil_count NIL (map v ks))"
  by (induction ks) (auto simp: nil_count_def)

lemma nil_count_0 [simp]: "nil_count NIL vs = 0 \<longleftrightarrow> NIL \<notin> set vs"
  by (auto simp: nil_count_def filter_empty_conv)

lemma nil_count_pos [simp]: "0 < nil_count NIL vs \<longleftrightarrow> NIL \<in> set vs"
  using nil_count_0 [of NIL vs] by linarith

lemma nil_count_le: "nil_count NIL vs \<le> length vs"
  by (simp add: nil_count_def)

lemma nil_count_all: "nil_count NIL vs = length vs \<longleftrightarrow> (\<forall>v\<in>set vs. v = NIL)"
proof (induction vs)
  case (Cons v vs)
  have "nil_count NIL (v # vs) = (if v = NIL then Suc (nil_count NIL vs) else nil_count NIL vs)"
    by (auto simp: nil_count_def)
  with Cons nil_count_le [of NIL vs] show ?case by (cases "v = NIL") auto
qed (simp add: nil_count_def)

lemma sorted_const: "\<forall>v\<in>set vs. v = (NIL :: int) \<Longrightarrow> sorted vs \<and> sorted_wrt (\<ge>) vs"
  by (induction vs) auto

lemma trivially_ordered:
  assumes "length vs \<le> 1 \<or> nil_count NIL vs = length vs"
  shows "sorted vs" "sorted_wrt (\<ge>) vs"
proof -
  have "sorted vs \<and> sorted_wrt (\<ge>) vs"
    using assms
  proof
    assume "length vs \<le> 1"
    then show ?thesis by (cases vs) auto
  next
    assume "nil_count NIL vs = length vs"
    then show ?thesis using sorted_const by (simp only: nil_count_all)
  qed
  then show "sorted vs" "sorted_wrt (\<ge>) vs" by auto
qed

lemma distinct_short: "length vs \<le> 1 \<Longrightarrow> distinct vs"
  by (cases vs) auto

end
