(* ===== verification/Gdk_Calc_Unary.thy ===== *)
theory Gdk_Calc_Unary
  imports Gdk_Bat
begin

unbundle bit_operations_syntax

text \<open>
  The column operators with one argument (\<^verbatim>\<open>gdk/gdk_calc.c\<close>).  An operator returns the new column
  and the argument column, whose nil properties it may update, or fails.  Each comes with
  the operator on a single value, \<^verbatim>\<open>VARcalc...\<close>.  The floating point types are left out.
\<close>

subsection \<open>The loop\<close>

definition UNARY_2TYPE_FUNC :: "int \<Rightarrow> int \<Rightarrow> (int \<Rightarrow> int) \<Rightarrow> bat \<Rightarrow> canditer \<Rightarrow> (int list \<times> nat) option" where
  "UNARY_2TYPE_FUNC NIL1 NIL2 FUNC b ci =
    (let src = tvals b in
     cand_run
      (if tnonil b \<and> ccand ci = None then (\<lambda>i. Some (FUNC (src ! i), 0))
       else (\<lambda>i. if src ! i = NIL1 then Some (NIL2, 1) else Some (FUNC (src ! i), 0)))
      NIL2 (hseq b) ci)"

text \<open>The end of every operator: what was learnt about nils is recorded in the argument.\<close>

definition note_nils :: "nat \<Rightarrow> bat \<Rightarrow> bat" where
  "note_nils nils b =
    (let b = (if nils \<noteq> 0 \<and> \<not> tnil b then b\<lparr>tnil := True, descdirty := True\<rparr> else b)
     in if nils = 0 \<and> \<not> tnonil b then b\<lparr>tnonil := True, descdirty := True\<rparr> else b)"

abbreviation candinit :: "bat \<Rightarrow> cands option \<Rightarrow> canditer" where
  "candinit b s \<equiv> CANDINIT (hseq b) (length (tvals b)) s"

subsection \<open>Logical and bitwise not\<close>

definition BATcalcnot :: "bat \<Rightarrow> cands option \<Rightarrow> (bat \<times> bat) option" where
  "BATcalcnot b s = do {
     let ci = candinit b s;
     (dst, nils) \<leftarrow>
       (case ATOMstorage (ttype b) of
          TYPE_bte \<Rightarrow>
            if ttype b = TYPE_bit then UNARY_2TYPE_FUNC (smin 8) (smin 8) (\<lambda>x. if x = 0 then 1 else 0) b ci
            else UNARY_2TYPE_FUNC (smin 8) (smin 8) (\<lambda>x. i8 (NOT x)) b ci
        | TYPE_sht \<Rightarrow> UNARY_2TYPE_FUNC (smin 16) (smin 16) (\<lambda>x. i16 (NOT x)) b ci
        | TYPE_int \<Rightarrow> UNARY_2TYPE_FUNC (smin 32) (smin 32) (\<lambda>x. i32 (NOT x)) b ci
        | TYPE_lng \<Rightarrow> UNARY_2TYPE_FUNC (smin 64) (smin 64) (\<lambda>x. i64 (NOT x)) b ci
        | _ \<Rightarrow> None);
     Some ((BATnew (ttype b))\<lparr>tvals := dst, hseq := hseq b,
         tsorted := nils = 0 \<and> trevsorted b, trevsorted := nils = 0 \<and> tsorted b,
         tnil := nils \<noteq> 0, tnonil := nils = 0, tkey := tkey b\<rparr>,
       note_nils nils b)
   }"

definition VARcalcnot :: "tpe \<Rightarrow> int \<Rightarrow> (tpe \<times> int) option" where
  "VARcalcnot t v =
    (case ATOMstorage t of
       TYPE_bte \<Rightarrow>
         if t = TYPE_bit then Some (t, if v = smin 8 then smin 8 else if v = 0 then 1 else 0)
         else Some (t, if v = smin 8 then smin 8 else i8 (NOT v))
     | TYPE_sht \<Rightarrow> Some (t, if v = smin 16 then smin 16 else i16 (NOT v))
     | TYPE_int \<Rightarrow> Some (t, if v = smin 32 then smin 32 else i32 (NOT v))
     | TYPE_lng \<Rightarrow> Some (t, if v = smin 64 then smin 64 else i64 (NOT v))
     | _ \<Rightarrow> None)"

subsection \<open>Negation\<close>

definition BATcalcnegate :: "bat \<Rightarrow> cands option \<Rightarrow> (bat \<times> bat) option" where
  "BATcalcnegate b s = do {
     let ci = candinit b s;
     (dst, nils) \<leftarrow>
       (case ATOMstorage (ttype b) of
          TYPE_bte \<Rightarrow> UNARY_2TYPE_FUNC (smin 8) (smin 8) (\<lambda>x. i8 (- x)) b ci
        | TYPE_sht \<Rightarrow> UNARY_2TYPE_FUNC (smin 16) (smin 16) (\<lambda>x. i16 (- x)) b ci
        | TYPE_int \<Rightarrow> UNARY_2TYPE_FUNC (smin 32) (smin 32) (\<lambda>x. i32 (- x)) b ci
        | TYPE_lng \<Rightarrow> UNARY_2TYPE_FUNC (smin 64) (smin 64) (\<lambda>x. i64 (- x)) b ci
        | _ \<Rightarrow> None);
     Some ((BATnew (ttype b))\<lparr>tvals := dst, hseq := hseq b,
         tsorted := nils = 0 \<and> trevsorted b, trevsorted := nils = 0 \<and> tsorted b,
         tnil := nils \<noteq> 0, tnonil := nils = 0, tkey := tkey b\<rparr>,
       note_nils nils b)
   }"

definition VARcalcnegate :: "tpe \<Rightarrow> int \<Rightarrow> (tpe \<times> int) option" where
  "VARcalcnegate t v =
    (case ATOMstorage t of
       TYPE_bte \<Rightarrow> Some (t, if v = smin 8 then smin 8 else i8 (- v))
     | TYPE_sht \<Rightarrow> Some (t, if v = smin 16 then smin 16 else i16 (- v))
     | TYPE_int \<Rightarrow> Some (t, if v = smin 32 then smin 32 else i32 (- v))
     | TYPE_lng \<Rightarrow> Some (t, if v = smin 64 then smin 64 else i64 (- v))
     | _ \<Rightarrow> None)"

subsection \<open>Absolute value\<close>

definition ABSOLUTE :: "nat \<Rightarrow> int \<Rightarrow> int" where
  "ABSOLUTE w x = swrap w (if x < 0 then - x else x)"

definition BATcalcabsolute :: "bat \<Rightarrow> cands option \<Rightarrow> (bat \<times> bat) option" where
  "BATcalcabsolute b s = do {
     let ci = candinit b s;
     let cnt = length (tvals b);
     (dst, nils) \<leftarrow>
       (case ATOMstorage (ttype b) of
          TYPE_bte \<Rightarrow> UNARY_2TYPE_FUNC (smin 8) (smin 8) (ABSOLUTE 8) b ci
        | TYPE_sht \<Rightarrow> UNARY_2TYPE_FUNC (smin 16) (smin 16) (ABSOLUTE 16) b ci
        | TYPE_int \<Rightarrow> UNARY_2TYPE_FUNC (smin 32) (smin 32) (ABSOLUTE 32) b ci
        | TYPE_lng \<Rightarrow> UNARY_2TYPE_FUNC (smin 64) (smin 64) (ABSOLUTE 64) b ci
        | _ \<Rightarrow> None);
     Some ((BATnew (ttype b))\<lparr>tvals := dst, hseq := hseq b,
         tsorted := cnt \<le> 1 \<or> nils = cnt, trevsorted := cnt \<le> 1 \<or> nils = cnt,
         tkey := cnt \<le> 1, tnil := nils \<noteq> 0, tnonil := nils = 0\<rparr>,
       note_nils nils b)
   }"

definition VARcalcabsolute :: "tpe \<Rightarrow> int \<Rightarrow> (tpe \<times> int) option" where
  "VARcalcabsolute t v =
    (case ATOMstorage t of
       TYPE_bte \<Rightarrow> Some (t, if v = smin 8 then smin 8 else ABSOLUTE 8 v)
     | TYPE_sht \<Rightarrow> Some (t, if v = smin 16 then smin 16 else ABSOLUTE 16 v)
     | TYPE_int \<Rightarrow> Some (t, if v = smin 32 then smin 32 else ABSOLUTE 32 v)
     | TYPE_lng \<Rightarrow> Some (t, if v = smin 64 then smin 64 else ABSOLUTE 64 v)
     | _ \<Rightarrow> None)"

subsection \<open>Comparison with zero\<close>

definition ISZERO :: "int \<Rightarrow> int" where
  "ISZERO x = (if x = 0 then 1 else 0)"

definition BATcalciszero :: "bat \<Rightarrow> cands option \<Rightarrow> (bat \<times> bat) option" where
  "BATcalciszero b s = do {
     let ci = candinit b s;
     let cnt = length (tvals b);
     (dst, nils) \<leftarrow>
       (case ATOMstorage (ttype b) of
          TYPE_bte \<Rightarrow> UNARY_2TYPE_FUNC (smin 8) (smin 8) ISZERO b ci
        | TYPE_sht \<Rightarrow> UNARY_2TYPE_FUNC (smin 16) (smin 8) ISZERO b ci
        | TYPE_int \<Rightarrow> UNARY_2TYPE_FUNC (smin 32) (smin 8) ISZERO b ci
        | TYPE_lng \<Rightarrow> UNARY_2TYPE_FUNC (smin 64) (smin 8) ISZERO b ci
        | _ \<Rightarrow> None);
     Some ((BATnew TYPE_bit)\<lparr>tvals := dst, hseq := hseq b,
         tsorted := cnt \<le> 1 \<or> nils = cnt, trevsorted := cnt \<le> 1 \<or> nils = cnt,
         tkey := cnt \<le> 1, tnil := nils \<noteq> 0, tnonil := nils = 0\<rparr>,
       note_nils nils b)
   }"

definition VARcalciszero :: "tpe \<Rightarrow> int \<Rightarrow> (tpe \<times> int) option" where
  "VARcalciszero t v =
    (case ATOMstorage t of
       TYPE_bte \<Rightarrow> Some (TYPE_bit, if v = smin 8 then smin 8 else ISZERO v)
     | TYPE_sht \<Rightarrow> Some (TYPE_bit, if v = smin 16 then smin 8 else ISZERO v)
     | TYPE_int \<Rightarrow> Some (TYPE_bit, if v = smin 32 then smin 8 else ISZERO v)
     | TYPE_lng \<Rightarrow> Some (TYPE_bit, if v = smin 64 then smin 8 else ISZERO v)
     | _ \<Rightarrow> None)"

subsection \<open>Sign\<close>

definition SIGN :: "int \<Rightarrow> int" where
  "SIGN x = (if x < 0 then - 1 else if x > 0 then 1 else 0)"

text \<open>The property \<^verbatim>\<open>revsorted\<close> is combined with that of the new column, not with that of the argument.\<close>

definition BATcalcsign :: "bat \<Rightarrow> cands option \<Rightarrow> (bat \<times> bat) option" where
  "BATcalcsign b s = do {
     let ci = candinit b s;
     let cnt = length (tvals b);
     (dst, nils) \<leftarrow>
       (case ATOMstorage (ttype b) of
          TYPE_bte \<Rightarrow> UNARY_2TYPE_FUNC (smin 8) (smin 8) SIGN b ci
        | TYPE_sht \<Rightarrow> UNARY_2TYPE_FUNC (smin 16) (smin 8) SIGN b ci
        | TYPE_int \<Rightarrow> UNARY_2TYPE_FUNC (smin 32) (smin 8) SIGN b ci
        | TYPE_lng \<Rightarrow> UNARY_2TYPE_FUNC (smin 64) (smin 8) SIGN b ci
        | _ \<Rightarrow> None);
     let bn = (BATnew TYPE_bte)\<lparr>tvals := dst, hseq := hseq b\<rparr>;
     Some (bn\<lparr>
         tsorted := tsorted b \<or> cnt \<le> 1 \<or> nils = cnt,
         trevsorted := trevsorted bn \<or> cnt \<le> 1 \<or> nils = cnt,
         tkey := cnt \<le> 1, tnil := nils \<noteq> 0, tnonil := nils = 0\<rparr>,
       note_nils nils b)
   }"

definition VARcalcsign :: "tpe \<Rightarrow> int \<Rightarrow> (tpe \<times> int) option" where
  "VARcalcsign t v =
    (case ATOMstorage t of
       TYPE_bte \<Rightarrow> Some (TYPE_bte, if v = smin 8 then smin 8 else SIGN v)
     | TYPE_sht \<Rightarrow> Some (TYPE_bte, if v = smin 16 then smin 8 else SIGN v)
     | TYPE_int \<Rightarrow> Some (TYPE_bte, if v = smin 32 then smin 8 else SIGN v)
     | TYPE_lng \<Rightarrow> Some (TYPE_bte, if v = smin 64 then smin 8 else SIGN v)
     | _ \<Rightarrow> None)"

subsection \<open>Test for nil\<close>

definition BATconstant :: "tpe \<Rightarrow> int \<Rightarrow> nat \<Rightarrow> bat" where
  "BATconstant t v n =
    (let nil = n \<ge> 1 \<and> v = nil_of t
     in (BATnew t)\<lparr>tvals := replicate n v, tnil := nil, tsorted := True, trevsorted := True, tnonil := \<not> nil, tkey := n \<le> 1\<rparr>)"

definition ISNIL_TYPE :: "int \<Rightarrow> bat \<Rightarrow> nat \<Rightarrow> cell" where
  "ISNIL_TYPE NIL b i = Some (if tvals b ! i = NIL then 1 else 0, 0)"

definition BATcalcisnil :: "bat \<Rightarrow> cands option \<Rightarrow> bat option" where
  "BATcalcisnil b s =
    (let ci = candinit b s; cnt = length (tvals b)
     in if cstart ci = 0 \<and> cend ci = cnt \<and> ccand ci = None \<and> tnonil b
        then Some ((BATconstant TYPE_bit 0 cnt)\<lparr>hseq := hseq b\<rparr>)
        else do {
          (dst, nils) \<leftarrow>
            (case ATOMstorage (ttype b) of
               TYPE_bte \<Rightarrow> cand_run (ISNIL_TYPE (smin 8) b) (smin 8) (hseq b) ci
             | TYPE_sht \<Rightarrow> cand_run (ISNIL_TYPE (smin 16) b) (smin 8) (hseq b) ci
             | TYPE_int \<Rightarrow> cand_run (ISNIL_TYPE (smin 32) b) (smin 8) (hseq b) ci
             | TYPE_lng \<Rightarrow> cand_run (ISNIL_TYPE (smin 64) b) (smin 8) (hseq b) ci
             | _ \<Rightarrow> None);
          Some ((BATnew TYPE_bit)\<lparr>tvals := dst, hseq := hseq b,
            tsorted := s = None \<and> trevsorted b, trevsorted := s = None \<and> tsorted b,
            tnil := nils \<noteq> 0, tnonil := nils = 0, tkey := cnt \<le> 1\<rparr>)
        })"

definition VALisnil :: "tpe \<Rightarrow> int \<Rightarrow> bool" where
  "VALisnil t v \<longleftrightarrow> v = nil_of t"

definition VARcalcisnil :: "tpe \<Rightarrow> int \<Rightarrow> (tpe \<times> int) option" where
  "VARcalcisnil t v = Some (TYPE_bit, if VALisnil t v then 1 else 0)"

definition VARcalcisnotnil :: "tpe \<Rightarrow> int \<Rightarrow> (tpe \<times> int) option" where
  "VARcalcisnotnil t v = Some (TYPE_bit, if VALisnil t v then 0 else 1)"

subsection \<open>What the loop computes\<close>

definition unary_vals :: "cands option \<Rightarrow> int \<Rightarrow> int \<Rightarrow> (int \<Rightarrow> int) \<Rightarrow> bat \<Rightarrow> int list" where
  "unary_vals s NIL1 NIL2 F b =
    map (\<lambda>k. if is_cand s (hseq b + k) \<and> tvals b ! k \<noteq> NIL1 then F (tvals b ! k) else NIL2) [0..<length (tvals b)]"

abbreviation bat_fits :: "bat \<Rightarrow> bool" where
  "bat_fits b \<equiv> hseq b + length (tvals b) < 2 ^ 63"

lemma UNARY_vals:
  assumes "cands_ok (hseq b) s" "bat_fits b" "tnonil b \<Longrightarrow> NIL1 \<notin> set (tvals b)"
  shows "\<exists>n. UNARY_2TYPE_FUNC NIL1 NIL2 F b (candinit b s) = Some (unary_vals s NIL1 NIL2 F b, n)"
  unfolding UNARY_2TYPE_FUNC_def Let_def cand_run_cells [OF assms(1,2)] unary_vals_def
  using assms(3) by (intro cells_total) (auto simp: masked_def dest: nth_mem)

lemma UNARY_run:
  assumes "cands_ok (hseq b) s" "bat_fits b" "tnonil b \<Longrightarrow> NIL1 \<notin> set (tvals b)"
    and F: "\<And>x. x \<in> set (tvals b) \<Longrightarrow> x \<noteq> NIL1 \<Longrightarrow> F x \<noteq> NIL2"
  shows "UNARY_2TYPE_FUNC NIL1 NIL2 F b (candinit b s) =
    Some (unary_vals s NIL1 NIL2 F b, nil_count NIL2 (unary_vals s NIL1 NIL2 F b))"
proof -
  let ?f = "if tnonil b \<and> ccand (candinit b s) = None then (\<lambda>i. Some (F (tvals b ! i), 0))
     else (\<lambda>i. if tvals b ! i = NIL1 then Some (NIL2, 1) else Some (F (tvals b ! i), 0))"
  let ?v = "\<lambda>k. if is_cand s (hseq b + k) \<and> tvals b ! k \<noteq> NIL1 then F (tvals b ! k) else NIL2"
  have "masked (\<lambda>k. is_cand s (hseq b + k)) NIL2 ?f k = Some (?v k, if ?v k = NIL2 then 1 else 0)"
    if "k \<in> set [0..<length (tvals b)]" for k
  proof -
    have "tvals b ! k \<in> set (tvals b)" using that by simp
    then show ?thesis using F [of "tvals b ! k"] assms(3) by (auto simp: masked_def)
  qed
  then have "cells (masked (\<lambda>k. is_cand s (hseq b + k)) NIL2 ?f) [0..<length (tvals b)] =
      Some (map ?v [0..<length (tvals b)], nil_count NIL2 (map ?v [0..<length (tvals b)]))"
    by (rule cells_nil_count)
  then show ?thesis
    unfolding UNARY_2TYPE_FUNC_def Let_def cand_run_cells [OF assms(1,2)] unary_vals_def .
qed

lemma unary_vals_length [simp]: "length (unary_vals s NIL1 NIL2 F b) = length (tvals b)"
  by (simp add: unary_vals_def)

lemma unary_vals_plain: "NIL1 \<notin> set (tvals b) \<Longrightarrow> unary_vals None NIL1 NIL2 F b = map F (tvals b)"
  by (intro nth_equalityI) (auto simp: unary_vals_def is_cand_def dest: nth_mem)

lemma unary_vals_all:
  "NIL2 \<notin> set (unary_vals s NIL1 NIL2 F b) \<Longrightarrow> unary_vals s NIL1 NIL2 F b = map F (tvals b) \<and> NIL1 \<notin> set (tvals b)"
proof -
  assume a: "NIL2 \<notin> set (unary_vals s NIL1 NIL2 F b)"
  have k: "is_cand s (hseq b + k) \<and> tvals b ! k \<noteq> NIL1" if "k < length (tvals b)" for k
  proof (rule ccontr)
    assume "\<not> ?thesis"
    then have "unary_vals s NIL1 NIL2 F b ! k = NIL2" using that by (auto simp: unary_vals_def)
    with a that nth_mem [of k "unary_vals s NIL1 NIL2 F b"] show False by simp
  qed
  then have "unary_vals s NIL1 NIL2 F b = map F (tvals b)" by (intro nth_equalityI) (simp_all add: unary_vals_def)
  moreover have "NIL1 \<notin> set (tvals b)" using k by (auto simp: in_set_conv_nth)
  ultimately show ?thesis ..
qed

text \<open>The contract of the functions the loop applies: inside the result type, and never nil.\<close>

locale unary_op =
  fixes F :: "nat \<Rightarrow> int \<Rightarrow> int" and out :: "tpe \<Rightarrow> tpe" and on :: "tpe \<Rightarrow> bool"
  assumes closed: "on t \<Longrightarrow> in_type t x \<Longrightarrow> x \<noteq> nil_of t \<Longrightarrow> in_type (out t) (F (width t) x) \<and> F (width t) x \<noteq> nil_of (out t)"
    and nil_in: "on t \<Longrightarrow> in_type (out t) (nil_of (out t))"
begin

abbreviation result :: "bat \<Rightarrow> cands option \<Rightarrow> int list" where
  "result b s \<equiv> unary_vals s (nil_of (ttype b)) (nil_of (out (ttype b))) (F (width (ttype b))) b"

lemma run:
  assumes "BATassertProps b" "cands_ok (hseq b) s" "bat_fits b" "on (ttype b)"
  shows "UNARY_2TYPE_FUNC (nil_of (ttype b)) (nil_of (out (ttype b))) (F (width (ttype b))) b (candinit b s) =
    Some (result b s, nil_count (nil_of (out (ttype b))) (result b s))"
  using assms closed [OF assms(4)] by (intro UNARY_run) (auto simp: BATassertProps_iff)

lemma result_in_type:
  assumes "BATassertProps b" "on (ttype b)"
  shows "\<forall>v\<in>set (result b s). in_type (out (ttype b)) v"
  using assms closed [OF assms(2)] nil_in [OF assms(2)] by (auto simp: unary_vals_def BATassertProps_iff)

lemma unordered_props:
  assumes "BATassertProps b" "on (ttype b)"
    and n: "n = nil_count (nil_of (out (ttype b))) (result b s)" and cnt: "cnt = length (tvals b)"
  shows "BATassertProps ((BATnew (out (ttype b)))\<lparr>tvals := result b s, hseq := hseq b,
      tsorted := cnt \<le> 1 \<or> n = cnt, trevsorted := cnt \<le> 1 \<or> n = cnt, tkey := cnt \<le> 1, tnil := n \<noteq> 0, tnonil := n = 0\<rparr>)"
  using result_in_type [OF assms(1,2), of s] trivially_ordered [of "result b s" "nil_of (out (ttype b))"] distinct_short [of "result b s"]
  by (auto simp: BATassertProps_iff BATnew_def n cnt)

end

lemma note_nils_props:
  assumes "BATassertProps b" "n \<noteq> 0 \<Longrightarrow> nil_of (ttype b) \<in> set (tvals b)" "n = 0 \<Longrightarrow> nil_of (ttype b) \<notin> set (tvals b)"
  shows "BATassertProps (note_nils n b)" "tvals (note_nils n b) = tvals b"
  using assms by (auto simp: note_nils_def BATassertProps_iff Let_def)

subsection \<open>The operators meet the contract\<close>

lemmas in_type_bounds = in_type_def smin_def smax_def

interpretation neg: unary_op "\<lambda>w x. swrap w (- x)" "\<lambda>t. t" "\<lambda>t. t \<noteq> TYPE_bit \<and> t \<noteq> TYPE_other"
proof
  show "in_type t (swrap (width t) (- x)) \<and> swrap (width t) (- x) \<noteq> nil_of t"
    if "t \<noteq> TYPE_bit \<and> t \<noteq> TYPE_other" "in_type t x" "x \<noteq> nil_of t" for t x
  proof -
    have "swrap (width t) (- x) = - x"
      using that by (intro swrap_id) (cases t; auto simp: in_type_bounds)+
    then show ?thesis using that by (auto simp: in_type_bounds)
  qed
qed (auto simp: in_type_bounds)

interpretation absolute: unary_op ABSOLUTE "\<lambda>t. t" "\<lambda>t. t \<noteq> TYPE_other"
proof
  show "in_type t (ABSOLUTE (width t) x) \<and> ABSOLUTE (width t) x \<noteq> nil_of t"
    if "t \<noteq> TYPE_other" "in_type t x" "x \<noteq> nil_of t" for t x
  proof -
    have "ABSOLUTE (width t) x = \<bar>x\<bar>"
      unfolding ABSOLUTE_def using that by (subst swrap_id) (cases t; auto simp: in_type_bounds)+
    moreover have "smin (width t) \<le> \<bar>x\<bar>" "\<bar>x\<bar> \<le> smax (width t)" "\<bar>x\<bar> \<noteq> nil_of t" "t = TYPE_bit \<longrightarrow> \<bar>x\<bar> \<in> {nil_of TYPE_bit, 0, 1}"
      using that by (auto simp: in_type_bounds)
    ultimately show ?thesis by (simp add: in_type_def)
  qed
qed (auto simp: in_type_bounds)

interpretation iszero: unary_op "\<lambda>_. ISZERO" "\<lambda>_. TYPE_bit" "\<lambda>t. t \<noteq> TYPE_other"
  by unfold_locales (auto simp: in_type_bounds ISZERO_def)

interpretation sign: unary_op "\<lambda>_. SIGN" "\<lambda>_. TYPE_bte" "\<lambda>t. t \<noteq> TYPE_other"
  by unfold_locales (auto simp: in_type_bounds SIGN_def)

lemma BATcalcnegate_eq:
  assumes "BATassertProps b" "cands_ok (hseq b) s" "bat_fits b" "ttype b \<noteq> TYPE_bit" "ttype b \<noteq> TYPE_other"
    and "n = nil_count (nil_of (ttype b)) (neg.result b s)"
  shows "BATcalcnegate b s = Some ((BATnew (ttype b))\<lparr>tvals := neg.result b s, hseq := hseq b,
      tsorted := n = 0 \<and> trevsorted b, trevsorted := n = 0 \<and> tsorted b, tnil := n \<noteq> 0, tnonil := n = 0, tkey := tkey b\<rparr>,
    note_nils n b)"
  using neg.run [OF assms(1-3)] assms(4-) by (cases "ttype b") (simp_all add: BATcalcnegate_def ATOMstorage_def Let_def)

lemma BATcalcabsolute_eq:
  assumes "BATassertProps b" "cands_ok (hseq b) s" "bat_fits b" "ttype b \<noteq> TYPE_other"
    and "n = nil_count (nil_of (ttype b)) (absolute.result b s)" "cnt = length (tvals b)"
  shows "BATcalcabsolute b s = Some ((BATnew (ttype b))\<lparr>tvals := absolute.result b s, hseq := hseq b,
      tsorted := cnt \<le> 1 \<or> n = cnt, trevsorted := cnt \<le> 1 \<or> n = cnt, tkey := cnt \<le> 1, tnil := n \<noteq> 0, tnonil := n = 0\<rparr>,
    note_nils n b)"
  using absolute.run [OF assms(1-3)] assms(4-) by (cases "ttype b") (simp_all add: BATcalcabsolute_def ATOMstorage_def Let_def)

lemma BATcalciszero_eq:
  assumes "BATassertProps b" "cands_ok (hseq b) s" "bat_fits b" "ttype b \<noteq> TYPE_other"
    and "n = nil_count (nil_of TYPE_bit) (iszero.result b s)" "cnt = length (tvals b)"
  shows "BATcalciszero b s = Some ((BATnew TYPE_bit)\<lparr>tvals := iszero.result b s, hseq := hseq b,
      tsorted := cnt \<le> 1 \<or> n = cnt, trevsorted := cnt \<le> 1 \<or> n = cnt, tkey := cnt \<le> 1, tnil := n \<noteq> 0, tnonil := n = 0\<rparr>,
    note_nils n b)"
  using iszero.run [OF assms(1-3)] assms(4-) by (cases "ttype b") (simp_all add: BATcalciszero_def ATOMstorage_def Let_def)

lemma BATcalcsign_eq:
  assumes "BATassertProps b" "cands_ok (hseq b) s" "bat_fits b" "ttype b \<noteq> TYPE_other"
    and "n = nil_count (nil_of TYPE_bte) (sign.result b s)" "cnt = length (tvals b)"
  shows "BATcalcsign b s = Some ((BATnew TYPE_bte)\<lparr>tvals := sign.result b s, hseq := hseq b,
      tsorted := tsorted b \<or> cnt \<le> 1 \<or> n = cnt, trevsorted := True, tkey := cnt \<le> 1, tnil := n \<noteq> 0, tnonil := n = 0\<rparr>,
    note_nils n b)"
  using sign.run [OF assms(1-3)] assms(4-) by (cases "ttype b") (simp_all add: BATcalcsign_def ATOMstorage_def Let_def BATnew_def)

lemma map_neg_props:
  assumes "\<forall>v\<in>set vs. swrap w (- v) = - v"
  shows "sorted (map (\<lambda>v. swrap w (- v)) vs) \<longleftrightarrow> sorted_wrt (\<ge>) vs"
    "sorted_wrt (\<ge>) (map (\<lambda>v. swrap w (- v)) vs) \<longleftrightarrow> sorted vs"
    "distinct (map (\<lambda>v. swrap w (- v)) vs) \<longleftrightarrow> distinct vs"
proof -
  have eq: "map (\<lambda>v. swrap w (- v)) vs = map uminus vs" using assms by simp
  show "sorted (map (\<lambda>v. swrap w (- v)) vs) \<longleftrightarrow> sorted_wrt (\<ge>) vs"
    "sorted_wrt (\<ge>) (map (\<lambda>v. swrap w (- v)) vs) \<longleftrightarrow> sorted vs"
    "distinct (map (\<lambda>v. swrap w (- v)) vs) \<longleftrightarrow> distinct vs"
    unfolding eq by (simp_all add: sorted_wrt_map distinct_map)
qed

lemma neg_exact: "in_type t x \<Longrightarrow> x \<noteq> nil_of t \<Longrightarrow> t \<noteq> TYPE_other \<Longrightarrow> swrap (width t) (- x) = - x"
  by (intro swrap_id) (cases t; auto simp: in_type_bounds)+

lemma unary_vals_None: "unary_vals None NIL1 NIL2 F b = map (\<lambda>v. if v \<noteq> NIL1 then F v else NIL2) (tvals b)"
  by (intro nth_equalityI) (auto simp: unary_vals_def is_cand_def)

lemma neg_result_props:
  assumes b: "BATassertProps b" and t: "ttype b \<noteq> TYPE_bit" "ttype b \<noteq> TYPE_other" and s: "s = None \<or> \<not> tkey b"
    and n: "n = nil_count (nil_of (ttype b)) (neg.result b s)"
  shows "BATassertProps ((BATnew (ttype b))\<lparr>tvals := neg.result b s, hseq := hseq b,
      tsorted := n = 0 \<and> trevsorted b, trevsorted := n = 0 \<and> tsorted b, tnil := n \<noteq> 0, tnonil := n = 0, tkey := tkey b\<rparr>)"
proof -
  let ?t = "ttype b" and ?r = "neg.result b s"
  have ty: "in_type ?t v" if "v \<in> set (tvals b)" for v using b that unfolding BATassertProps_iff by blast
  have ex: "swrap (width ?t) (- v) = - v" if "v \<in> set (tvals b)" "v \<noteq> nil_of ?t" for v
    using neg_exact [OF ty [OF that(1)] that(2) t(2)] .
  have "\<forall>v\<in>set ?r. in_type ?t v" using neg.result_in_type [OF b] t by blast
  moreover have "(trevsorted b \<longrightarrow> sorted ?r) \<and> (tsorted b \<longrightarrow> sorted_wrt (\<ge>) ?r)" if "n = 0"
  proof -
    have "nil_of ?t \<notin> set ?r" using that n by simp
    from unary_vals_all [OF this] have r: "?r = map (\<lambda>v. swrap (width ?t) (- v)) (tvals b)" "nil_of ?t \<notin> set (tvals b)" by auto
    have "\<forall>v\<in>set (tvals b). swrap (width ?t) (- v) = - v" using ex r(2) by metis
    then show ?thesis unfolding r(1) using b map_neg_props by (auto simp: BATassertProps_iff)
  qed
  moreover have "distinct ?r" if "tkey b"
  proof -
    have "s = None" "distinct (tvals b)" using that s b by (auto simp: BATassertProps_iff)
    moreover have "inj_on (\<lambda>v. if v \<noteq> nil_of ?t then swrap (width ?t) (- v) else nil_of ?t) (set (tvals b))"
      using ex neg.closed ty t by (intro inj_onI) (smt (verit, ccfv_threshold))
    ultimately show ?thesis by (simp add: unary_vals_None distinct_map)
  qed
  ultimately show ?thesis using n by (simp add: BATassertProps_iff)
qed

lemma argument_nils:
  assumes "nil2 \<notin> set (unary_vals None nil1 nil2 F b) \<longleftrightarrow> nil1 \<notin> set (tvals b)" "BATassertProps b" "nil1 = nil_of (ttype b)"
  shows "BATassertProps (note_nils (nil_count nil2 (unary_vals None nil1 nil2 F b)) b) \<and>
    tvals (note_nils (nil_count nil2 (unary_vals None nil1 nil2 F b)) b) = tvals b"
  using assms by (intro conjI note_nils_props) auto

context unary_op
begin

lemma nil_iff:
  assumes "BATassertProps b" "on (ttype b)"
  shows "nil_of (out (ttype b)) \<notin> set (result b None) \<longleftrightarrow> nil_of (ttype b) \<notin> set (tvals b)"
proof
  assume nil: "nil_of (ttype b) \<notin> set (tvals b)"
  have "F (width (ttype b)) x \<noteq> nil_of (out (ttype b))" if "x \<in> set (tvals b)" for x
  proof -
    have "in_type (ttype b) x" using assms(1) that unfolding BATassertProps_iff by blast
    moreover have "x \<noteq> nil_of (ttype b)" using that nil by metis
    ultimately show ?thesis using closed [OF assms(2)] by blast
  qed
  then show "nil_of (out (ttype b)) \<notin> set (result b None)"
    unfolding unary_vals_plain [OF nil] by force
qed (use unary_vals_all in blast)

lemmas argument_kept = argument_nils [OF nil_iff]

end

subsection \<open>Properties\<close>

text \<open>
  C20.  On columns of integers, \<^verbatim>\<open>bit\<close> excluded, the properties recorded for the result of absolute value and
  the test for zero are true of the result, also under a candidate list, when those of the argument
  are true; so are those of negation, unless there is a candidate list and the argument is
  marked as a key.  Without candidate list the properties recorded for the argument stay true.
\<close>

theorem unary_props:
  assumes b: "BATassertProps b" "cands_ok (hseq b) s" "bat_fits b" and t: "ttype b \<noteq> TYPE_bit" "ttype b \<noteq> TYPE_other"
    and op: "op = BATcalcabsolute \<or> op = BATcalciszero \<or> op = BATcalcnegate \<and> (s = None \<or> \<not> tkey b)"
  shows "\<exists>bn b'. op b s = Some (bn, b') \<and> BATassertProps bn \<and> length (tvals bn) = length (tvals b) \<and>
    hseq bn = hseq b \<and> (s = None \<longrightarrow> BATassertProps b' \<and> tvals b' = tvals b)"
proof -
  consider "op = BATcalcnegate" "s = None \<or> \<not> tkey b" | "op = BATcalcabsolute" | "op = BATcalciszero" using op by blast
  then show ?thesis
  proof cases
    case 1
    then show ?thesis
      unfolding 1(1) BATcalcnegate_eq [OF b t refl]
      using neg_result_props [OF b(1) t 1(2) refl] neg.argument_kept [OF b(1) _ b(1) refl] t by auto
  next
    case 2
    then show ?thesis
      unfolding 2 BATcalcabsolute_eq [OF b t(2) refl refl]
      using absolute.unordered_props [OF b(1) t(2) refl refl] absolute.argument_kept [OF b(1) t(2) b(1) refl] by auto
  next
    case 3
    then show ?thesis
      unfolding 3 BATcalciszero_eq [OF b t(2) refl refl]
      using iszero.unordered_props [OF b(1) t(2) refl refl] iszero.argument_kept [OF b(1) t(2) b(1) refl] by auto
  qed
qed

theorem unary_props_witness:
  "\<exists>bn b'. BATcalcnegate ((BATnew TYPE_int)\<lparr>tvals := [1, 2, 5], trevsorted := False\<rparr>) (Some (Oids [0, 2])) = Some (bn, b') \<and>
    BATassertProps bn \<and> length (tvals bn) = 3"
proof -
  let ?b = "(BATnew TYPE_int)\<lparr>tvals := [1, 2, 5], trevsorted := False\<rparr>"
  have "BATassertProps ?b" "cands_ok (hseq ?b) (Some (Oids [0, 2]))" "bat_fits ?b" "ttype ?b \<noteq> TYPE_bit" "ttype ?b \<noteq> TYPE_other" "\<not> tkey ?b"
    by (simp_all add: BATassertProps_iff BATnew_def cands_ok_def in_type_bounds)
  from unary_props [OF this(1-5), of BATcalcnegate] this(6) show ?thesis by auto
qed



text \<open>
  The sign of a column is marked as sorted in reverse whatever the argument is, so that the
  properties recorded for the result of an ascending column with values of both signs are false.
\<close>

theorem BATcalcsign_revsorted:
  assumes b: "BATassertProps b" "cands_ok (hseq b) s" "bat_fits b" and t: "ttype b \<noteq> TYPE_other"
  shows "\<exists>bn b'. BATcalcsign b s = Some (bn, b') \<and> trevsorted bn \<and>
    (s = None \<and> - 1 \<in> set (tvals b) \<and> 1 \<in> set (tvals b) \<and> sorted (tvals b) \<longrightarrow> \<not> BATassertProps bn)"
proof -
  have "\<not> sorted_wrt (\<ge>) (sign.result b None)" if "- 1 \<in> set (tvals b)" "1 \<in> set (tvals b)" "sorted (tvals b)"
  proof -
    obtain i j where ij: "i < length (tvals b)" "j < length (tvals b)" "tvals b ! i = - 1" "tvals b ! j = 1"
      using \<open>- 1 \<in> set (tvals b)\<close> \<open>1 \<in> set (tvals b)\<close> by (auto simp: in_set_conv_nth)
    have "i < j" using sorted_nth_mono [OF that(3), of j i] ij by (cases "i < j") auto
    have "nil_of (ttype b) \<noteq> - 1" "nil_of (ttype b) \<noteq> 1" using t by (cases "ttype b"; simp add: smin_def)+
    then have "sign.result b None ! i = - 1" "sign.result b None ! j = 1"
      using ij by (auto simp: unary_vals_None SIGN_def)
    then show ?thesis
      using sorted_wrt_nth_less [OF _ \<open>i < j\<close>, of "(\<ge>)" "sign.result b None"] ij(2) by auto
  qed
  then show ?thesis unfolding BATcalcsign_eq [OF b t refl refl] by (auto simp: BATassertProps_iff)
qed

theorem BATcalcsign_revsorted_witness:
  "\<exists>bn b'. BATcalcsign ((BATnew TYPE_int)\<lparr>tvals := [- 1, 0, 1], trevsorted := False\<rparr>) None = Some (bn, b') \<and> \<not> BATassertProps bn"
proof -
  let ?b = "(BATnew TYPE_int)\<lparr>tvals := [- 1, 0, 1], trevsorted := False\<rparr>"
  have "BATassertProps ?b" "cands_ok (hseq ?b) None" "bat_fits ?b" "ttype ?b \<noteq> TYPE_other"
    by (simp_all add: BATassertProps_iff BATnew_def cands_ok_def in_type_bounds)
  from BATcalcsign_revsorted [OF this] show ?thesis by (elim exE conjE) auto
qed

end
