(* ===== verification/Gdk_Calc_Binary.thy ===== *)
theory Gdk_Calc_Binary
  imports Gdk_Calc_Unary
begin

text \<open>
  What the operators with two arguments share (\<^verbatim>\<open>gdk/gdk_calc.c\<close>).  An argument is an array and an
  increment, which is 0 when the argument is a single value.  Reading outside an array is
  \<^const>\<open>None\<close>, as is every error the operator reports.  The locale \<open>binary_op\<close> is the contract
  between the loops for the type combinations and the operators built on them.
\<close>

type_synonym loop = "int list \<Rightarrow> nat \<Rightarrow> int list \<Rightarrow> nat \<Rightarrow> canditer \<Rightarrow> nat \<Rightarrow> (int list \<times> nat) option"

type_synonym switchloop =
  "int list \<Rightarrow> tpe \<Rightarrow> nat \<Rightarrow> int list \<Rightarrow> tpe \<Rightarrow> nat \<Rightarrow> tpe \<Rightarrow> canditer \<Rightarrow> nat \<Rightarrow> bool \<Rightarrow> (int list \<times> nat) option"

definition fetch :: "int list \<Rightarrow> nat \<Rightarrow> int option" where
  "fetch xs i = (if i < length xs then Some (xs ! i) else None)"

text \<open>The body of the loops: a nil argument gives nil, otherwise the macro goes on with \<open>F\<close>.\<close>

definition bin_cell :: "int \<Rightarrow> int \<Rightarrow> int \<Rightarrow> (int \<Rightarrow> int \<Rightarrow> cell) \<Rightarrow> int list \<Rightarrow> nat \<Rightarrow> int list \<Rightarrow> nat \<Rightarrow> nat \<Rightarrow> cell" where
  "bin_cell NIL1 NIL2 NIL3 F lft incr1 rgt incr2 k = do {
     l \<leftarrow> fetch lft (k * incr1);
     r \<leftarrow> fetch rgt (k * incr2);
     if l = NIL1 \<or> r = NIL2 then Some (NIL3, 1) else F l r
   }"

text \<open>The type in which C computes with operands of two types: the wider one, at least \<^verbatim>\<open>int\<close>.\<close>

definition arith :: "nat \<Rightarrow> nat \<Rightarrow> int \<Rightarrow> int" where
  "arith w1 w2 x = swrap (max 32 (max w1 w2)) x"

text \<open>\<^verbatim>\<open>ON_OVERFLOW\<close> or nil.\<close>

definition overflow :: "nat \<Rightarrow> bool \<Rightarrow> cell" where
  "overflow w3 abort_on_error = (if abort_on_error then None else Some (smin w3, 1))"

definition checkbats :: "bat \<Rightarrow> bat option \<Rightarrow> bool" where
  "checkbats b1 b2 = (case b2 of None \<Rightarrow> True | Some b2 \<Rightarrow> length (tvals b1) = length (tvals b2))"

text \<open>
  How every operator with two arguments sets up its result: the order properties hold also for
  short and for all nil columns.
\<close>

definition bin_result :: "tpe \<Rightarrow> nat \<Rightarrow> bool \<Rightarrow> bool \<Rightarrow> int list \<times> nat \<Rightarrow> bat" where
  "bin_result tp seq srt rv = (\<lambda>(dst, nils). let cnt = length dst in
     (BATnew tp)\<lparr>tvals := dst, hseq := seq,
       tsorted := srt \<or> cnt \<le> 1 \<or> nils = cnt, trevsorted := rv \<or> cnt \<le> 1 \<or> nils = cnt,
       tkey := cnt \<le> 1, tnil := nils \<noteq> 0, tnonil := nils = 0\<rparr>)"

text \<open>The loop bounds of the operators on single values.\<close>

definition one_row :: canditer where
  "one_row = \<lparr>cstart = 0, cend = 1, ccnt = 1, ccand = None\<rparr>"

subsection \<open>Ranges\<close>

lemma smin_mono: "v \<le> w \<Longrightarrow> smin w \<le> smin v"
  by (simp add: smin_def)

lemma smax_smin: "smax w = - smin w - 1"
  by (simp add: smin_def smax_def)

lemma smax_mono: "v \<le> w \<Longrightarrow> smax v \<le> smax w"
  using smin_mono [of v w] by (simp add: smax_smin)

lemma smin_neg: "smin w < 0"
  by (simp add: smin_def)

lemma width_pos: "t \<noteq> TYPE_other \<Longrightarrow> 0 < width t"
  by (cases t) auto

lemma in_type_range: "in_type t x \<Longrightarrow> x \<noteq> nil_of t \<Longrightarrow> smin (width t) < x \<and> x \<le> smax (width t)"
  by (auto simp: in_type_def)

lemma swrap_signed_take_bit: "swrap (Suc n) x = signed_take_bit n x"
  by (simp add: swrap_def signed_take_bit_eq_take_bit_shift take_bit_eq_mod)

lemma swrap_arith: "0 < w \<Longrightarrow> swrap w (arith w w2 x) = swrap w x"
proof -
  assume "0 < w"
  then have "w = Suc (w - 1)" "max 32 (max w w2) = Suc (max 32 (max w w2) - 1)" "w - 1 \<le> max 32 (max w w2) - 1" by simp_all
  then obtain n m where "w = Suc n" "max 32 (max w w2) = Suc m" "n \<le> m" by blast
  then show ?thesis by (simp add: arith_def swrap_signed_take_bit signed_take_bit_signed_take_bit min_def)
qed

subsection \<open>The value at a position\<close>

definition bin_val :: "cands option \<Rightarrow> nat \<Rightarrow> int \<Rightarrow> int \<Rightarrow> int \<Rightarrow> (int \<Rightarrow> int \<Rightarrow> int option) \<Rightarrow>
    int list \<Rightarrow> nat \<Rightarrow> int list \<Rightarrow> nat \<Rightarrow> nat \<Rightarrow> int" where
  "bin_val s seq NIL1 NIL2 NIL3 F lft i rgt j k =
    (let l = lft ! (k * i); r = rgt ! (k * j)
     in if is_cand s (seq + k) \<and> l \<noteq> NIL1 \<and> r \<noteq> NIL2 then (case F l r of Some v \<Rightarrow> v | None \<Rightarrow> NIL3) else NIL3)"

definition bin_fails :: "cands option \<Rightarrow> nat \<Rightarrow> int \<Rightarrow> int \<Rightarrow> (int \<Rightarrow> int \<Rightarrow> int option) \<Rightarrow>
    int list \<Rightarrow> nat \<Rightarrow> int list \<Rightarrow> nat \<Rightarrow> nat \<Rightarrow> bool" where
  "bin_fails s seq NIL1 NIL2 F lft i rgt j k \<longleftrightarrow>
    is_cand s (seq + k) \<and> lft ! (k * i) \<noteq> NIL1 \<and> rgt ! (k * j) \<noteq> NIL2 \<and> F (lft ! (k * i)) (rgt ! (k * j)) = None"

text \<open>The rows at which the machine traps, whether errors are to be reported or not.\<close>

definition bin_traps :: "cands option \<Rightarrow> nat \<Rightarrow> int \<Rightarrow> int \<Rightarrow> (int \<Rightarrow> int \<Rightarrow> bool) \<Rightarrow>
    int list \<Rightarrow> nat \<Rightarrow> int list \<Rightarrow> nat \<Rightarrow> nat \<Rightarrow> bool" where
  "bin_traps s seq NIL1 NIL2 T lft i rgt j k \<longleftrightarrow>
    is_cand s (seq + k) \<and> lft ! (k * i) \<noteq> NIL1 \<and> rgt ! (k * j) \<noteq> NIL2 \<and> T (lft ! (k * i)) (rgt ! (k * j))"

definition no_trap :: "tpe \<Rightarrow> tpe \<Rightarrow> tpe \<Rightarrow> int \<Rightarrow> int \<Rightarrow> bool" where
  "no_trap tp1 tp2 tp l r = False"

lemma no_traps: "((\<exists>k<n. bin_traps s seq a b (no_trap tp1 tp2 tp) lft i rgt j k) \<or> P) = P"
  by (simp add: bin_traps_def no_trap_def)

lemma cells_None: "k \<in> set ks \<Longrightarrow> f k = None \<Longrightarrow> cells f ks = None"
proof (induction ks)
  case (Cons j ks)
  then show ?case by (cases "f j"; cases "j = k") auto
qed simp

text \<open>An argument with values of its type, one for each of \<open>cnt\<close> rows.\<close>

definition operand :: "tpe \<Rightarrow> int list \<Rightarrow> nat \<Rightarrow> nat \<Rightarrow> bool" where
  "operand tp xs i cnt \<longleftrightarrow> (\<forall>x\<in>set xs. in_type tp x) \<and> (\<forall>k<cnt. k * i < length xs)"

lemma operand_bat: "BATassertProps b \<Longrightarrow> cnt = length (tvals b) \<Longrightarrow> operand (ttype b) (tvals b) 1 cnt"
  by (simp add: operand_def BATassertProps_iff)

lemma operand_cst: "in_type t v \<Longrightarrow> operand t [v] 0 cnt"
  by (simp add: operand_def)

text \<open>Whether the loop computes a value for a row; the rows without one are the nils that it counts.\<close>

definition bin_done :: "cands option \<Rightarrow> nat \<Rightarrow> int \<Rightarrow> int \<Rightarrow> (int \<Rightarrow> int \<Rightarrow> int option) \<Rightarrow>
    int list \<Rightarrow> nat \<Rightarrow> int list \<Rightarrow> nat \<Rightarrow> nat \<Rightarrow> bool" where
  "bin_done s seq NIL1 NIL2 F lft i rgt j k \<longleftrightarrow>
    is_cand s (seq + k) \<and> lft ! (k * i) \<noteq> NIL1 \<and> rgt ! (k * j) \<noteq> NIL2 \<and> F (lft ! (k * i)) (rgt ! (k * j)) \<noteq> None"

lemma cells_count:
  "(\<And>k. k \<in> set ks \<Longrightarrow> f k = Some (v k, if D k then 0 else 1)) \<Longrightarrow>
    cells f ks = Some (map v ks, length (filter (\<lambda>k. \<not> D k) ks))"
  by (induction ks) auto

text \<open>
  The contract: \<open>sel\<close> chooses a loop for a type combination, the loop applies \<open>body\<close> at every
  position, and \<open>body\<close> computes \<open>spec\<close>, whose failures are errors or nils, unless \<open>trap\<close> says that
  the machine traps, in which case there is no result at all.
\<close>

locale binary_loop =
  fixes sel :: "tpe \<Rightarrow> tpe \<Rightarrow> tpe \<Rightarrow> bool \<Rightarrow> loop option"
    and body :: "tpe \<Rightarrow> tpe \<Rightarrow> tpe \<Rightarrow> bool \<Rightarrow> int \<Rightarrow> int \<Rightarrow> cell"
    and spec :: "tpe \<Rightarrow> tpe \<Rightarrow> tpe \<Rightarrow> int \<Rightarrow> int \<Rightarrow> int option"
    and trap :: "tpe \<Rightarrow> tpe \<Rightarrow> tpe \<Rightarrow> int \<Rightarrow> int \<Rightarrow> bool"
  assumes sel: "sel tp1 tp2 tp ab = Some L \<Longrightarrow> L lft i rgt j ci off =
      cand_run (bin_cell (nil_of tp1) (nil_of tp2) (nil_of tp) (body tp1 tp2 tp ab) lft i rgt j) (nil_of tp) off ci"
    and body: "sel tp1 tp2 tp ab = Some L \<Longrightarrow> in_type tp1 l \<Longrightarrow> in_type tp2 r \<Longrightarrow> l \<noteq> nil_of tp1 \<Longrightarrow> r \<noteq> nil_of tp2 \<Longrightarrow>
      body tp1 tp2 tp ab l r =
        (if trap tp1 tp2 tp l r then None
         else case spec tp1 tp2 tp l r of Some v \<Rightarrow> Some (v, 0) | None \<Rightarrow> overflow (width tp) ab)"
    and sel_type: "sel tp1 tp2 tp ab = Some L \<Longrightarrow> 0 < width tp"
begin

abbreviation val :: "cands option \<Rightarrow> nat \<Rightarrow> tpe \<Rightarrow> tpe \<Rightarrow> tpe \<Rightarrow> int list \<Rightarrow> nat \<Rightarrow> int list \<Rightarrow> nat \<Rightarrow> nat \<Rightarrow> int" where
  "val s seq tp1 tp2 tp \<equiv> bin_val s seq (nil_of tp1) (nil_of tp2) (nil_of tp) (spec tp1 tp2 tp)"

abbreviation fails :: "cands option \<Rightarrow> nat \<Rightarrow> tpe \<Rightarrow> tpe \<Rightarrow> tpe \<Rightarrow> int list \<Rightarrow> nat \<Rightarrow> int list \<Rightarrow> nat \<Rightarrow> nat \<Rightarrow> bool" where
  "fails s seq tp1 tp2 tp \<equiv> bin_fails s seq (nil_of tp1) (nil_of tp2) (spec tp1 tp2 tp)"

abbreviation traps :: "cands option \<Rightarrow> nat \<Rightarrow> tpe \<Rightarrow> tpe \<Rightarrow> tpe \<Rightarrow> int list \<Rightarrow> nat \<Rightarrow> int list \<Rightarrow> nat \<Rightarrow> nat \<Rightarrow> bool" where
  "traps s seq tp1 tp2 tp \<equiv> bin_traps s seq (nil_of tp1) (nil_of tp2) (trap tp1 tp2 tp)"

abbreviation finished :: "cands option \<Rightarrow> nat \<Rightarrow> tpe \<Rightarrow> tpe \<Rightarrow> tpe \<Rightarrow> int list \<Rightarrow> nat \<Rightarrow> int list \<Rightarrow> nat \<Rightarrow> nat \<Rightarrow> bool" where
  "finished s seq tp1 tp2 tp \<equiv> bin_done s seq (nil_of tp1) (nil_of tp2) (spec tp1 tp2 tp)"

lemma cell_val:
  assumes "sel tp1 tp2 tp ab = Some L" "\<forall>l\<in>set lft. in_type tp1 l" "\<forall>r\<in>set rgt. in_type tp2 r"
    and "k * i < length lft" "k * j < length rgt"
  shows "masked (\<lambda>k. is_cand s (seq + k)) (nil_of tp)
      (bin_cell (nil_of tp1) (nil_of tp2) (nil_of tp) (body tp1 tp2 tp ab) lft i rgt j) k =
    (if traps s seq tp1 tp2 tp lft i rgt j k \<or> ab \<and> fails s seq tp1 tp2 tp lft i rgt j k then None
     else Some (val s seq tp1 tp2 tp lft i rgt j k, if finished s seq tp1 tp2 tp lft i rgt j k then 0 else 1))"
proof -
  let ?l = "lft ! (k * i)" and ?r = "rgt ! (k * j)"
  have t: "in_type tp1 ?l" "in_type tp2 ?r" using assms by simp_all
  show ?thesis
  proof (cases "is_cand s (seq + k) \<and> ?l \<noteq> nil_of tp1 \<and> ?r \<noteq> nil_of tp2")
    case True
    show ?thesis
      using True body [OF assms(1) t] assms(4,5)
      by (cases "spec tp1 tp2 tp ?l ?r")
        (auto simp: masked_def bin_cell_def fetch_def bin_fails_def bin_traps_def bin_done_def bin_val_def overflow_def Let_def)
  next
    case False
    then show ?thesis
      using assms(4,5) by (auto simp: masked_def bin_cell_def fetch_def bin_fails_def bin_traps_def bin_done_def bin_val_def Let_def)
  qed
qed

text \<open>The outcome of a loop over a column of \<open>cnt\<close> rows that starts at \<open>seq\<close>.\<close>

lemma loop_run:
  assumes L: "sel tp1 tp2 tp ab = Some L" "\<forall>l\<in>set lft. in_type tp1 l" "\<forall>r\<in>set rgt. in_type tp2 r"
    and n: "\<forall>k<cnt. k * i < length lft \<and> k * j < length rgt"
    and c: "cands_ok seq s" "seq + cnt < 2 ^ 63"
  shows "L lft i rgt j (CANDINIT seq cnt s) seq =
    (if (\<exists>k<cnt. traps s seq tp1 tp2 tp lft i rgt j k) \<or> ab \<and> (\<exists>k<cnt. fails s seq tp1 tp2 tp lft i rgt j k) then None
     else Some (map (val s seq tp1 tp2 tp lft i rgt j) [0..<cnt],
       length (filter (\<lambda>k. \<not> finished s seq tp1 tp2 tp lft i rgt j k) [0..<cnt])))"
proof -
  let ?f = "masked (\<lambda>k. is_cand s (seq + k)) (nil_of tp)
      (bin_cell (nil_of tp1) (nil_of tp2) (nil_of tp) (body tp1 tp2 tp ab) lft i rgt j)"
  note cv = cell_val [OF L, of _ i j s seq]
  have run: "L lft i rgt j (CANDINIT seq cnt s) seq = cells ?f [0..<cnt]"
    unfolding sel [OF L(1)] by (rule cand_run_cells [OF c])
  show ?thesis
  proof (cases "(\<exists>k<cnt. traps s seq tp1 tp2 tp lft i rgt j k) \<or> ab \<and> (\<exists>k<cnt. fails s seq tp1 tp2 tp lft i rgt j k)")
    case True
    then obtain k where k: "k < cnt" "traps s seq tp1 tp2 tp lft i rgt j k \<or> ab \<and> fails s seq tp1 tp2 tp lft i rgt j k" by blast
    then have "?f k = None" using cv n by auto
    then have "cells ?f [0..<cnt] = None" using k(1) by (intro cells_None [of k]) auto
    then show ?thesis unfolding run using True by simp
  next
    case False
    then have "?f k = Some (val s seq tp1 tp2 tp lft i rgt j k,
        if finished s seq tp1 tp2 tp lft i rgt j k then 0 else 1)" if "k \<in> set [0..<cnt]" for k
      using cv n that by auto
    then show ?thesis unfolding run using False by (subst cells_count) auto
  qed
qed

text \<open>The same through the type switch, with the conditions on the arguments as one predicate.\<close>

lemma loop_switched:
  assumes "operand tp1 lft i cnt" "operand tp2 rgt j cnt" "cands_ok seq s" "seq + cnt < 2 ^ 63"
    and "do { loop \<leftarrow> sel tp1 tp2 tp ab; loop lft i rgt j (CANDINIT seq cnt s) seq } = Some (dst, nils)"
  shows "\<exists>L. sel tp1 tp2 tp ab = Some L" "dst = map (val s seq tp1 tp2 tp lft i rgt j) [0..<cnt]"
    "nils = length (filter (\<lambda>k. \<not> finished s seq tp1 tp2 tp lft i rgt j k) [0..<cnt])"
    "ab \<Longrightarrow> k < cnt \<Longrightarrow> \<not> fails s seq tp1 tp2 tp lft i rgt j k" "k < cnt \<Longrightarrow> \<not> traps s seq tp1 tp2 tp lft i rgt j k"
proof -
  obtain L where L: "sel tp1 tp2 tp ab = Some L" "L lft i rgt j (CANDINIT seq cnt s) seq = Some (dst, nils)"
    using assms(5) by (auto simp: bind_eq_Some_conv)
  have "if (\<exists>k<cnt. traps s seq tp1 tp2 tp lft i rgt j k) \<or> ab \<and> (\<exists>k<cnt. fails s seq tp1 tp2 tp lft i rgt j k) then False
     else dst = map (val s seq tp1 tp2 tp lft i rgt j) [0..<cnt] \<and>
       nils = length (filter (\<lambda>k. \<not> finished s seq tp1 tp2 tp lft i rgt j k) [0..<cnt])"
    using loop_run [OF L(1), of lft rgt cnt i j seq s] assms(1-4) L(2) by (auto simp: operand_def split: if_splits)
  then show "\<exists>L. sel tp1 tp2 tp ab = Some L" "dst = map (val s seq tp1 tp2 tp lft i rgt j) [0..<cnt]"
    "nils = length (filter (\<lambda>k. \<not> finished s seq tp1 tp2 tp lft i rgt j k) [0..<cnt])"
    "ab \<Longrightarrow> k < cnt \<Longrightarrow> \<not> fails s seq tp1 tp2 tp lft i rgt j k" "k < cnt \<Longrightarrow> \<not> traps s seq tp1 tp2 tp lft i rgt j k"
    using L(1) by (auto split: if_splits)
qed

text \<open>The columns that the operators make of it, and its use on single values.\<close>

lemma columns:
  assumes "operand tp1 lft i cnt" "operand tp2 rgt j cnt" "cands_ok seq s" "seq + cnt < 2 ^ 63" "sel tp1 tp2 tp ab = Some L"
    and calc: "calc = do {
      (dst, nils) \<leftarrow> (do { loop \<leftarrow> sel tp1 tp2 tp ab; loop lft i rgt j (CANDINIT seq cnt s) seq });
      Some (bin_result tp seq (srt nils) (rv nils) (dst, nils)) }"
  shows "if (\<exists>k<cnt. traps s seq tp1 tp2 tp lft i rgt j k) \<or> ab \<and> (\<exists>k<cnt. fails s seq tp1 tp2 tp lft i rgt j k) then calc = None
    else \<exists>bn. calc = Some bn \<and> ttype bn = tp \<and> tvals bn = map (val s seq tp1 tp2 tp lft i rgt j) [0..<cnt]"
proof -
  have "calc = do { (dst, nils) \<leftarrow> L lft i rgt j (CANDINIT seq cnt s) seq; Some (bin_result tp seq (srt nils) (rv nils) (dst, nils)) }"
    unfolding calc assms(5) by simp
  then show ?thesis
    using loop_run [OF assms(5), of lft rgt cnt i j seq s] assms(1-4)
    by (cases "(\<exists>k<cnt. traps s seq tp1 tp2 tp lft i rgt j k) \<or> ab \<and> (\<exists>k<cnt. fails s seq tp1 tp2 tp lft i rgt j k)") (auto simp: operand_def bin_result_def Let_def)
qed

lemma single:
  assumes "in_type tp1 l" "in_type tp2 r" "sel tp1 tp2 tp ab = Some L"
    and calc: "calc = do {
      (dst, nils) \<leftarrow> (do { loop \<leftarrow> sel tp1 tp2 tp ab; loop [l] 0 [r] 0 one_row 0 });
      fetch dst 0 }"
  shows "calc = (if traps None 0 tp1 tp2 tp [l] 0 [r] 0 0 \<or> ab \<and> fails None 0 tp1 tp2 tp [l] 0 [r] 0 0 then None else Some (val None 0 tp1 tp2 tp [l] 0 [r] 0 0))"
proof -
  have "one_row = CANDINIT 0 1 None" by (simp add: one_row_def CANDINIT_def)
  moreover have "calc = do { (dst, nils) \<leftarrow> L [l] 0 [r] 0 one_row 0; fetch dst 0 }" unfolding calc assms(3) by simp
  ultimately show ?thesis
    using loop_run [OF assms(3), of "[l]" "[r]" 1 0 0 0 None] assms(1,2) by (auto simp: cands_ok_def fetch_def)
qed

lemma row_single:
  assumes o: "operand tp1 lft i cnt" "operand tp2 rgt j cnt" "cands_ok seq s" "seq + cnt < 2 ^ 63"
    and r: "do { loop \<leftarrow> sel tp1 tp2 tp ab; loop lft i rgt j (CANDINIT seq cnt s) seq } = Some (dst, nils)"
    and k: "k < cnt" and lr: "l = lft ! (k * i)" "r = rgt ! (k * j)"
  shows "if is_cand s (seq + k) then do {
      (dst, nils) \<leftarrow> (do { loop \<leftarrow> sel tp1 tp2 tp ab; loop [l] 0 [r] 0 one_row 0 });
      fetch dst 0 } = Some (dst ! k) else dst ! k = nil_of tp"
proof -
  note sw = loop_switched [OF o r]
  obtain L where L: "sel tp1 tp2 tp ab = Some L" using sw(1) by blast
  have t: "in_type tp1 l" "in_type tp2 r" using o k by (simp_all add: operand_def lr)
  have "ab \<Longrightarrow> \<not> fails s seq tp1 tp2 tp lft i rgt j k" "\<not> traps s seq tp1 tp2 tp lft i rgt j k"
    "dst ! k = val s seq tp1 tp2 tp lft i rgt j k"
    using sw(2,4,5) k by simp_all
  then show ?thesis
    using single [OF t L refl] by (auto simp: bin_fails_def bin_traps_def bin_val_def is_cand_def [of None] lr Let_def)
qed

lemma unfinished_nil: "\<not> finished s seq tp1 tp2 tp lft i rgt j k \<Longrightarrow> val s seq tp1 tp2 tp lft i rgt j k = nil_of tp"
  by (auto simp: bin_done_def bin_val_def Let_def)

text \<open>The properties recorded are right unless a nil was computed and none was counted.\<close>

lemma counted_props:
  assumes "operand tp1 lft i cnt" "operand tp2 rgt j cnt" "cands_ok seq s" "seq + cnt < 2 ^ 63"
    and r: "do { loop \<leftarrow> sel tp1 tp2 tp ab; loop lft i rgt j (CANDINIT seq cnt s) seq } = Some (dst, nils)"
    and t: "\<forall>v\<in>set dst. in_type tp v"
  shows "BATassertProps (bin_result tp seq False False (dst, nils)) \<longleftrightarrow> (nils = 0 \<longrightarrow> nil_of tp \<notin> set dst)"
proof -
  note sw = loop_switched [OF assms(1-4) r]
  let ?U = "filter (\<lambda>k. \<not> finished s seq tp1 tp2 tp lft i rgt j k) [0..<cnt]"
  have u: "val s seq tp1 tp2 tp lft i rgt j k = nil_of tp" if "k \<in> set ?U" for k using that unfinished_nil by auto
  have len: "length dst = cnt" using sw(2) by simp
  have all: "\<forall>v\<in>set dst. v = nil_of tp" if "nils = length dst"
  proof -
    have "\<not> finished s seq tp1 tp2 tp lft i rgt j k" if k: "k \<in> set [0..<cnt]" for k
      using length_filter_less [OF k, of "\<lambda>k. \<not> finished s seq tp1 tp2 tp lft i rgt j k"] \<open>nils = length dst\<close> len sw(3) by auto
    then show ?thesis unfolding sw(2) by (auto simp: unfinished_nil)
  qed
  have some: "nil_of tp \<in> set dst" if "nils \<noteq> 0"
  proof -
    have "?U \<noteq> []" using that sw(3) by auto
    then obtain k where k: "k \<in> set ?U" by (cases ?U) auto
    then have "k \<in> set [0..<cnt]" by simp
    then have "val s seq tp1 tp2 tp lft i rgt j k \<in> set dst" unfolding sw(2) set_map by (rule imageI)
    then show ?thesis using u [OF k] by simp
  qed
  have "sorted dst \<and> sorted_wrt (\<ge>) dst" if "length dst \<le> Suc 0 \<or> nils = length dst"
    using that
  proof
    assume "length dst \<le> Suc 0"
    then show ?thesis by (cases dst) auto
  next
    assume "nils = length dst"
    then show ?thesis by (intro sorted_const [of dst "nil_of tp"] all)
  qed
  then show ?thesis
    using t some distinct_short [of dst] by (auto simp: BATassertProps_iff bin_result_def BATnew_def Let_def)
qed

end

text \<open>When the values computed are never nil, the nils counted are the nils of the result.\<close>

locale binary_op = binary_loop +
  assumes spec_range: "sel tp1 tp2 tp ab = Some L \<Longrightarrow> in_type tp1 l \<Longrightarrow> in_type tp2 r \<Longrightarrow> l \<noteq> nil_of tp1 \<Longrightarrow> r \<noteq> nil_of tp2 \<Longrightarrow>
      spec tp1 tp2 tp l r = Some v \<Longrightarrow> nil_of tp < v \<and> v \<le> smax (width tp)"
begin

lemma run:
  assumes L: "sel tp1 tp2 tp ab = Some L" "\<forall>l\<in>set lft. in_type tp1 l" "\<forall>r\<in>set rgt. in_type tp2 r"
    and n: "\<forall>k<cnt. k * i < length lft \<and> k * j < length rgt"
    and c: "cands_ok seq s" "seq + cnt < 2 ^ 63"
    and vs: "vs = map (val s seq tp1 tp2 tp lft i rgt j) [0..<cnt]"
  shows "L lft i rgt j (CANDINIT seq cnt s) seq =
    (if (\<exists>k<cnt. traps s seq tp1 tp2 tp lft i rgt j k) \<or> ab \<and> (\<exists>k<cnt. fails s seq tp1 tp2 tp lft i rgt j k) then None
     else Some (vs, nil_count (nil_of tp) vs))"
proof -
  have "\<not> finished s seq tp1 tp2 tp lft i rgt j k \<longleftrightarrow> nil_of tp = val s seq tp1 tp2 tp lft i rgt j k" if "k < cnt" for k
  proof -
    have "in_type tp1 (lft ! (k * i))" "in_type tp2 (rgt ! (k * j))" using L(2,3) n that by simp_all
    then show ?thesis
      using spec_range [OF L(1), of "lft ! (k * i)" "rgt ! (k * j)"] by (fastforce simp: bin_done_def bin_val_def Let_def)
  qed
  then have "length (filter (\<lambda>k. \<not> finished s seq tp1 tp2 tp lft i rgt j k) [0..<cnt]) = nil_count (nil_of tp) vs"
    unfolding vs nil_count_def filter_map o_def length_map by (intro arg_cong [where f = length] filter_cong) simp_all
  then show ?thesis unfolding loop_run [OF L n c] vs by simp
qed

lemma val_in_type:
  assumes "sel tp1 tp2 tp ab = Some L" "\<forall>l\<in>set lft. in_type tp1 l" "\<forall>r\<in>set rgt. in_type tp2 r"
    and "k * i < length lft" "k * j < length rgt" "tp \<noteq> TYPE_bit"
  shows "in_type tp (val s seq tp1 tp2 tp lft i rgt j k)"
proof -
  have t: "in_type tp1 (lft ! (k * i))" "in_type tp2 (rgt ! (k * j))" using assms by simp_all
  have "smin (width tp) \<le> smax (width tp)" using sel_type [OF assms(1)] by (simp add: smin_def smax_def)
  then show ?thesis
    using spec_range [OF assms(1) t] assms(6)
    by (auto simp: bin_val_def Let_def in_type_def split: option.splits)
qed

text \<open>Properties of the result when the order that is recorded is right.\<close>

lemma result_props:
  assumes L: "sel tp1 tp2 tp ab = Some L" "\<forall>l\<in>set lft. in_type tp1 l" "\<forall>r\<in>set rgt. in_type tp2 r"
    and n: "\<forall>k<cnt. k * i < length lft \<and> k * j < length rgt" and tp: "tp \<noteq> TYPE_bit"
    and vs: "vs = map (val s seq tp1 tp2 tp lft i rgt j) [0..<cnt]"
    and o: "srt \<longrightarrow> sorted vs" "rv \<longrightarrow> sorted_wrt (\<ge>) vs"
  shows "BATassertProps (bin_result tp seq srt rv (vs, nil_count (nil_of tp) vs))"
proof -
  have "\<forall>v\<in>set vs. in_type tp v" unfolding vs using val_in_type [OF L _ _ tp] n by auto
  then show ?thesis
    using o trivially_ordered [of vs "nil_of tp"] distinct_short [of vs]
    by (auto simp: BATassertProps_iff bin_result_def BATnew_def Let_def)
qed

lemma switched:
  assumes "operand tp1 lft i cnt" "operand tp2 rgt j cnt" "cands_ok seq s" "seq + cnt < 2 ^ 63"
    and "do { loop \<leftarrow> sel tp1 tp2 tp ab; loop lft i rgt j (CANDINIT seq cnt s) seq } = Some (dst, nils)"
  shows "\<exists>L. sel tp1 tp2 tp ab = Some L" "dst = map (val s seq tp1 tp2 tp lft i rgt j) [0..<cnt]"
    "nils = nil_count (nil_of tp) dst" "ab \<Longrightarrow> k < cnt \<Longrightarrow> \<not> fails s seq tp1 tp2 tp lft i rgt j k"
proof -
  obtain L where L: "sel tp1 tp2 tp ab = Some L" "L lft i rgt j (CANDINIT seq cnt s) seq = Some (dst, nils)"
    using assms(5) by (auto simp: bind_eq_Some_conv)
  have "if (\<exists>k<cnt. traps s seq tp1 tp2 tp lft i rgt j k) \<or> ab \<and> (\<exists>k<cnt. fails s seq tp1 tp2 tp lft i rgt j k) then False
     else dst = map (val s seq tp1 tp2 tp lft i rgt j) [0..<cnt] \<and> nils = nil_count (nil_of tp) dst"
    using run [OF L(1), of lft rgt cnt i j seq s] assms(1-4) L(2) by (auto simp: operand_def split: if_splits)
  then show "\<exists>L. sel tp1 tp2 tp ab = Some L" "dst = map (val s seq tp1 tp2 tp lft i rgt j) [0..<cnt]"
    "nils = nil_count (nil_of tp) dst" "ab \<Longrightarrow> k < cnt \<Longrightarrow> \<not> fails s seq tp1 tp2 tp lft i rgt j k"
    using L(1) by (auto split: if_splits)
qed

lemma switched_None:
  assumes "operand tp1 lft i cnt" "operand tp2 rgt j cnt" "cands_ok seq s" "seq + cnt < 2 ^ 63" "sel tp1 tp2 tp ab = Some L"
  shows "do { loop \<leftarrow> sel tp1 tp2 tp ab; loop lft i rgt j (CANDINIT seq cnt s) seq } = None \<longleftrightarrow>
    (\<exists>k<cnt. traps s seq tp1 tp2 tp lft i rgt j k) \<or> ab \<and> (\<exists>k<cnt. fails s seq tp1 tp2 tp lft i rgt j k)"
  using run [OF assms(5), of lft rgt cnt i j seq s] assms(1-4) by (simp add: operand_def assms(5))

lemma switched_props:
  assumes "operand tp1 lft i cnt" "operand tp2 rgt j cnt" "cands_ok seq s" "seq + cnt < 2 ^ 63" "tp \<noteq> TYPE_bit"
    and r: "do { loop \<leftarrow> sel tp1 tp2 tp ab; loop lft i rgt j (CANDINIT seq cnt s) seq } = Some (dst, nils)"
    and "srt \<Longrightarrow> sorted dst" "rv \<Longrightarrow> sorted_wrt (\<ge>) dst"
  shows "BATassertProps (bin_result tp seq srt rv (dst, nils))"
proof -
  note sw = switched [OF assms(1-4) r]
  obtain L where "sel tp1 tp2 tp ab = Some L" using sw(1) by blast
  then show ?thesis
    unfolding sw(3) using assms(1,2,5,7,8) by (intro result_props [OF _ _ _ _ _ sw(2)]) (auto simp: operand_def)
qed

end

end
