(* ===== verification/Gdk_Calc_Arith.thy ===== *)
theory Gdk_Calc_Arith
  imports Gdk_Calc_Binary
begin

unbundle bit_operations_syntax

text \<open>
  Addition, subtraction, multiplication, division and remainder of columns and of single values
  (\<^verbatim>\<open>gdk/gdk_calc.c\<close>, \<^verbatim>\<open>gdk/gdk_calc_private.h\<close>) on the integer types, in the configuration of
  \<^verbatim>\<open>monetdb_config.h\<close>: without \<^verbatim>\<open>FULL_IMPLEMENTATION\<close>, with \<^verbatim>\<open>__int128\<close>.  The macros take the
  widths of their types; the nested type switches of the source are the definitions
  \<open>add_bte\<close> (first argument \<^verbatim>\<open>bte\<close>) to \<open>mod_lng\<close>.  A value of an operator is given with its type.
\<close>

subsection \<open>Addition\<close>

definition ADD_WITH_CHECK :: "nat \<Rightarrow> nat \<Rightarrow> nat \<Rightarrow> bool \<Rightarrow> int \<Rightarrow> int \<Rightarrow> cell" where
  "ADD_WITH_CHECK w1 w2 w3 abort_on_error lft rgt =
    (if rgt < 1 then
       if arith w3 w2 (smin w3 - rgt) \<ge> lft then overflow w3 abort_on_error
       else Some (swrap w3 (arith w3 w2 (swrap w3 lft + rgt)), 0)
     else
       if arith w3 w2 (smax w3 - rgt) < lft then overflow w3 abort_on_error
       else Some (swrap w3 (arith w3 w2 (swrap w3 lft + rgt)), 0))"

definition ADD_3TYPE :: "nat \<Rightarrow> nat \<Rightarrow> nat \<Rightarrow> bool \<Rightarrow> loop" where
  "ADD_3TYPE w1 w2 w3 abort_on_error lft incr1 rgt incr2 ci candoff =
    cand_run (bin_cell (smin w1) (smin w2) (smin w3) (ADD_WITH_CHECK w1 w2 w3 abort_on_error) lft incr1 rgt incr2) (smin w3) candoff ci"

definition ADD_3TYPE_enlarge :: "nat \<Rightarrow> nat \<Rightarrow> nat \<Rightarrow> loop" where
  "ADD_3TYPE_enlarge w1 w2 w3 lft incr1 rgt incr2 ci candoff =
    cand_run (bin_cell (smin w1) (smin w2) (smin w3) (\<lambda>l r. Some (swrap w3 (arith w3 w2 (swrap w3 l + r)), 0)) lft incr1 rgt incr2) (smin w3) candoff ci"

definition add_bte :: "tpe \<Rightarrow> tpe \<Rightarrow> bool \<Rightarrow> loop option" where
  "add_bte tp2 tp abort_on_error =
    (case ATOMstorage tp2 of
       TYPE_bte \<Rightarrow> (case ATOMstorage tp of TYPE_bte \<Rightarrow> Some (ADD_3TYPE 8 8 8 abort_on_error) | TYPE_sht \<Rightarrow> Some (ADD_3TYPE_enlarge 8 8 16) | _ \<Rightarrow> None)
     | TYPE_sht \<Rightarrow> (case ATOMstorage tp of TYPE_sht \<Rightarrow> Some (ADD_3TYPE 8 16 16 abort_on_error) | TYPE_int \<Rightarrow> Some (ADD_3TYPE_enlarge 8 16 32) | _ \<Rightarrow> None)
     | TYPE_int \<Rightarrow> (case ATOMstorage tp of TYPE_int \<Rightarrow> Some (ADD_3TYPE 8 32 32 abort_on_error) | TYPE_lng \<Rightarrow> Some (ADD_3TYPE_enlarge 8 32 64) | _ \<Rightarrow> None)
     | TYPE_lng \<Rightarrow> (case ATOMstorage tp of TYPE_lng \<Rightarrow> Some (ADD_3TYPE 8 64 64 abort_on_error) | _ \<Rightarrow> None)
     | _ \<Rightarrow> None)"

definition add_sht :: "tpe \<Rightarrow> tpe \<Rightarrow> bool \<Rightarrow> loop option" where
  "add_sht tp2 tp abort_on_error =
    (case ATOMstorage tp2 of
       TYPE_bte \<Rightarrow> (case ATOMstorage tp of TYPE_sht \<Rightarrow> Some (ADD_3TYPE 16 8 16 abort_on_error) | TYPE_int \<Rightarrow> Some (ADD_3TYPE_enlarge 16 8 32) | _ \<Rightarrow> None)
     | TYPE_sht \<Rightarrow> (case ATOMstorage tp of TYPE_sht \<Rightarrow> Some (ADD_3TYPE 16 16 16 abort_on_error) | TYPE_int \<Rightarrow> Some (ADD_3TYPE_enlarge 16 16 32) | _ \<Rightarrow> None)
     | TYPE_int \<Rightarrow> (case ATOMstorage tp of TYPE_int \<Rightarrow> Some (ADD_3TYPE 16 32 32 abort_on_error) | TYPE_lng \<Rightarrow> Some (ADD_3TYPE_enlarge 16 32 64) | _ \<Rightarrow> None)
     | TYPE_lng \<Rightarrow> (case ATOMstorage tp of TYPE_lng \<Rightarrow> Some (ADD_3TYPE 16 64 64 abort_on_error) | _ \<Rightarrow> None)
     | _ \<Rightarrow> None)"

definition add_int :: "tpe \<Rightarrow> tpe \<Rightarrow> bool \<Rightarrow> loop option" where
  "add_int tp2 tp abort_on_error =
    (case ATOMstorage tp2 of
       TYPE_bte \<Rightarrow> (case ATOMstorage tp of TYPE_int \<Rightarrow> Some (ADD_3TYPE 32 8 32 abort_on_error) | TYPE_lng \<Rightarrow> Some (ADD_3TYPE_enlarge 32 8 64) | _ \<Rightarrow> None)
     | TYPE_sht \<Rightarrow> (case ATOMstorage tp of TYPE_int \<Rightarrow> Some (ADD_3TYPE 32 16 32 abort_on_error) | TYPE_lng \<Rightarrow> Some (ADD_3TYPE_enlarge 32 16 64) | _ \<Rightarrow> None)
     | TYPE_int \<Rightarrow> (case ATOMstorage tp of TYPE_int \<Rightarrow> Some (ADD_3TYPE 32 32 32 abort_on_error) | TYPE_lng \<Rightarrow> Some (ADD_3TYPE_enlarge 32 32 64) | _ \<Rightarrow> None)
     | TYPE_lng \<Rightarrow> (case ATOMstorage tp of TYPE_lng \<Rightarrow> Some (ADD_3TYPE 32 64 64 abort_on_error) | _ \<Rightarrow> None)
     | _ \<Rightarrow> None)"

definition add_lng :: "tpe \<Rightarrow> tpe \<Rightarrow> bool \<Rightarrow> loop option" where
  "add_lng tp2 tp abort_on_error =
    (case ATOMstorage tp2 of
       TYPE_bte \<Rightarrow> (case ATOMstorage tp of TYPE_lng \<Rightarrow> Some (ADD_3TYPE 64 8 64 abort_on_error) | _ \<Rightarrow> None)
     | TYPE_sht \<Rightarrow> (case ATOMstorage tp of TYPE_lng \<Rightarrow> Some (ADD_3TYPE 64 16 64 abort_on_error) | _ \<Rightarrow> None)
     | TYPE_int \<Rightarrow> (case ATOMstorage tp of TYPE_lng \<Rightarrow> Some (ADD_3TYPE 64 32 64 abort_on_error) | _ \<Rightarrow> None)
     | TYPE_lng \<Rightarrow> (case ATOMstorage tp of TYPE_lng \<Rightarrow> Some (ADD_3TYPE 64 64 64 abort_on_error) | _ \<Rightarrow> None)
     | _ \<Rightarrow> None)"

definition add_switch :: "tpe \<Rightarrow> tpe \<Rightarrow> tpe \<Rightarrow> bool \<Rightarrow> loop option" where
  "add_switch tp1 tp2 tp abort_on_error =
    (case ATOMstorage tp1 of
       TYPE_bte \<Rightarrow> add_bte tp2 tp abort_on_error
     | TYPE_sht \<Rightarrow> add_sht tp2 tp abort_on_error
     | TYPE_int \<Rightarrow> add_int tp2 tp abort_on_error
     | TYPE_lng \<Rightarrow> add_lng tp2 tp abort_on_error
     | _ \<Rightarrow> None)"

definition add_typeswitchloop :: switchloop where
  "add_typeswitchloop lft tp1 incr1 rgt tp2 incr2 tp ci candoff abort_on_error = do {
     loop \<leftarrow> add_switch tp1 tp2 tp abort_on_error;
     loop lft incr1 rgt incr2 ci candoff
   }"

definition BATcalcadd :: "bat \<Rightarrow> bat \<Rightarrow> cands option \<Rightarrow> tpe \<Rightarrow> bool \<Rightarrow> bat option" where
  "BATcalcadd b1 b2 s tp abort_on_error =
    (if \<not> checkbats b1 (Some b2) then None
     else do {
       (dst, nils) \<leftarrow> add_typeswitchloop (tvals b1) (ttype b1) 1 (tvals b2) (ttype b2) 1 tp
         (candinit b1 s) (hseq b1) abort_on_error;
       Some (bin_result tp (hseq b1) (abort_on_error \<and> tsorted b1 \<and> tsorted b2) (abort_on_error \<and> trevsorted b1 \<and> trevsorted b2) (dst, nils))
     })"

definition BATcalcaddcst :: "bat \<Rightarrow> tpe \<Rightarrow> int \<Rightarrow> cands option \<Rightarrow> tpe \<Rightarrow> bool \<Rightarrow> bat option" where
  "BATcalcaddcst b vt v s tp abort_on_error =
    (if \<not> checkbats b None then None
     else do {
       (dst, nils) \<leftarrow> add_typeswitchloop (tvals b) (ttype b) 1 [v] vt 0 tp
         (candinit b s) (hseq b) abort_on_error;
       Some (bin_result tp (hseq b) (abort_on_error \<and> tsorted b) (abort_on_error \<and> trevsorted b) (dst, nils))
     })"

definition BATcalccstadd :: "tpe \<Rightarrow> int \<Rightarrow> bat \<Rightarrow> cands option \<Rightarrow> tpe \<Rightarrow> bool \<Rightarrow> bat option" where
  "BATcalccstadd vt v b s tp abort_on_error =
    (if \<not> checkbats b None then None
     else do {
       (dst, nils) \<leftarrow> add_typeswitchloop [v] vt 0 (tvals b) (ttype b) 1 tp
         (candinit b s) (hseq b) abort_on_error;
       Some (bin_result tp (hseq b) (abort_on_error \<and> tsorted b) (abort_on_error \<and> trevsorted b) (dst, nils))
     })"

definition VARcalcadd :: "tpe \<Rightarrow> tpe \<Rightarrow> int \<Rightarrow> tpe \<Rightarrow> int \<Rightarrow> bool \<Rightarrow> int option" where
  "VARcalcadd tp lt lft rt rgt abort_on_error = do {
     (dst, nils) \<leftarrow> add_typeswitchloop [lft] lt 0 [rgt] rt 0 tp one_row 0 abort_on_error;
     fetch dst 0
   }"

definition BATcalcincr :: "bat \<Rightarrow> cands option \<Rightarrow> bool \<Rightarrow> (bat \<times> bat) option" where
  "BATcalcincr b s abort_on_error =
    (if \<not> checkbats b None then None
     else do {
       (dst, nils) \<leftarrow> add_typeswitchloop (tvals b) (ttype b) 1 [1] TYPE_bte 0 (ttype b)
         (candinit b s) (hseq b) abort_on_error;
       Some (bin_result (ttype b) (hseq b) (abort_on_error \<and> tsorted b) (abort_on_error \<and> trevsorted b) (dst, nils),
         note_nils nils b)
     })"

definition VARcalcincr :: "tpe \<Rightarrow> tpe \<Rightarrow> int \<Rightarrow> bool \<Rightarrow> int option" where
  "VARcalcincr tp vt v abort_on_error = do {
     (dst, nils) \<leftarrow> add_typeswitchloop [v] vt 0 [1] TYPE_bte 0 tp one_row 0 abort_on_error;
     fetch dst 0
   }"

subsection \<open>Subtraction\<close>

definition SUB_WITH_CHECK :: "nat \<Rightarrow> nat \<Rightarrow> nat \<Rightarrow> bool \<Rightarrow> int \<Rightarrow> int \<Rightarrow> cell" where
  "SUB_WITH_CHECK w1 w2 w3 abort_on_error lft rgt =
    (if rgt < 1 then
       if arith w3 w2 (smax w3 + rgt) < lft then overflow w3 abort_on_error
       else Some (swrap w3 (arith w3 w2 (swrap w3 lft - rgt)), 0)
     else
       if arith w3 w2 (smin w3 + rgt) \<ge> lft then overflow w3 abort_on_error
       else Some (swrap w3 (arith w3 w2 (swrap w3 lft - rgt)), 0))"

definition SUB_3TYPE :: "nat \<Rightarrow> nat \<Rightarrow> nat \<Rightarrow> bool \<Rightarrow> loop" where
  "SUB_3TYPE w1 w2 w3 abort_on_error lft incr1 rgt incr2 ci candoff =
    cand_run (bin_cell (smin w1) (smin w2) (smin w3) (SUB_WITH_CHECK w1 w2 w3 abort_on_error) lft incr1 rgt incr2) (smin w3) candoff ci"

definition SUB_3TYPE_enlarge :: "nat \<Rightarrow> nat \<Rightarrow> nat \<Rightarrow> loop" where
  "SUB_3TYPE_enlarge w1 w2 w3 lft incr1 rgt incr2 ci candoff =
    cand_run (bin_cell (smin w1) (smin w2) (smin w3) (\<lambda>l r. Some (swrap w3 (arith w3 w2 (swrap w3 l - r)), 0)) lft incr1 rgt incr2) (smin w3) candoff ci"

definition sub_bte :: "tpe \<Rightarrow> tpe \<Rightarrow> bool \<Rightarrow> loop option" where
  "sub_bte tp2 tp abort_on_error =
    (case ATOMstorage tp2 of
       TYPE_bte \<Rightarrow> (case ATOMstorage tp of TYPE_bte \<Rightarrow> Some (SUB_3TYPE 8 8 8 abort_on_error) | TYPE_sht \<Rightarrow> Some (SUB_3TYPE_enlarge 8 8 16) | _ \<Rightarrow> None)
     | TYPE_sht \<Rightarrow> (case ATOMstorage tp of TYPE_sht \<Rightarrow> Some (SUB_3TYPE 8 16 16 abort_on_error) | TYPE_int \<Rightarrow> Some (SUB_3TYPE_enlarge 8 16 32) | _ \<Rightarrow> None)
     | TYPE_int \<Rightarrow> (case ATOMstorage tp of TYPE_int \<Rightarrow> Some (SUB_3TYPE 8 32 32 abort_on_error) | TYPE_lng \<Rightarrow> Some (SUB_3TYPE_enlarge 8 32 64) | _ \<Rightarrow> None)
     | TYPE_lng \<Rightarrow> (case ATOMstorage tp of TYPE_lng \<Rightarrow> Some (SUB_3TYPE 8 64 64 abort_on_error) | _ \<Rightarrow> None)
     | _ \<Rightarrow> None)"

definition sub_sht :: "tpe \<Rightarrow> tpe \<Rightarrow> bool \<Rightarrow> loop option" where
  "sub_sht tp2 tp abort_on_error =
    (case ATOMstorage tp2 of
       TYPE_bte \<Rightarrow> (case ATOMstorage tp of TYPE_sht \<Rightarrow> Some (SUB_3TYPE 16 8 16 abort_on_error) | TYPE_int \<Rightarrow> Some (SUB_3TYPE_enlarge 16 8 32) | _ \<Rightarrow> None)
     | TYPE_sht \<Rightarrow> (case ATOMstorage tp of TYPE_sht \<Rightarrow> Some (SUB_3TYPE 16 16 16 abort_on_error) | TYPE_int \<Rightarrow> Some (SUB_3TYPE_enlarge 16 16 32) | _ \<Rightarrow> None)
     | TYPE_int \<Rightarrow> (case ATOMstorage tp of TYPE_int \<Rightarrow> Some (SUB_3TYPE 16 32 32 abort_on_error) | TYPE_lng \<Rightarrow> Some (SUB_3TYPE_enlarge 16 32 64) | _ \<Rightarrow> None)
     | TYPE_lng \<Rightarrow> (case ATOMstorage tp of TYPE_lng \<Rightarrow> Some (SUB_3TYPE 16 64 64 abort_on_error) | _ \<Rightarrow> None)
     | _ \<Rightarrow> None)"

definition sub_int :: "tpe \<Rightarrow> tpe \<Rightarrow> bool \<Rightarrow> loop option" where
  "sub_int tp2 tp abort_on_error =
    (case ATOMstorage tp2 of
       TYPE_bte \<Rightarrow> (case ATOMstorage tp of TYPE_int \<Rightarrow> Some (SUB_3TYPE 32 8 32 abort_on_error) | TYPE_lng \<Rightarrow> Some (SUB_3TYPE_enlarge 32 8 64) | _ \<Rightarrow> None)
     | TYPE_sht \<Rightarrow> (case ATOMstorage tp of TYPE_int \<Rightarrow> Some (SUB_3TYPE 32 16 32 abort_on_error) | TYPE_lng \<Rightarrow> Some (SUB_3TYPE_enlarge 32 16 64) | _ \<Rightarrow> None)
     | TYPE_int \<Rightarrow> (case ATOMstorage tp of TYPE_int \<Rightarrow> Some (SUB_3TYPE 32 32 32 abort_on_error) | TYPE_lng \<Rightarrow> Some (SUB_3TYPE_enlarge 32 32 64) | _ \<Rightarrow> None)
     | TYPE_lng \<Rightarrow> (case ATOMstorage tp of TYPE_lng \<Rightarrow> Some (SUB_3TYPE 32 64 64 abort_on_error) | _ \<Rightarrow> None)
     | _ \<Rightarrow> None)"

definition sub_lng :: "tpe \<Rightarrow> tpe \<Rightarrow> bool \<Rightarrow> loop option" where
  "sub_lng tp2 tp abort_on_error =
    (case ATOMstorage tp2 of
       TYPE_bte \<Rightarrow> (case ATOMstorage tp of TYPE_lng \<Rightarrow> Some (SUB_3TYPE 64 8 64 abort_on_error) | _ \<Rightarrow> None)
     | TYPE_sht \<Rightarrow> (case ATOMstorage tp of TYPE_lng \<Rightarrow> Some (SUB_3TYPE 64 16 64 abort_on_error) | _ \<Rightarrow> None)
     | TYPE_int \<Rightarrow> (case ATOMstorage tp of TYPE_lng \<Rightarrow> Some (SUB_3TYPE 64 32 64 abort_on_error) | _ \<Rightarrow> None)
     | TYPE_lng \<Rightarrow> (case ATOMstorage tp of TYPE_lng \<Rightarrow> Some (SUB_3TYPE 64 64 64 abort_on_error) | _ \<Rightarrow> None)
     | _ \<Rightarrow> None)"

definition sub_switch :: "tpe \<Rightarrow> tpe \<Rightarrow> tpe \<Rightarrow> bool \<Rightarrow> loop option" where
  "sub_switch tp1 tp2 tp abort_on_error =
    (case ATOMstorage tp1 of
       TYPE_bte \<Rightarrow> sub_bte tp2 tp abort_on_error
     | TYPE_sht \<Rightarrow> sub_sht tp2 tp abort_on_error
     | TYPE_int \<Rightarrow> sub_int tp2 tp abort_on_error
     | TYPE_lng \<Rightarrow> sub_lng tp2 tp abort_on_error
     | _ \<Rightarrow> None)"

definition sub_typeswitchloop :: switchloop where
  "sub_typeswitchloop lft tp1 incr1 rgt tp2 incr2 tp ci candoff abort_on_error = do {
     loop \<leftarrow> sub_switch tp1 tp2 tp abort_on_error;
     loop lft incr1 rgt incr2 ci candoff
   }"

definition BATcalcsub :: "bat \<Rightarrow> bat \<Rightarrow> cands option \<Rightarrow> tpe \<Rightarrow> bool \<Rightarrow> bat option" where
  "BATcalcsub b1 b2 s tp abort_on_error =
    (if \<not> checkbats b1 (Some b2) then None
     else do {
       (dst, nils) \<leftarrow> sub_typeswitchloop (tvals b1) (ttype b1) 1 (tvals b2) (ttype b2) 1 tp
         (candinit b1 s) (hseq b1) abort_on_error;
       Some (bin_result tp (hseq b1) False False (dst, nils))
     })"

definition BATcalcsubcst :: "bat \<Rightarrow> tpe \<Rightarrow> int \<Rightarrow> cands option \<Rightarrow> tpe \<Rightarrow> bool \<Rightarrow> bat option" where
  "BATcalcsubcst b vt v s tp abort_on_error =
    (if \<not> checkbats b None then None
     else do {
       (dst, nils) \<leftarrow> sub_typeswitchloop (tvals b) (ttype b) 1 [v] vt 0 tp
         (candinit b s) (hseq b) abort_on_error;
       Some (bin_result tp (hseq b) (abort_on_error \<and> tsorted b) (abort_on_error \<and> trevsorted b) (dst, nils))
     })"

definition BATcalccstsub :: "tpe \<Rightarrow> int \<Rightarrow> bat \<Rightarrow> cands option \<Rightarrow> tpe \<Rightarrow> bool \<Rightarrow> bat option" where
  "BATcalccstsub vt v b s tp abort_on_error =
    (if \<not> checkbats b None then None
     else do {
       (dst, nils) \<leftarrow> sub_typeswitchloop [v] vt 0 (tvals b) (ttype b) 1 tp
         (candinit b s) (hseq b) abort_on_error;
       Some (bin_result tp (hseq b) (abort_on_error \<and> nils = 0 \<and> trevsorted b) (abort_on_error \<and> nils = 0 \<and> tsorted b) (dst, nils))
     })"

definition VARcalcsub :: "tpe \<Rightarrow> tpe \<Rightarrow> int \<Rightarrow> tpe \<Rightarrow> int \<Rightarrow> bool \<Rightarrow> int option" where
  "VARcalcsub tp lt lft rt rgt abort_on_error = do {
     (dst, nils) \<leftarrow> sub_typeswitchloop [lft] lt 0 [rgt] rt 0 tp one_row 0 abort_on_error;
     fetch dst 0
   }"

definition BATcalcdecr :: "bat \<Rightarrow> cands option \<Rightarrow> bool \<Rightarrow> (bat \<times> bat) option" where
  "BATcalcdecr b s abort_on_error =
    (if \<not> checkbats b None then None
     else do {
       (dst, nils) \<leftarrow> sub_typeswitchloop (tvals b) (ttype b) 1 [1] TYPE_bte 0 (ttype b)
         (candinit b s) (hseq b) abort_on_error;
       Some (bin_result (ttype b) (hseq b) (abort_on_error \<and> tsorted b) (abort_on_error \<and> trevsorted b) (dst, nils),
         note_nils nils b)
     })"

definition VARcalcdecr :: "tpe \<Rightarrow> tpe \<Rightarrow> int \<Rightarrow> bool \<Rightarrow> int option" where
  "VARcalcdecr tp vt v abort_on_error = do {
     (dst, nils) \<leftarrow> sub_typeswitchloop [v] vt 0 [1] TYPE_bte 0 tp one_row 0 abort_on_error;
     fetch dst 0
   }"

subsection \<open>Multiplication\<close>

text \<open>The product is computed in a type of \<open>w4\<close> bits.\<close>

definition MUL4_WITH_CHECK :: "nat \<Rightarrow> nat \<Rightarrow> nat \<Rightarrow> nat \<Rightarrow> bool \<Rightarrow> int \<Rightarrow> int \<Rightarrow> cell" where
  "MUL4_WITH_CHECK w1 w2 w3 w4 abort_on_error lft rgt =
    (let c = swrap w4 (arith w4 w2 (swrap w4 lft * rgt))
     in if c \<le> swrap w4 (smin w3) \<or> c > swrap w4 (smax w3) then overflow w3 abort_on_error
        else Some (swrap w3 c, 0))"

definition MUL_4TYPE :: "nat \<Rightarrow> nat \<Rightarrow> nat \<Rightarrow> nat \<Rightarrow> bool \<Rightarrow> loop" where
  "MUL_4TYPE w1 w2 w3 w4 abort_on_error lft incr1 rgt incr2 ci candoff =
    cand_run (bin_cell (smin w1) (smin w2) (smin w3) (MUL4_WITH_CHECK w1 w2 w3 w4 abort_on_error) lft incr1 rgt incr2) (smin w3) candoff ci"

definition MUL_3TYPE_enlarge :: "nat \<Rightarrow> nat \<Rightarrow> nat \<Rightarrow> loop" where
  "MUL_3TYPE_enlarge w1 w2 w3 lft incr1 rgt incr2 ci candoff =
    cand_run (bin_cell (smin w1) (smin w2) (smin w3) (\<lambda>l r. Some (swrap w3 (arith w3 w2 (swrap w3 l * r)), 0)) lft incr1 rgt incr2) (smin w3) candoff ci"

text \<open>
  The product in a type of 64 bits where the compiler has no type of 128 bits: the halves of the
  absolute values are multiplied.  \<open>u32\<close> and \<open>u64\<close> are the unsigned types.
\<close>

definition u32 :: "int \<Rightarrow> int" where "u32 x = x mod 2 ^ 32"
definition u64 :: "int \<Rightarrow> int" where "u64 x = x mod 2 ^ 64"

definition LNGMUL_CHECK :: "bool \<Rightarrow> int \<Rightarrow> int \<Rightarrow> cell" where
  "LNGMUL_CHECK abort_on_error lft rgt =
    (let (sign, a) = (if lft < 0 then (- 1, i64 (- lft)) else (1, lft));
         (sign, b) = (if rgt < 0 then (- sign, i64 (- rgt)) else (sign, rgt));
         a1 = u32 (drop_bit 32 a); a2 = u32 a;
         b1 = u32 (drop_bit 32 b); b2 = u32 b;
         c = u64 (u64 (a1 * b2) + u64 (a2 * b1));
         d = u64 (u64 (push_bit 32 c) + u64 (a2 * b2))
     in if (a1 = 0 \<or> b1 = 0) \<and> c AND u64 (push_bit 31 (u64 (NOT 0))) = 0 \<and> d AND u64 (push_bit 63 1) = 0
        then Some (i64 (sign * i64 d), 0)
        else overflow 64 abort_on_error)"

definition MUL_2TYPE_lng :: "nat \<Rightarrow> nat \<Rightarrow> bool \<Rightarrow> loop" where
  "MUL_2TYPE_lng w1 w2 abort_on_error lft incr1 rgt incr2 ci candoff =
    cand_run (bin_cell (smin w1) (smin w2) (smin 64) (LNGMUL_CHECK abort_on_error) lft incr1 rgt incr2) (smin 64) candoff ci"

definition mul_bte :: "tpe \<Rightarrow> tpe \<Rightarrow> bool \<Rightarrow> loop option" where
  "mul_bte tp2 tp abort_on_error =
    (case ATOMstorage tp2 of
       TYPE_bte \<Rightarrow> (case ATOMstorage tp of TYPE_bte \<Rightarrow> Some (MUL_4TYPE 8 8 8 16 abort_on_error) | TYPE_sht \<Rightarrow> Some (MUL_3TYPE_enlarge 8 8 16) | _ \<Rightarrow> None)
     | TYPE_sht \<Rightarrow> (case ATOMstorage tp of TYPE_sht \<Rightarrow> Some (MUL_4TYPE 8 16 16 32 abort_on_error) | TYPE_int \<Rightarrow> Some (MUL_3TYPE_enlarge 8 16 32) | _ \<Rightarrow> None)
     | TYPE_int \<Rightarrow> (case ATOMstorage tp of TYPE_int \<Rightarrow> Some (MUL_4TYPE 8 32 32 64 abort_on_error) | TYPE_lng \<Rightarrow> Some (MUL_3TYPE_enlarge 8 32 64) | _ \<Rightarrow> None)
     | TYPE_lng \<Rightarrow> (case ATOMstorage tp of TYPE_lng \<Rightarrow> Some (MUL_4TYPE 8 64 64 128 abort_on_error) | _ \<Rightarrow> None)
     | _ \<Rightarrow> None)"

definition mul_sht :: "tpe \<Rightarrow> tpe \<Rightarrow> bool \<Rightarrow> loop option" where
  "mul_sht tp2 tp abort_on_error =
    (case ATOMstorage tp2 of
       TYPE_bte \<Rightarrow> (case ATOMstorage tp of TYPE_sht \<Rightarrow> Some (MUL_4TYPE 16 8 16 32 abort_on_error) | TYPE_int \<Rightarrow> Some (MUL_3TYPE_enlarge 16 8 32) | _ \<Rightarrow> None)
     | TYPE_sht \<Rightarrow> (case ATOMstorage tp of TYPE_sht \<Rightarrow> Some (MUL_4TYPE 16 16 16 32 abort_on_error) | TYPE_int \<Rightarrow> Some (MUL_3TYPE_enlarge 16 16 32) | _ \<Rightarrow> None)
     | TYPE_int \<Rightarrow> (case ATOMstorage tp of TYPE_int \<Rightarrow> Some (MUL_4TYPE 16 32 32 64 abort_on_error) | TYPE_lng \<Rightarrow> Some (MUL_3TYPE_enlarge 16 32 64) | _ \<Rightarrow> None)
     | TYPE_lng \<Rightarrow> (case ATOMstorage tp of TYPE_lng \<Rightarrow> Some (MUL_4TYPE 16 64 64 128 abort_on_error) | _ \<Rightarrow> None)
     | _ \<Rightarrow> None)"

definition mul_int :: "tpe \<Rightarrow> tpe \<Rightarrow> bool \<Rightarrow> loop option" where
  "mul_int tp2 tp abort_on_error =
    (case ATOMstorage tp2 of
       TYPE_bte \<Rightarrow> (case ATOMstorage tp of TYPE_int \<Rightarrow> Some (MUL_4TYPE 32 8 32 64 abort_on_error) | TYPE_lng \<Rightarrow> Some (MUL_3TYPE_enlarge 32 8 64) | _ \<Rightarrow> None)
     | TYPE_sht \<Rightarrow> (case ATOMstorage tp of TYPE_int \<Rightarrow> Some (MUL_4TYPE 32 16 32 64 abort_on_error) | TYPE_lng \<Rightarrow> Some (MUL_3TYPE_enlarge 32 16 64) | _ \<Rightarrow> None)
     | TYPE_int \<Rightarrow> (case ATOMstorage tp of TYPE_int \<Rightarrow> Some (MUL_4TYPE 32 32 32 64 abort_on_error) | TYPE_lng \<Rightarrow> Some (MUL_3TYPE_enlarge 32 32 64) | _ \<Rightarrow> None)
     | TYPE_lng \<Rightarrow> (case ATOMstorage tp of TYPE_lng \<Rightarrow> Some (MUL_4TYPE 32 64 64 128 abort_on_error) | _ \<Rightarrow> None)
     | _ \<Rightarrow> None)"

definition mul_lng :: "tpe \<Rightarrow> tpe \<Rightarrow> bool \<Rightarrow> loop option" where
  "mul_lng tp2 tp abort_on_error =
    (case ATOMstorage tp2 of
       TYPE_bte \<Rightarrow> (case ATOMstorage tp of TYPE_lng \<Rightarrow> Some (MUL_4TYPE 64 8 64 128 abort_on_error) | _ \<Rightarrow> None)
     | TYPE_sht \<Rightarrow> (case ATOMstorage tp of TYPE_lng \<Rightarrow> Some (MUL_4TYPE 64 16 64 128 abort_on_error) | _ \<Rightarrow> None)
     | TYPE_int \<Rightarrow> (case ATOMstorage tp of TYPE_lng \<Rightarrow> Some (MUL_4TYPE 64 32 64 128 abort_on_error) | _ \<Rightarrow> None)
     | TYPE_lng \<Rightarrow> (case ATOMstorage tp of TYPE_lng \<Rightarrow> Some (MUL_4TYPE 64 64 64 128 abort_on_error) | _ \<Rightarrow> None)
     | _ \<Rightarrow> None)"

definition mul_switch :: "tpe \<Rightarrow> tpe \<Rightarrow> tpe \<Rightarrow> bool \<Rightarrow> loop option" where
  "mul_switch tp1 tp2 tp abort_on_error =
    (case ATOMstorage tp1 of
       TYPE_bte \<Rightarrow> mul_bte tp2 tp abort_on_error
     | TYPE_sht \<Rightarrow> mul_sht tp2 tp abort_on_error
     | TYPE_int \<Rightarrow> mul_int tp2 tp abort_on_error
     | TYPE_lng \<Rightarrow> mul_lng tp2 tp abort_on_error
     | _ \<Rightarrow> None)"

definition mul_typeswitchloop :: switchloop where
  "mul_typeswitchloop lft tp1 incr1 rgt tp2 incr2 tp ci candoff abort_on_error = do {
     loop \<leftarrow> mul_switch tp1 tp2 tp abort_on_error;
     loop lft incr1 rgt incr2 ci candoff
   }"

definition BATcalcmul :: "bat \<Rightarrow> bat \<Rightarrow> cands option \<Rightarrow> tpe \<Rightarrow> bool \<Rightarrow> bat option" where
  "BATcalcmul b1 b2 s tp abort_on_error =
    (if \<not> checkbats b1 (Some b2) then None
     else do {
       (dst, nils) \<leftarrow> mul_typeswitchloop (tvals b1) (ttype b1) 1 (tvals b2) (ttype b2) 1 tp
         (candinit b1 s) (hseq b1) abort_on_error;
       Some (bin_result tp (hseq b1) False False (dst, nils))
     })"

definition BATcalcmulcst :: "bat \<Rightarrow> tpe \<Rightarrow> int \<Rightarrow> cands option \<Rightarrow> tpe \<Rightarrow> bool \<Rightarrow> bat option" where
  "BATcalcmulcst b vt v s tp abort_on_error =
    (if \<not> checkbats b None then None
     else do {
       (dst, nils) \<leftarrow> mul_typeswitchloop (tvals b) (ttype b) 1 [v] vt 0 tp
         (candinit b s) (hseq b) abort_on_error;
       sign \<leftarrow> (case VARcalcsign vt v of Some (t, x) \<Rightarrow> Some x | None \<Rightarrow> None);
       Some (bin_result tp (hseq b) (abort_on_error \<and> (sign \<ge> 0 \<and> tsorted b \<or> sign \<le> 0 \<and> trevsorted b \<and> nils = 0)) (abort_on_error \<and> (sign \<ge> 0 \<and> trevsorted b \<or> sign \<le> 0 \<and> tsorted b \<and> nils = 0)) (dst, nils))
     })"

definition BATcalccstmul :: "tpe \<Rightarrow> int \<Rightarrow> bat \<Rightarrow> cands option \<Rightarrow> tpe \<Rightarrow> bool \<Rightarrow> bat option" where
  "BATcalccstmul vt v b s tp abort_on_error =
    (if \<not> checkbats b None then None
     else do {
       (dst, nils) \<leftarrow> mul_typeswitchloop [v] vt 0 (tvals b) (ttype b) 1 tp
         (candinit b s) (hseq b) abort_on_error;
       sign \<leftarrow> (case VARcalcsign vt v of Some (t, x) \<Rightarrow> Some x | None \<Rightarrow> None);
       Some (bin_result tp (hseq b) (abort_on_error \<and> (sign \<ge> 0 \<and> tsorted b \<or> sign \<le> 0 \<and> trevsorted b \<and> nils = 0)) (abort_on_error \<and> (sign \<ge> 0 \<and> trevsorted b \<or> sign \<le> 0 \<and> tsorted b \<and> nils = 0)) (dst, nils))
     })"

definition VARcalcmul :: "tpe \<Rightarrow> tpe \<Rightarrow> int \<Rightarrow> tpe \<Rightarrow> int \<Rightarrow> bool \<Rightarrow> int option" where
  "VARcalcmul tp lt lft rt rgt abort_on_error = do {
     (dst, nils) \<leftarrow> mul_typeswitchloop [lft] lt 0 [rgt] rt 0 tp one_row 0 abort_on_error;
     fetch dst 0
   }"

subsection \<open>Division\<close>

definition DIV_3TYPE :: "nat \<Rightarrow> nat \<Rightarrow> nat \<Rightarrow> bool \<Rightarrow> loop" where
  "DIV_3TYPE w1 w2 w3 abort_on_error lft incr1 rgt incr2 ci candoff =
    cand_run (bin_cell (smin w1) (smin w2) (smin w3) (\<lambda>l r. if r = 0 then overflow w3 abort_on_error else Some (swrap w3 (arith w1 w2 (l sdiv r)), 0)) lft incr1 rgt incr2) (smin w3) candoff ci"

definition div_bte :: "tpe \<Rightarrow> tpe \<Rightarrow> bool \<Rightarrow> loop option" where
  "div_bte tp2 tp abort_on_error =
    (case ATOMstorage tp2 of
       TYPE_bte \<Rightarrow> (case ATOMstorage tp of TYPE_bte \<Rightarrow> Some (DIV_3TYPE 8 8 8 abort_on_error) | _ \<Rightarrow> None)
     | TYPE_sht \<Rightarrow> (case ATOMstorage tp of TYPE_bte \<Rightarrow> Some (DIV_3TYPE 8 16 8 abort_on_error) | _ \<Rightarrow> None)
     | TYPE_int \<Rightarrow> (case ATOMstorage tp of TYPE_bte \<Rightarrow> Some (DIV_3TYPE 8 32 8 abort_on_error) | _ \<Rightarrow> None)
     | TYPE_lng \<Rightarrow> (case ATOMstorage tp of TYPE_bte \<Rightarrow> Some (DIV_3TYPE 8 64 8 abort_on_error) | _ \<Rightarrow> None)
     | _ \<Rightarrow> None)"

definition div_sht :: "tpe \<Rightarrow> tpe \<Rightarrow> bool \<Rightarrow> loop option" where
  "div_sht tp2 tp abort_on_error =
    (case ATOMstorage tp2 of
       TYPE_bte \<Rightarrow> (case ATOMstorage tp of TYPE_sht \<Rightarrow> Some (DIV_3TYPE 16 8 16 abort_on_error) | _ \<Rightarrow> None)
     | TYPE_sht \<Rightarrow> (case ATOMstorage tp of TYPE_sht \<Rightarrow> Some (DIV_3TYPE 16 16 16 abort_on_error) | _ \<Rightarrow> None)
     | TYPE_int \<Rightarrow> (case ATOMstorage tp of TYPE_sht \<Rightarrow> Some (DIV_3TYPE 16 32 16 abort_on_error) | _ \<Rightarrow> None)
     | TYPE_lng \<Rightarrow> (case ATOMstorage tp of TYPE_sht \<Rightarrow> Some (DIV_3TYPE 16 64 16 abort_on_error) | _ \<Rightarrow> None)
     | _ \<Rightarrow> None)"

definition div_int :: "tpe \<Rightarrow> tpe \<Rightarrow> bool \<Rightarrow> loop option" where
  "div_int tp2 tp abort_on_error =
    (case ATOMstorage tp2 of
       TYPE_bte \<Rightarrow> (case ATOMstorage tp of TYPE_int \<Rightarrow> Some (DIV_3TYPE 32 8 32 abort_on_error) | _ \<Rightarrow> None)
     | TYPE_sht \<Rightarrow> (case ATOMstorage tp of TYPE_int \<Rightarrow> Some (DIV_3TYPE 32 16 32 abort_on_error) | _ \<Rightarrow> None)
     | TYPE_int \<Rightarrow> (case ATOMstorage tp of TYPE_int \<Rightarrow> Some (DIV_3TYPE 32 32 32 abort_on_error) | _ \<Rightarrow> None)
     | TYPE_lng \<Rightarrow> (case ATOMstorage tp of TYPE_int \<Rightarrow> Some (DIV_3TYPE 32 64 32 abort_on_error) | _ \<Rightarrow> None)
     | _ \<Rightarrow> None)"

definition div_lng :: "tpe \<Rightarrow> tpe \<Rightarrow> bool \<Rightarrow> loop option" where
  "div_lng tp2 tp abort_on_error =
    (case ATOMstorage tp2 of
       TYPE_bte \<Rightarrow> (case ATOMstorage tp of TYPE_lng \<Rightarrow> Some (DIV_3TYPE 64 8 64 abort_on_error) | _ \<Rightarrow> None)
     | TYPE_sht \<Rightarrow> (case ATOMstorage tp of TYPE_lng \<Rightarrow> Some (DIV_3TYPE 64 16 64 abort_on_error) | _ \<Rightarrow> None)
     | TYPE_int \<Rightarrow> (case ATOMstorage tp of TYPE_lng \<Rightarrow> Some (DIV_3TYPE 64 32 64 abort_on_error) | _ \<Rightarrow> None)
     | TYPE_lng \<Rightarrow> (case ATOMstorage tp of TYPE_lng \<Rightarrow> Some (DIV_3TYPE 64 64 64 abort_on_error) | _ \<Rightarrow> None)
     | _ \<Rightarrow> None)"

definition div_switch :: "tpe \<Rightarrow> tpe \<Rightarrow> tpe \<Rightarrow> bool \<Rightarrow> loop option" where
  "div_switch tp1 tp2 tp abort_on_error =
    (case ATOMstorage tp1 of
       TYPE_bte \<Rightarrow> div_bte tp2 tp abort_on_error
     | TYPE_sht \<Rightarrow> div_sht tp2 tp abort_on_error
     | TYPE_int \<Rightarrow> div_int tp2 tp abort_on_error
     | TYPE_lng \<Rightarrow> div_lng tp2 tp abort_on_error
     | _ \<Rightarrow> None)"

definition div_typeswitchloop :: switchloop where
  "div_typeswitchloop lft tp1 incr1 rgt tp2 incr2 tp ci candoff abort_on_error = do {
     loop \<leftarrow> div_switch tp1 tp2 tp abort_on_error;
     loop lft incr1 rgt incr2 ci candoff
   }"

text \<open>\<^verbatim>\<open>BATcalcdivcst\<close> computes order properties from the sign of the constant, but then overwrites them.\<close>

definition BATcalcdiv :: "bat \<Rightarrow> bat \<Rightarrow> cands option \<Rightarrow> tpe \<Rightarrow> bool \<Rightarrow> bat option" where
  "BATcalcdiv b1 b2 s tp abort_on_error =
    (if \<not> checkbats b1 (Some b2) then None
     else do {
       (dst, nils) \<leftarrow> div_typeswitchloop (tvals b1) (ttype b1) 1 (tvals b2) (ttype b2) 1 tp
         (candinit b1 s) (hseq b1) abort_on_error;
       Some (bin_result tp (hseq b1) False False (dst, nils))
     })"

definition BATcalcdivcst :: "bat \<Rightarrow> tpe \<Rightarrow> int \<Rightarrow> cands option \<Rightarrow> tpe \<Rightarrow> bool \<Rightarrow> bat option" where
  "BATcalcdivcst b vt v s tp abort_on_error =
    (if \<not> checkbats b None then None
     else do {
       (dst, nils) \<leftarrow> div_typeswitchloop (tvals b) (ttype b) 1 [v] vt 0 tp
         (candinit b s) (hseq b) abort_on_error;
       Some (bin_result tp (hseq b) False False (dst, nils))
     })"

definition BATcalccstdiv :: "tpe \<Rightarrow> int \<Rightarrow> bat \<Rightarrow> cands option \<Rightarrow> tpe \<Rightarrow> bool \<Rightarrow> bat option" where
  "BATcalccstdiv vt v b s tp abort_on_error =
    (if \<not> checkbats b None then None
     else do {
       (dst, nils) \<leftarrow> div_typeswitchloop [v] vt 0 (tvals b) (ttype b) 1 tp
         (candinit b s) (hseq b) abort_on_error;
       Some (bin_result tp (hseq b) False False (dst, nils))
     })"

definition VARcalcdiv :: "tpe \<Rightarrow> tpe \<Rightarrow> int \<Rightarrow> tpe \<Rightarrow> int \<Rightarrow> bool \<Rightarrow> int option" where
  "VARcalcdiv tp lt lft rt rgt abort_on_error = do {
     (dst, nils) \<leftarrow> div_typeswitchloop [lft] lt 0 [rgt] rt 0 tp one_row 0 abort_on_error;
     fetch dst 0
   }"

subsection \<open>Remainder\<close>

text \<open>
  The left argument is converted to the result type before the remainder is taken.  The
  smallest value of the type the machine computes in, divided by -1, is a trap, also when only
  the remainder is wanted: \<^const>\<open>None\<close>, whether errors are to be reported or not.
\<close>

definition MOD_3TYPE :: "nat \<Rightarrow> nat \<Rightarrow> nat \<Rightarrow> bool \<Rightarrow> loop" where
  "MOD_3TYPE w1 w2 w3 abort_on_error lft incr1 rgt incr2 ci candoff =
    cand_run (bin_cell (smin w1) (smin w2) (smin w3) (\<lambda>l r.
      if r = 0 then overflow w3 abort_on_error
      else if swrap w3 l = smin (max 32 (max w3 w2)) \<and> r = - 1 then None
      else Some (swrap w3 (arith w3 w2 (swrap w3 l smod r)), 0)) lft incr1 rgt incr2) (smin w3) candoff ci"

definition mod_bte :: "tpe \<Rightarrow> tpe \<Rightarrow> bool \<Rightarrow> loop option" where
  "mod_bte tp2 tp abort_on_error =
    (case ATOMstorage tp2 of
       TYPE_bte \<Rightarrow> (case ATOMstorage tp of TYPE_bte \<Rightarrow> Some (MOD_3TYPE 8 8 8 abort_on_error) | _ \<Rightarrow> None)
     | TYPE_sht \<Rightarrow> (case ATOMstorage tp of TYPE_bte \<Rightarrow> Some (MOD_3TYPE 8 16 8 abort_on_error) | _ \<Rightarrow> None)
     | TYPE_int \<Rightarrow> (case ATOMstorage tp of TYPE_bte \<Rightarrow> Some (MOD_3TYPE 8 32 8 abort_on_error) | _ \<Rightarrow> None)
     | TYPE_lng \<Rightarrow> (case ATOMstorage tp of TYPE_bte \<Rightarrow> Some (MOD_3TYPE 8 64 8 abort_on_error) | _ \<Rightarrow> None)
     | _ \<Rightarrow> None)"

definition mod_sht :: "tpe \<Rightarrow> tpe \<Rightarrow> bool \<Rightarrow> loop option" where
  "mod_sht tp2 tp abort_on_error =
    (case ATOMstorage tp2 of
       TYPE_bte \<Rightarrow> (case ATOMstorage tp of TYPE_bte \<Rightarrow> Some (MOD_3TYPE 16 8 8 abort_on_error) | _ \<Rightarrow> None)
     | TYPE_sht \<Rightarrow> (case ATOMstorage tp of TYPE_sht \<Rightarrow> Some (MOD_3TYPE 16 16 16 abort_on_error) | _ \<Rightarrow> None)
     | TYPE_int \<Rightarrow> (case ATOMstorage tp of TYPE_sht \<Rightarrow> Some (MOD_3TYPE 16 32 16 abort_on_error) | _ \<Rightarrow> None)
     | TYPE_lng \<Rightarrow> (case ATOMstorage tp of TYPE_sht \<Rightarrow> Some (MOD_3TYPE 16 64 16 abort_on_error) | _ \<Rightarrow> None)
     | _ \<Rightarrow> None)"

definition mod_int :: "tpe \<Rightarrow> tpe \<Rightarrow> bool \<Rightarrow> loop option" where
  "mod_int tp2 tp abort_on_error =
    (case ATOMstorage tp2 of
       TYPE_bte \<Rightarrow> (case ATOMstorage tp of TYPE_bte \<Rightarrow> Some (MOD_3TYPE 32 8 8 abort_on_error) | _ \<Rightarrow> None)
     | TYPE_sht \<Rightarrow> (case ATOMstorage tp of TYPE_sht \<Rightarrow> Some (MOD_3TYPE 32 16 16 abort_on_error) | _ \<Rightarrow> None)
     | TYPE_int \<Rightarrow> (case ATOMstorage tp of TYPE_int \<Rightarrow> Some (MOD_3TYPE 32 32 32 abort_on_error) | _ \<Rightarrow> None)
     | TYPE_lng \<Rightarrow> (case ATOMstorage tp of TYPE_int \<Rightarrow> Some (MOD_3TYPE 32 64 32 abort_on_error) | _ \<Rightarrow> None)
     | _ \<Rightarrow> None)"

definition mod_lng :: "tpe \<Rightarrow> tpe \<Rightarrow> bool \<Rightarrow> loop option" where
  "mod_lng tp2 tp abort_on_error =
    (case ATOMstorage tp2 of
       TYPE_bte \<Rightarrow> (case ATOMstorage tp of TYPE_bte \<Rightarrow> Some (MOD_3TYPE 64 8 8 abort_on_error) | _ \<Rightarrow> None)
     | TYPE_sht \<Rightarrow> (case ATOMstorage tp of TYPE_sht \<Rightarrow> Some (MOD_3TYPE 64 16 16 abort_on_error) | _ \<Rightarrow> None)
     | TYPE_int \<Rightarrow> (case ATOMstorage tp of TYPE_int \<Rightarrow> Some (MOD_3TYPE 64 32 32 abort_on_error) | _ \<Rightarrow> None)
     | TYPE_lng \<Rightarrow> (case ATOMstorage tp of TYPE_lng \<Rightarrow> Some (MOD_3TYPE 64 64 64 abort_on_error) | _ \<Rightarrow> None)
     | _ \<Rightarrow> None)"

definition mod_switch :: "tpe \<Rightarrow> tpe \<Rightarrow> tpe \<Rightarrow> bool \<Rightarrow> loop option" where
  "mod_switch tp1 tp2 tp abort_on_error =
    (case ATOMstorage tp1 of
       TYPE_bte \<Rightarrow> mod_bte tp2 tp abort_on_error
     | TYPE_sht \<Rightarrow> mod_sht tp2 tp abort_on_error
     | TYPE_int \<Rightarrow> mod_int tp2 tp abort_on_error
     | TYPE_lng \<Rightarrow> mod_lng tp2 tp abort_on_error
     | _ \<Rightarrow> None)"

definition mod_typeswitchloop :: switchloop where
  "mod_typeswitchloop lft tp1 incr1 rgt tp2 incr2 tp ci candoff abort_on_error = do {
     loop \<leftarrow> mod_switch tp1 tp2 tp abort_on_error;
     loop lft incr1 rgt incr2 ci candoff
   }"

definition BATcalcmod :: "bat \<Rightarrow> bat \<Rightarrow> cands option \<Rightarrow> tpe \<Rightarrow> bool \<Rightarrow> bat option" where
  "BATcalcmod b1 b2 s tp abort_on_error =
    (if \<not> checkbats b1 (Some b2) then None
     else do {
       (dst, nils) \<leftarrow> mod_typeswitchloop (tvals b1) (ttype b1) 1 (tvals b2) (ttype b2) 1 tp
         (candinit b1 s) (hseq b1) abort_on_error;
       Some (bin_result tp (hseq b1) False False (dst, nils))
     })"

definition BATcalcmodcst :: "bat \<Rightarrow> tpe \<Rightarrow> int \<Rightarrow> cands option \<Rightarrow> tpe \<Rightarrow> bool \<Rightarrow> bat option" where
  "BATcalcmodcst b vt v s tp abort_on_error =
    (if \<not> checkbats b None then None
     else do {
       (dst, nils) \<leftarrow> mod_typeswitchloop (tvals b) (ttype b) 1 [v] vt 0 tp
         (candinit b s) (hseq b) abort_on_error;
       Some (bin_result tp (hseq b) False False (dst, nils))
     })"

definition BATcalccstmod :: "tpe \<Rightarrow> int \<Rightarrow> bat \<Rightarrow> cands option \<Rightarrow> tpe \<Rightarrow> bool \<Rightarrow> bat option" where
  "BATcalccstmod vt v b s tp abort_on_error =
    (if \<not> checkbats b None then None
     else do {
       (dst, nils) \<leftarrow> mod_typeswitchloop [v] vt 0 (tvals b) (ttype b) 1 tp
         (candinit b s) (hseq b) abort_on_error;
       Some (bin_result tp (hseq b) False False (dst, nils))
     })"

definition VARcalcmod :: "tpe \<Rightarrow> tpe \<Rightarrow> int \<Rightarrow> tpe \<Rightarrow> int \<Rightarrow> bool \<Rightarrow> int option" where
  "VARcalcmod tp lt lft rt rgt abort_on_error = do {
     (dst, nils) \<leftarrow> mod_typeswitchloop [lft] lt 0 [rgt] rt 0 tp one_row 0 abort_on_error;
     fetch dst 0
   }"

end
