(* ===== verification/Gdk_Arith_Exact.thy ===== *)
theory Gdk_Arith_Exact
  imports Gdk_Calc_Arith
begin

unbundle bit_operations_syntax

text \<open>
  The overflow checks of addition, subtraction and multiplication, division and remainder compute
  the exact result or report that it does not fit; the operators are interpretations of the
  contract \<open>binary_op\<close>.  The product of 64 bit numbers from 32 bit halves is shown equal to the one
  in 128 bits.
\<close>

subsection \<open>The supported type combinations\<close>

text \<open>
  For sums, differences and products the result has the size of the larger argument or twice
  that size; a quotient has the type of the dividend and a remainder the smaller type.
\<close>

definition sum_type :: "tpe \<Rightarrow> tpe \<Rightarrow> tpe \<Rightarrow> bool" where
  "sum_type tp1 tp2 tp \<longleftrightarrow> tp1 \<noteq> TYPE_other \<and> tp2 \<noteq> TYPE_other \<and>
    (width tp = max (width tp1) (width tp2) \<or> width tp = 2 * max (width tp1) (width tp2))"

definition div_type :: "tpe \<Rightarrow> tpe \<Rightarrow> tpe \<Rightarrow> bool" where
  "div_type tp1 tp2 tp \<longleftrightarrow> tp1 \<noteq> TYPE_other \<and> tp2 \<noteq> TYPE_other \<and> width tp = width tp1"

definition mod_type :: "tpe \<Rightarrow> tpe \<Rightarrow> tpe \<Rightarrow> bool" where
  "mod_type tp1 tp2 tp \<longleftrightarrow> tp1 \<noteq> TYPE_other \<and> tp2 \<noteq> TYPE_other \<and> width tp = min (width tp1) (width tp2)"

lemmas add_tables = add_switch_def add_bte_def add_sht_def add_int_def add_lng_def
lemmas sub_tables = sub_switch_def sub_bte_def sub_sht_def sub_int_def sub_lng_def
lemmas mul_tables = mul_switch_def mul_bte_def mul_sht_def mul_int_def mul_lng_def
lemmas div_tables = div_switch_def div_bte_def div_sht_def div_int_def div_lng_def
lemmas mod_tables = mod_switch_def mod_bte_def mod_sht_def mod_int_def mod_lng_def

lemma add_switch_eq:
  "add_switch tp1 tp2 tp ab = (if sum_type tp1 tp2 tp
    then Some (if width tp = max (width tp1) (width tp2) then ADD_3TYPE (width tp1) (width tp2) (width tp) ab
               else ADD_3TYPE_enlarge (width tp1) (width tp2) (width tp)) else None)"
  by (cases tp1; cases tp2; cases tp) (simp_all add: add_tables sum_type_def ATOMstorage_def)

lemma sub_switch_eq:
  "sub_switch tp1 tp2 tp ab = (if sum_type tp1 tp2 tp
    then Some (if width tp = max (width tp1) (width tp2) then SUB_3TYPE (width tp1) (width tp2) (width tp) ab
               else SUB_3TYPE_enlarge (width tp1) (width tp2) (width tp)) else None)"
  by (cases tp1; cases tp2; cases tp) (simp_all add: sub_tables sum_type_def ATOMstorage_def)

lemma mul_switch_eq:
  "mul_switch tp1 tp2 tp ab = (if sum_type tp1 tp2 tp
    then Some (if width tp = max (width tp1) (width tp2) then MUL_4TYPE (width tp1) (width tp2) (width tp) (2 * width tp) ab
               else MUL_3TYPE_enlarge (width tp1) (width tp2) (width tp)) else None)"
  by (cases tp1; cases tp2; cases tp) (simp_all add: mul_tables sum_type_def ATOMstorage_def)

lemma div_switch_eq:
  "div_switch tp1 tp2 tp ab =
    (if div_type tp1 tp2 tp then Some (DIV_3TYPE (width tp1) (width tp2) (width tp) ab) else None)"
  by (cases tp1; cases tp2; cases tp) (simp_all add: div_tables div_type_def ATOMstorage_def)

lemma mod_switch_eq:
  "mod_switch tp1 tp2 tp ab =
    (if mod_type tp1 tp2 tp then Some (MOD_3TYPE (width tp1) (width tp2) (width tp) ab) else None)"
  by (cases tp1; cases tp2; cases tp) (simp_all add: mod_tables mod_type_def ATOMstorage_def)

subsection \<open>The checks are exact\<close>

definition fit :: "nat \<Rightarrow> int \<Rightarrow> int option" where
  "fit w x = (if smin w < x \<and> x \<le> smax w then Some x else None)"

abbreviation checked :: "nat \<Rightarrow> bool \<Rightarrow> int \<Rightarrow> cell" where
  "checked w ab x \<equiv> (case fit w x of Some v \<Rightarrow> Some (v, 0) | None \<Rightarrow> overflow w ab)"

lemma arith_id: "smin w \<le> x \<Longrightarrow> x \<le> smax w \<Longrightarrow> w \<le> max 32 (max w1 w2) \<Longrightarrow> arith w1 w2 x = x"
  unfolding arith_def using smin_mono [of w "max 32 (max w1 w2)"] smax_mono [of w "max 32 (max w1 w2)"]
  by (intro swrap_id) auto

text \<open>A value other than nil of a narrower type.\<close>

lemma widen: "smin v < x \<Longrightarrow> x \<le> smax v \<Longrightarrow> v \<le> w \<Longrightarrow> smin w < x \<and> x \<le> smax w"
  using smin_mono [of v w] smax_mono [of v w] by linarith

lemma ADD_exact:
  assumes "0 < w3" "smin w3 < l" "l \<le> smax w3" "smin w3 < r" "r \<le> smax w3"
  shows "ADD_WITH_CHECK w1 w2 w3 ab l r = checked w3 ab (l + r)"
proof -
  have s: "swrap w3 l = l" using assms by (intro swrap_id) auto
  have sum: "swrap w3 (arith w3 w2 (l + r)) = l + r" if "smin w3 < l + r" "l + r \<le> smax w3"
    using that assms(1) by (subst arith_id [of w3]) (auto intro: swrap_id)
  show ?thesis
  proof (cases "r < 1")
    case True
    then have "arith w3 w2 (smin w3 - r) = smin w3 - r"
      using assms smin_neg [of w3] smax_smin [of w3] by (intro arith_id [of w3]) auto
    then show ?thesis
      using True s sum assms by (auto simp: ADD_WITH_CHECK_def fit_def)
  next
    case False
    then have "arith w3 w2 (smax w3 - r) = smax w3 - r"
      using assms smin_neg [of w3] smax_smin [of w3] by (intro arith_id [of w3]) auto
    then show ?thesis
      using False s sum assms by (auto simp: ADD_WITH_CHECK_def fit_def)
  qed
qed

lemma SUB_exact:
  assumes "0 < w3" "smin w3 < l" "l \<le> smax w3" "smin w3 < r" "r \<le> smax w3"
  shows "SUB_WITH_CHECK w1 w2 w3 ab l r = checked w3 ab (l - r)"
proof -
  have s: "swrap w3 l = l" using assms by (intro swrap_id) auto
  have sum: "swrap w3 (arith w3 w2 (l - r)) = l - r" if "smin w3 < l - r" "l - r \<le> smax w3"
    using that assms(1) by (subst arith_id [of w3]) (auto intro: swrap_id)
  show ?thesis
  proof (cases "r < 1")
    case True
    then have "arith w3 w2 (smax w3 + r) = smax w3 + r"
      using assms smin_neg [of w3] smax_smin [of w3] by (intro arith_id [of w3]) auto
    then show ?thesis
      using True s sum assms by (auto simp: SUB_WITH_CHECK_def fit_def)
  next
    case False
    then have "arith w3 w2 (smin w3 + r) = smin w3 + r"
      using assms smin_neg [of w3] smax_smin [of w3] by (intro arith_id [of w3]) auto
    then show ?thesis
      using False s sum assms by (auto simp: SUB_WITH_CHECK_def fit_def)
  qed
qed

text \<open>The product of two values of \<open>w\<close> bits has \<open>2 * w\<close> bits.\<close>

lemma product_fits:
  assumes "0 < w" "smin w < l" "l \<le> smax w" "smin w < r" "r \<le> smax w"
  shows "smin (2 * w) < l * r \<and> l * r \<le> smax (2 * w)"
proof -
  let ?P = "(2::int) ^ (w - 1)"
  have "\<bar>l\<bar> \<le> ?P" "\<bar>r\<bar> \<le> ?P" using assms by (auto simp: smin_def smax_def)
  then have "\<bar>l * r\<bar> \<le> ?P * ?P" unfolding abs_mult by (intro mult_mono) auto
  moreover have "(2::int) ^ (2 * w - 1) = 2 * (?P * ?P)"
  proof -
    have "2 * w - 1 = Suc ((w - 1) + (w - 1))" using assms(1) by simp
    then show ?thesis by (simp only: power_Suc power_add)
  qed
  moreover have "0 < ?P * ?P" by simp
  ultimately show ?thesis unfolding smin_def smax_def by linarith
qed

lemma MUL4_exact:
  assumes "0 < w3" "w2 \<le> w3" "smin w3 < l" "l \<le> smax w3" "smin w3 < r" "r \<le> smax w3"
  shows "MUL4_WITH_CHECK w1 w2 w3 (2 * w3) ab l r = checked w3 ab (l * r)"
proof -
  have w: "0 < 2 * w3" "w3 \<le> 2 * w3" using assms(1) by auto
  have p: "smin (2 * w3) < l * r" "l * r \<le> smax (2 * w3)" using product_fits [OF assms(1,3-6)] by auto
  have m: "smin (2 * w3) \<le> smin w3" "smax w3 \<le> smax (2 * w3)" using smin_mono smax_mono w(2) by blast+
  have n: "smin w3 < 0" "0 \<le> smax w3" using smin_neg smax_smin [of w3] smin_neg [of w3] by auto
  have "swrap (2 * w3) l = l" "swrap (2 * w3) (smin w3) = smin w3" "swrap (2 * w3) (smax w3) = smax w3"
    "swrap (2 * w3) (l * r) = l * r" "arith (2 * w3) w2 (l * r) = l * r"
    using w p m n assms by (auto intro!: swrap_id arith_id [of "2 * w3"])
  moreover have "swrap w3 (l * r) = l * r" if "smin w3 < l * r" "l * r \<le> smax w3"
    using that assms(1) by (intro swrap_id) auto
  ultimately show ?thesis by (auto simp: MUL4_WITH_CHECK_def fit_def Let_def)
qed

text \<open>Results that are wider than the arguments need no check.\<close>

lemma enlarged:
  assumes "0 < w" "smin w < l" "l \<le> smax w" "smin w < r" "r \<le> smax w" "op = (+) \<or> op = (-) \<or> op = (*)"
  shows "Some (swrap (2 * w) (arith (2 * w) w2 (op (swrap (2 * w) l) r)), 0) = checked (2 * w) ab (op l r)"
proof -
  have d: "smin (2 * w) \<le> 2 * smin w" "2 * smax w + 1 \<le> smax (2 * w)"
  proof -
    have "(2::int) ^ w \<le> 2 ^ (2 * w - 1)" using assms(1) by (intro power_increasing) auto
    moreover have "(2::int) ^ w = 2 * 2 ^ (w - 1)" using assms(1) by (cases w) auto
    ultimately show "smin (2 * w) \<le> 2 * smin w" "2 * smax w + 1 \<le> smax (2 * w)" by (simp_all add: smin_def smax_def)
  qed
  have "smin (2 * w) < op l r \<and> op l r \<le> smax (2 * w)"
    using assms(6) product_fits [OF assms(1-5)] d assms(2-5) smax_smin [of w] smin_neg [of w] by (elim disjE) auto
  moreover have "smin (2 * w) \<le> l" "l \<le> smax (2 * w)" using d assms smin_neg [of w] smax_smin [of w] by linarith+
  then have "swrap (2 * w) l = l" using assms(1) by (intro swrap_id) auto
  ultimately show ?thesis
    using assms(1) by (simp add: fit_def arith_id [of "2 * w"] swrap_id)
qed

lemma sdiv_le: "r \<noteq> 0 \<Longrightarrow> \<bar>l sdiv r\<bar> \<le> \<bar>l :: int\<bar>"
proof -
  assume "r \<noteq> 0"
  then have "\<bar>l sdiv r\<bar> \<le> \<bar>l\<bar> div \<bar>r\<bar>"
    by (cases "l = 0") (auto simp: signed_divide_int_def abs_mult abs_sgn_eq pos_imp_zdiv_nonneg_iff)
  also have "\<dots> \<le> \<bar>l\<bar>" using \<open>r \<noteq> 0\<close> zdiv_mono2 [of "\<bar>l\<bar>" 1 "\<bar>r\<bar>"] by simp
  finally show ?thesis .
qed

lemma smod_le: "r \<noteq> 0 \<Longrightarrow> \<bar>l smod r\<bar> \<le> \<bar>l :: int\<bar> \<and> \<bar>l smod r\<bar> < \<bar>r\<bar>"
  by (auto simp: signed_modulo_int_def abs_mult abs_sgn_eq zmod_le_nonneg_dividend)

lemma symmetric_range: "smin w < x \<and> x \<le> smax w \<longleftrightarrow> \<bar>x\<bar> \<le> smax w"
  using smax_smin [of w] by auto

lemma DIV_exact:
  assumes "0 < w" "smin w < l" "l \<le> smax w" "r \<noteq> 0"
  shows "swrap w (arith w w2 (l sdiv r)) = l sdiv r" "smin w < l sdiv r \<and> l sdiv r \<le> smax w"
proof -
  show r: "smin w < l sdiv r \<and> l sdiv r \<le> smax w"
    using sdiv_le [OF assms(4), of l] assms(2,3) symmetric_range [of w l] symmetric_range [of w "l sdiv r"] by linarith
  then show "swrap w (arith w w2 (l sdiv r)) = l sdiv r"
    using assms(1) by (subst arith_id [of w]) (auto intro: swrap_id)
qed

lemma MOD_exact:
  assumes "0 < w1" "0 < w2" "smin w1 < l" "l \<le> smax w1" "smin w2 < r" "r \<le> smax w2" "r \<noteq> 0" "w = min w1 w2"
  shows "swrap w (arith w w2 (swrap w l smod r)) = swrap w l smod r" "smin w < swrap w l smod r \<and> swrap w l smod r \<le> smax w"
proof -
  note m = smod_le [OF assms(7), of "swrap w l"]
  show r: "smin w < swrap w l smod r \<and> swrap w l smod r \<le> smax w"
  proof (cases "w1 \<le> w2")
    case True
    then have "swrap w l = l" using assms by (intro swrap_id) auto
    then show ?thesis using m True assms(3,4,8) symmetric_range [of w1 l] symmetric_range [of w "l smod r"] by auto
  next
    case False
    then show ?thesis
      using m assms(5,6,8) symmetric_range [of w2 r] symmetric_range [of w "swrap w l smod r"] by auto
  qed
  then show "swrap w (arith w w2 (swrap w l smod r)) = swrap w l smod r"
    using assms(1,2,8) by (subst arith_id [of w]) (auto intro: swrap_id)
qed

subsection \<open>The loops meet the contract\<close>

definition sum_spec :: "(int \<Rightarrow> int \<Rightarrow> int) \<Rightarrow> tpe \<Rightarrow> tpe \<Rightarrow> tpe \<Rightarrow> int \<Rightarrow> int \<Rightarrow> int option" where
  "sum_spec op tp1 tp2 tp l r = fit (width tp) (op l r)"

definition div_spec :: "tpe \<Rightarrow> tpe \<Rightarrow> tpe \<Rightarrow> int \<Rightarrow> int \<Rightarrow> int option" where
  "div_spec tp1 tp2 tp l r = (if r = 0 then None else Some (l sdiv r))"

definition mod_spec :: "tpe \<Rightarrow> tpe \<Rightarrow> tpe \<Rightarrow> int \<Rightarrow> int \<Rightarrow> int option" where
  "mod_spec tp1 tp2 tp l r = (if r = 0 then None else Some (swrap (width tp) l smod r))"

definition sum_body :: "(nat \<Rightarrow> nat \<Rightarrow> nat \<Rightarrow> bool \<Rightarrow> int \<Rightarrow> int \<Rightarrow> cell) \<Rightarrow> (int \<Rightarrow> int \<Rightarrow> int) \<Rightarrow>
    tpe \<Rightarrow> tpe \<Rightarrow> tpe \<Rightarrow> bool \<Rightarrow> int \<Rightarrow> int \<Rightarrow> cell" where
  "sum_body chk op tp1 tp2 tp ab =
    (if width tp = max (width tp1) (width tp2) then chk (width tp1) (width tp2) (width tp) ab
     else (\<lambda>l r. Some (swrap (width tp) (arith (width tp) (width tp2) (op (swrap (width tp) l) r)), 0)))"

lemma sum_body_exact:
  assumes t: "sum_type tp1 tp2 tp" and l: "in_type tp1 l" "l \<noteq> nil_of tp1" and r: "in_type tp2 r" "r \<noteq> nil_of tp2"
    and op: "op = (+) \<or> op = (-) \<or> op = (*)"
    and chk: "\<And>w1 w2 w3. \<lbrakk>0 < w3; w2 \<le> w3; smin w3 < l; l \<le> smax w3; smin w3 < r; r \<le> smax w3\<rbrakk> \<Longrightarrow>
      chk w1 w2 w3 ab l r = checked w3 ab (op l r)"
  shows "sum_body chk op tp1 tp2 tp ab l r =
    (case sum_spec op tp1 tp2 tp l r of Some v \<Rightarrow> Some (v, 0) | None \<Rightarrow> overflow (width tp) ab)"
proof -
  let ?w = "max (width tp1) (width tp2)"
  have w: "0 < ?w" using t width_pos [of tp1] by (auto simp: sum_type_def)
  have b: "smin ?w < l" "l \<le> smax ?w" "smin ?w < r" "r \<le> smax ?w"
    using widen [of _ l ?w] widen [of _ r ?w] in_type_range [OF l] in_type_range [OF r] by auto
  show ?thesis
  proof (cases "width tp = ?w")
    case True
    then show ?thesis using chk [of ?w "width tp2" "width tp1"] w b by (simp add: sum_body_def sum_spec_def cong: option.case_cong)
  next
    case False
    then have "width tp = 2 * ?w" using t by (auto simp: sum_type_def)
    then show ?thesis using False w enlarged [OF w b op] by (auto simp: sum_body_def sum_spec_def cong: option.case_cong)
  qed
qed

lemma sum_type_pos: "sum_type tp1 tp2 tp \<Longrightarrow> 0 < width tp"
  using width_pos [of tp1] by (auto simp: sum_type_def)

text \<open>Addition, subtraction and multiplication choose their loops and check their results alike.\<close>

lemma sum_op:
  assumes sw: "\<And>tp1 tp2 tp ab. sw tp1 tp2 tp ab = (if sum_type tp1 tp2 tp
      then Some (if width tp = max (width tp1) (width tp2) then A (width tp1) (width tp2) (width tp) ab
                 else E (width tp1) (width tp2) (width tp)) else None)"
    and A: "\<And>w1 w2 w3 ab lft i rgt j ci off. A w1 w2 w3 ab lft i rgt j ci off =
      cand_run (bin_cell (smin w1) (smin w2) (smin w3) (chk w1 w2 w3 ab) lft i rgt j) (smin w3) off ci"
    and E: "\<And>w1 w2 w3 lft i rgt j ci off. E w1 w2 w3 lft i rgt j ci off =
      cand_run (bin_cell (smin w1) (smin w2) (smin w3)
        (\<lambda>l r. Some (swrap w3 (arith w3 w2 (op (swrap w3 l) r)), 0)) lft i rgt j) (smin w3) off ci"
    and op: "op = (+) \<or> op = (-) \<or> op = (*)"
    and chk: "\<And>w1 w2 w3 ab l r. \<lbrakk>0 < w3; w2 \<le> w3; smin w3 < l; l \<le> smax w3; smin w3 < r; r \<le> smax w3\<rbrakk> \<Longrightarrow>
      chk w1 w2 w3 ab l r = checked w3 ab (op l r)"
  shows "binary_op sw (sum_body chk op) (sum_spec op) no_trap"
proof
  fix tp1 tp2 tp ab L assume "sw tp1 tp2 tp ab = Some L"
  then have t: "sum_type tp1 tp2 tp" and L: "L = (if width tp = max (width tp1) (width tp2)
      then A (width tp1) (width tp2) (width tp) ab else E (width tp1) (width tp2) (width tp))"
    unfolding sw by (simp_all split: if_split_asm)
  show "L lft i rgt j ci off = cand_run (bin_cell (nil_of tp1) (nil_of tp2) (nil_of tp)
      (sum_body chk op tp1 tp2 tp ab) lft i rgt j) (nil_of tp) off ci" for lft i rgt j ci off
    unfolding L sum_body_def by (simp add: A E)
  show "0 < width tp" using t by (rule sum_type_pos)
  show "sum_body chk op tp1 tp2 tp ab l r = (if no_trap tp1 tp2 tp l r then None
      else case sum_spec op tp1 tp2 tp l r of Some v \<Rightarrow> Some (v, 0) | None \<Rightarrow> overflow (width tp) ab)"
    if "in_type tp1 l" "in_type tp2 r" "l \<noteq> nil_of tp1" "r \<noteq> nil_of tp2" for l r
    unfolding no_trap_def if_False
    by (rule sum_body_exact [OF t that(1,3,2,4) op]) (rule chk)
qed (auto simp: sum_spec_def fit_def split: if_split_asm)

interpretation add: binary_op add_switch "sum_body ADD_WITH_CHECK (+)" "sum_spec (+)" no_trap
  by (rule sum_op [where A = ADD_3TYPE and E = ADD_3TYPE_enlarge]) (simp_all only: add_switch_eq ADD_3TYPE_def ADD_3TYPE_enlarge_def ADD_exact simp_thms)

interpretation sub: binary_op sub_switch "sum_body SUB_WITH_CHECK (-)" "sum_spec (-)" no_trap
  by (rule sum_op [where A = SUB_3TYPE and E = SUB_3TYPE_enlarge]) (simp_all only: sub_switch_eq SUB_3TYPE_def SUB_3TYPE_enlarge_def SUB_exact simp_thms)

interpretation mul: binary_op mul_switch "sum_body (\<lambda>w1 w2 w3. MUL4_WITH_CHECK w1 w2 w3 (2 * w3)) (*)" "sum_spec (*)" no_trap
  by (rule sum_op [where A = "\<lambda>w1 w2 w3. MUL_4TYPE w1 w2 w3 (2 * w3)" and E = MUL_3TYPE_enlarge])
    (simp_all only: mul_switch_eq MUL_4TYPE_def MUL_3TYPE_enlarge_def MUL4_exact simp_thms)

interpretation div: binary_op div_switch
  "\<lambda>tp1 tp2 tp ab l r. if r = 0 then overflow (width tp) ab else Some (swrap (width tp) (arith (width tp1) (width tp2) (l sdiv r)), 0)"
  div_spec no_trap
proof
  fix tp1 tp2 tp ab L assume "div_switch tp1 tp2 tp ab = Some L"
  then have t: "div_type tp1 tp2 tp" and L: "L = DIV_3TYPE (width tp1) (width tp2) (width tp) ab"
    unfolding div_switch_eq by (simp_all split: if_split_asm)
  show "L lft i rgt j ci off = cand_run (bin_cell (nil_of tp1) (nil_of tp2) (nil_of tp)
      (\<lambda>l r. if r = 0 then overflow (width tp) ab else Some (swrap (width tp) (arith (width tp1) (width tp2) (l sdiv r)), 0))
      lft i rgt j) (nil_of tp) off ci" for lft i rgt j ci off
    unfolding L by (simp add: DIV_3TYPE_def)
  have w: "0 < width tp1" "width tp = width tp1" using t width_pos by (auto simp: div_type_def)
  then show "0 < width tp" by simp
  fix l r assume lr: "in_type tp1 l" "in_type tp2 r" "l \<noteq> nil_of tp1" "r \<noteq> nil_of tp2"
  note d = DIV_exact(1) [OF w(1), of l r "width tp2"] DIV_exact(2) [OF w(1), of l r] in_type_range [OF lr(1,3)]
  show "(if r = 0 then overflow (width tp) ab else Some (swrap (width tp) (arith (width tp1) (width tp2) (l sdiv r)), 0)) =
      (if no_trap tp1 tp2 tp l r then None else case div_spec tp1 tp2 tp l r of Some v \<Rightarrow> Some (v, 0) | None \<Rightarrow> overflow (width tp) ab)"
    using d w by (simp add: div_spec_def no_trap_def)
  show "nil_of tp < v \<and> v \<le> smax (width tp)" if "div_spec tp1 tp2 tp l r = Some v" for v
    using that d w by (auto simp: div_spec_def split: if_split_asm)
qed

text \<open>The remainder of the smallest number of the machine's type by -1 is a trap.\<close>

definition mod_trap :: "tpe \<Rightarrow> tpe \<Rightarrow> tpe \<Rightarrow> int \<Rightarrow> int \<Rightarrow> bool" where
  "mod_trap tp1 tp2 tp l r \<longleftrightarrow> swrap (width tp) l = smin (max 32 (max (width tp) (width tp2))) \<and> r = - 1"

definition mod_body :: "tpe \<Rightarrow> tpe \<Rightarrow> tpe \<Rightarrow> bool \<Rightarrow> int \<Rightarrow> int \<Rightarrow> cell" where
  "mod_body tp1 tp2 tp ab l r =
    (if r = 0 then overflow (width tp) ab
     else if mod_trap tp1 tp2 tp l r then None
     else Some (swrap (width tp) (arith (width tp) (width tp2) (swrap (width tp) l smod r)), 0))"

interpretation mod: binary_op mod_switch mod_body mod_spec mod_trap
proof
  fix tp1 tp2 tp ab L assume "mod_switch tp1 tp2 tp ab = Some L"
  then have t: "mod_type tp1 tp2 tp" and L: "L = MOD_3TYPE (width tp1) (width tp2) (width tp) ab"
    unfolding mod_switch_eq by (simp_all split: if_split_asm)
  have cell: "mod_body tp1 tp2 tp ab = (\<lambda>l r. if r = 0 then overflow (width tp) ab
      else if swrap (width tp) l = smin (max 32 (max (width tp) (width tp2))) \<and> r = - 1 then None
      else Some (swrap (width tp) (arith (width tp) (width tp2) (swrap (width tp) l smod r)), 0))"
    unfolding fun_eq_iff mod_body_def mod_trap_def by (intro allI refl)
  show "L lft i rgt j ci off = cand_run (bin_cell (nil_of tp1) (nil_of tp2) (nil_of tp)
      (mod_body tp1 tp2 tp ab) lft i rgt j) (nil_of tp) off ci" for lft i rgt j ci off
    unfolding L MOD_3TYPE_def cell by (rule refl)
  have w: "0 < width tp1" "0 < width tp2" "width tp = min (width tp1) (width tp2)" using t width_pos by (auto simp: mod_type_def)
  then show "0 < width tp" by simp
  fix l r assume lr: "in_type tp1 l" "in_type tp2 r" "l \<noteq> nil_of tp1" "r \<noteq> nil_of tp2"
  note d = MOD_exact [OF w(1,2), of l r "width tp"] in_type_range [OF lr(1,3)] in_type_range [OF lr(2,4)]
  have "r \<noteq> 0" if "mod_trap tp1 tp2 tp l r" using that by (simp add: mod_trap_def)
  then show "mod_body tp1 tp2 tp ab l r = (if mod_trap tp1 tp2 tp l r then None
      else case mod_spec tp1 tp2 tp l r of Some v \<Rightarrow> Some (v, 0) | None \<Rightarrow> overflow (width tp) ab)"
    using d w by (simp add: mod_spec_def mod_body_def)
  show "nil_of tp < v \<and> v \<le> smax (width tp)" if "mod_spec tp1 tp2 tp l r = Some v" for v
    using that d w by (auto simp: mod_spec_def split: if_split_asm)
qed

text \<open>Only the remainder of a 64 bit number by a 32 bit one can trap.\<close>

lemma half_mod: "(l mod 2 ^ 32 + 2 ^ 31) mod 2 ^ 32 = 0 \<longleftrightarrow> l mod 2 ^ 32 = (2 ^ 31 :: int)"
proof -
  define x where "x = l mod 2 ^ 32"
  have x: "0 \<le> x" "x < 2 ^ 32" by (simp_all add: x_def)
  have "(x + 2 ^ 31) mod 2 ^ 32 = (if x < 2 ^ 31 then x + 2 ^ 31 else x - 2 ^ 31)"
  proof (cases "x < 2 ^ 31")
    case False
    then have "(x + 2 ^ 31 - 2 ^ 32) mod 2 ^ 32 = x - 2 ^ 31" using x by simp
    then show ?thesis using False minus_mod_self2 [of "x + 2 ^ 31" "2 ^ 32"] by simp
  qed (use x in simp)
  with x show ?thesis unfolding x_def [symmetric] by (simp split: if_splits)
qed

lemma mod_trap_iff:
  assumes t: "mod_type tp1 tp2 tp" and l: "in_type tp1 l" "l \<noteq> nil_of tp1"
  shows "mod_trap tp1 tp2 tp l r \<longleftrightarrow> width tp1 = 64 \<and> width tp2 = 32 \<and> l mod 2 ^ 32 = 2 ^ 31 \<and> r = - 1"
proof -
  let ?w = "width tp"
  have w: "0 < ?w" "?w = min (width tp1) (width tp2)" using t width_pos by (auto simp: mod_type_def)
  have ws: "width tp1 \<in> {8, 16, 32, 64}" "width tp2 \<in> {8, 16, 32, 64}"
    using t by (cases tp1; cases tp2; simp add: mod_type_def)+
  have low: "smin ?w \<le> swrap ?w l" by (simp add: swrap_def smin_def)
  show ?thesis
  proof (cases "width tp1 = 64 \<and> width tp2 = 32")
    case True
    have "swrap 32 l = smin 32 \<longleftrightarrow> (l + 2 ^ 31) mod 2 ^ 32 = 0" by (simp add: swrap_def smin_def)
    also have "\<dots> \<longleftrightarrow> (l mod 2 ^ 32 + 2 ^ 31) mod 2 ^ 32 = 0" by (simp add: mod_add_left_eq)
    also have "\<dots> \<longleftrightarrow> l mod 2 ^ 32 = 2 ^ 31" by (rule half_mod)
    finally show ?thesis using True w by (simp add: mod_trap_def)
  next
    case False
    have "swrap ?w l \<noteq> smin (max 32 (max ?w (width tp2)))"
    proof (cases "width tp1 \<le> width tp2")
      case True
      then have "swrap ?w l = l" using w in_type_range [OF l] by (intro swrap_id) auto
      moreover have "smin (max 32 (max ?w (width tp2))) \<le> smin (width tp1)"
        using True ws by (auto simp: smin_def)
      ultimately show ?thesis using in_type_range [OF l] by linarith
    next
      case wide: False
      then have "smin (max 32 (max ?w (width tp2))) < smin ?w" using ws False w(2) by (auto simp: smin_def)
      then show ?thesis using low by linarith
    qed
    with False show ?thesis by (auto simp: mod_trap_def)
  qed
qed

subsection \<open>Products from halves\<close>

lemma high_bits_31: "0 \<le> c \<Longrightarrow> c < 2 ^ 64 \<Longrightarrow> c AND u64 (push_bit 31 (u64 (NOT 0))) = 0 \<longleftrightarrow> c < (2 ^ 31 :: int)"
proof -
  assume c: "0 \<le> c" "c < 2 ^ 64"
  have "u64 (push_bit 31 (u64 (NOT 0))) = push_bit 31 (mask 33)"
    by (simp add: u64_def push_bit_eq_mult mask_eq_exp_minus_1)
  moreover have "c AND push_bit 31 (mask 33) = push_bit 31 (take_bit 33 (drop_bit 31 c))"
    by (rule bit_eqI) (auto simp: bit_simps)
  moreover have "take_bit 33 (drop_bit 31 c) = drop_bit 31 c"
    using c by (simp add: take_bit_int_eq_self_iff drop_bit_eq_div pos_imp_zdiv_nonneg_iff div_less_iff_less_mult)
  ultimately show ?thesis using c by (auto simp: drop_bit_eq_div push_bit_eq_mult zdiv_eq_0_iff)
qed

lemma high_bit_63: "0 \<le> d \<Longrightarrow> d < 2 ^ 64 \<Longrightarrow> d AND u64 (push_bit 63 1) = 0 \<longleftrightarrow> d < (2 ^ 63 :: int)"
proof -
  assume d: "0 \<le> d" "d < 2 ^ 64"
  have "u64 (push_bit 63 1) = 2 ^ 63" by (simp add: u64_def push_bit_eq_mult)
  then have "d AND u64 (push_bit 63 1) = 0 \<longleftrightarrow> \<not> bit d 63" using and_exp_eq_0_iff_not_bit [of d 63] by simp
  also have "\<dots> \<longleftrightarrow> even (d div 2 ^ 63)" by (simp add: bit_iff_odd)
  also have "\<dots> \<longleftrightarrow> d < 2 ^ 63"
  proof (cases "d < 2 ^ 63")
    case False
    then have "d div 2 ^ 63 = 1" using d by (intro int_div_pos_eq [of _ _ _ "d - 2 ^ 63"]) auto
    then show ?thesis using False by simp
  qed (use d in simp)
  finally show ?thesis .
qed

text \<open>The product of the absolute values from their halves.\<close>

lemma half_products:
  fixes a1 a2 b1 b2 :: int
  assumes a: "0 \<le> a1" "a1 < 2 ^ 31" "0 \<le> a2" "a2 < 2 ^ 32" and b: "0 \<le> b1" "b1 < 2 ^ 31" "0 \<le> b2" "b2 < 2 ^ 32"
    and z: "a1 = 0" and e: "a2 * b1 < 2 ^ 31"
  shows "a2 * b1 * 2 ^ 32 + a2 * b2 < 2 ^ 64"
proof (cases "b1 = 0")
  case True
  have "a2 * b2 \<le> (2 ^ 32 - 1) * (2 ^ 32 - 1)" using a b by (intro mult_mono) auto
  then show ?thesis using True by simp
next
  case False
  then have "a2 * 1 \<le> a2 * b1" using a b by (intro mult_left_mono) auto
  then have "a2 \<le> 2 ^ 31 - 1" using e by simp
  then have "a2 * b2 \<le> (2 ^ 31 - 1) * (2 ^ 32 - 1)" using a b by (intro mult_mono) auto
  then show ?thesis using e by simp
qed

lemma half_sum:
  fixes a b :: int
  defines "a1 \<equiv> a div 2 ^ 32" and "a2 \<equiv> a mod 2 ^ 32" and "b1 \<equiv> b div 2 ^ 32" and "b2 \<equiv> b mod 2 ^ 32"
  assumes "0 \<le> a" "a < 2 ^ 63" "0 \<le> b" "b < 2 ^ 63"
  shows "a * b = a1 * b1 * 2 ^ 64 + (a1 * b2 + a2 * b1) * 2 ^ 32 + a2 * b2"
    "0 \<le> a1" "a1 < 2 ^ 31" "0 \<le> a2" "a2 < 2 ^ 32" "0 \<le> b1" "b1 < 2 ^ 31" "0 \<le> b2" "b2 < 2 ^ 32"
proof -
  have "a = a1 * 2 ^ 32 + a2" "b = b1 * 2 ^ 32 + b2" unfolding a1_def a2_def b1_def b2_def by simp_all
  then have "a * b = (a1 * 2 ^ 32 + a2) * (b1 * 2 ^ 32 + b2)" by metis
  then show "a * b = a1 * b1 * 2 ^ 64 + (a1 * b2 + a2 * b1) * 2 ^ 32 + a2 * b2" by (simp add: algebra_simps)
  show "0 \<le> a1" "a1 < 2 ^ 31" "0 \<le> a2" "a2 < 2 ^ 32" "0 \<le> b1" "b1 < 2 ^ 31" "0 \<le> b2" "b2 < 2 ^ 32"
    unfolding a1_def a2_def b1_def b2_def using assms(5-8) by (auto simp: pos_imp_zdiv_nonneg_iff div_less_iff_less_mult)
qed

text \<open>The test on the halves accepts exactly the products of less than 63 bits, and then has the product.\<close>

lemma half_check:
  fixes a b :: int
  assumes "0 \<le> a" "a < 2 ^ 63" "0 \<le> b" "b < 2 ^ 63"
    and h: "a1 = a div 2 ^ 32" "a2 = a mod 2 ^ 32" "b1 = b div 2 ^ 32" "b2 = b mod 2 ^ 32"
    and c: "c = u64 (u64 (a1 * b2) + u64 (a2 * b1))" and d: "d = u64 (u64 (push_bit 32 c) + u64 (a2 * b2))"
  shows "(a1 = 0 \<or> b1 = 0) \<and> c < 2 ^ 31 \<and> d < 2 ^ 63 \<longleftrightarrow> a * b < 2 ^ 63"
    "a1 = 0 \<or> b1 = 0 \<Longrightarrow> c < 2 ^ 31 \<Longrightarrow> d = a * b"
proof -
  note s = half_sum [OF assms(1-4), folded h]
  have nn: "0 \<le> a1 * b1" "0 \<le> a1 * b2" "0 \<le> a2 * b1" "0 \<le> a2 * b2" using s(2-) by simp_all
  have ub: "a1 * b2 \<le> (2 ^ 31 - 1) * (2 ^ 32 - 1)" "a2 * b1 \<le> (2 ^ 32 - 1) * (2 ^ 31 - 1)" "a2 * b2 \<le> (2 ^ 32 - 1) * (2 ^ 32 - 1)"
    using s(2-) by (intro mult_mono; simp)+
  have ce: "c = a1 * b2 + a2 * b1" if "a1 = 0 \<or> b1 = 0"
    unfolding c u64_def using that nn ub by auto
  show de: "d = a * b" if z: "a1 = 0 \<or> b1 = 0" and lt: "c < 2 ^ 31"
  proof -
    have t: "(a1 * b2 + a2 * b1) * 2 ^ 32 + a2 * b2 < 2 ^ 64"
      using z
    proof
      assume "a1 = 0"
      then show ?thesis using half_products [OF s(2-) _ _] ce lt by simp
    next
      assume "b1 = 0"
      then show ?thesis
        using half_products [OF s(6-9) s(2-5)] ce lt by (simp add: mult.commute)
    qed
    have "u64 (push_bit 32 c) = c * 2 ^ 32" "u64 (a2 * b2) = a2 * b2"
      using lt ce z nn ub by (auto simp: u64_def push_bit_eq_mult)
    then have "d = (a1 * b2 + a2 * b1) * 2 ^ 32 + a2 * b2"
      unfolding d using ce z t nn by (simp add: u64_def)
    then show ?thesis using s(1) z by auto
  qed
  show "(a1 = 0 \<or> b1 = 0) \<and> c < 2 ^ 31 \<and> d < 2 ^ 63 \<longleftrightarrow> a * b < 2 ^ 63"
  proof (cases "a1 = 0 \<or> b1 = 0")
    case True
    show ?thesis
    proof (cases "c < 2 ^ 31")
      case lt: False
      have "a * b \<ge> 2 ^ 63" using s(1) True lt ce nn by auto
      then show ?thesis using lt by simp
    qed (use True de in simp)
  next
    case False
    then have "1 * 1 \<le> a1 * b1" using s(2,6) by (intro mult_mono) auto
    then have "a * b \<ge> 2 ^ 64" using s(1) nn by simp
    then show ?thesis using False by simp
  qed
qed

lemma LNGMUL_exact:
  assumes l: "smin 64 < l" "l \<le> smax 64" and r: "smin 64 < r" "r \<le> smax 64"
  shows "LNGMUL_CHECK ab l r = checked 64 ab (l * r)"
proof -
  define a b where "a = \<bar>l\<bar>" and "b = \<bar>r\<bar>"
  define a1 a2 b1 b2 where h: "a1 = a div 2 ^ 32" "a2 = a mod 2 ^ 32" "b1 = b div 2 ^ 32" "b2 = b mod 2 ^ 32"
  define c where c: "c = u64 (u64 (a1 * b2) + u64 (a2 * b1))"
  define d where d: "d = u64 (u64 (push_bit 32 c) + u64 (a2 * b2))"
  define sign :: int where "sign = (if (l < 0) = (r < 0) then 1 else - 1)"
  have ab: "0 \<le> a" "a < 2 ^ 63" "0 \<le> b" "b < 2 ^ 63" using l r by (auto simp: a_def b_def smin_def smax_def)
  have halves: "u32 (drop_bit 32 a) = a1" "u32 a = a2" "u32 (drop_bit 32 b) = b1" "u32 b = b2"
    using half_sum(2,3,6,7) [OF ab] by (simp_all add: h u32_def drop_bit_eq_div)
  have "0 \<le> c" "c < 2 ^ 64" "0 \<le> d" "d < 2 ^ 64" unfolding c d u64_def by simp_all
  note bits = high_bits_31 [OF this(1,2)] high_bit_63 [OF this(3,4)]
  have neg: "i64 (- x) = - x" if "smin 64 < x" "x \<le> smax 64" for x
    using that by (intro swrap_id) (auto simp: smin_def smax_def)
  have eq: "LNGMUL_CHECK ab l r = (if (a1 = 0 \<or> b1 = 0) \<and> c < 2 ^ 31 \<and> d < 2 ^ 63
      then Some (i64 (sign * i64 d), 0) else overflow 64 ab)" for ab
  proof -
    have "(if l < 0 then (- 1, i64 (- l)) else (1, l)) = (if l < 0 then - 1 else 1 :: int, a)"
      using neg [OF l] by (simp add: a_def)
    moreover have "(if r < 0 then (- (if l < 0 then - 1 else 1), i64 (- r)) else (if l < 0 then - 1 else 1, r)) = (sign, b)"
      using neg [OF r] by (simp add: b_def sign_def)
    ultimately show ?thesis
      unfolding LNGMUL_CHECK_def Let_def by (simp only: prod.case halves bits c [symmetric] d [symmetric])
  qed
  have lr: "l * r = sign * (a * b)" by (auto simp: sign_def a_def b_def)
  note chk = half_check [OF ab h c d]
  show ?thesis
  proof (cases "a * b < 2 ^ 63")
    case True
    then have k: "(a1 = 0 \<or> b1 = 0) \<and> c < 2 ^ 31 \<and> d < 2 ^ 63" using chk(1) by blast
    then have "d = a * b" using chk(2) by blast
    moreover have "0 \<le> a * b" using ab by simp
    moreover have "i64 (a * b) = a * b" "i64 (sign * (a * b)) = sign * (a * b)"
      using True \<open>0 \<le> a * b\<close> by (auto intro!: swrap_id simp: sign_def smin_def smax_def)
    ultimately show ?thesis
      unfolding eq using k True lr by (auto simp: fit_def sign_def smin_def smax_def)
  next
    case False
    then have "\<not> ((a1 = 0 \<or> b1 = 0) \<and> c < 2 ^ 31 \<and> d < 2 ^ 63)" using chk(1) by blast
    moreover have "fit 64 (l * r) = None" using False lr by (auto simp: fit_def sign_def smin_def smax_def)
    ultimately show ?thesis unfolding eq by auto
  qed
qed

text \<open>
  C9.  Where the compiler has no integer of 128 bits, the product computed from the 32 bit halves
  is the same: for every pair of argument types both loops give the same column, the same
  number of nils and the same errors.
\<close>

theorem lngmul_equiv:
  assumes lft: "\<forall>l\<in>set lft. smin w1 \<le> l \<and> l \<le> smax w1" and rgt: "\<forall>r\<in>set rgt. smin w2 \<le> r \<and> r \<le> smax w2"
    and w: "w1 \<le> 64" "w2 \<le> 64"
  shows "MUL_2TYPE_lng w1 w2 ab lft i rgt j ci off = MUL_4TYPE w1 w2 64 128 ab lft i rgt j ci off"
proof -
  have eq: "LNGMUL_CHECK ab l r = MUL4_WITH_CHECK w1 w2 64 128 ab l r"
    if "l \<in> set lft" "r \<in> set rgt" "l \<noteq> smin w1" "r \<noteq> smin w2" for l r
  proof -
    have "smin w1 < l" "l \<le> smax w1" "smin w2 < r" "r \<le> smax w2" using lft rgt that by (auto simp: order_less_le)
    then have "smin 64 < l" "l \<le> smax 64" "smin 64 < r" "r \<le> smax 64" using widen w by blast+
    then show ?thesis using LNGMUL_exact MUL4_exact [of 64 w2 l r w1 ab] w by simp
  qed
  have "bin_cell (smin w1) (smin w2) (smin 64) (LNGMUL_CHECK ab) lft i rgt j =
      bin_cell (smin w1) (smin w2) (smin 64) (MUL4_WITH_CHECK w1 w2 64 128 ab) lft i rgt j"
    using eq by (intro ext) (auto simp: bin_cell_def fetch_def)
  then show ?thesis by (simp add: MUL_2TYPE_lng_def MUL_4TYPE_def)
qed

theorem lngmul_equiv_witness:
  "MUL_2TYPE_lng 64 32 False [3037000500, 5] 1 [3, 7] 1 one_row 0 = MUL_4TYPE 64 32 64 128 False [3037000500, 5] 1 [3, 7] 1 one_row 0"
  by (rule lngmul_equiv) (simp_all add: smin_def smax_def)

end
