(* ===== verification/Gdk_Arith_Props.thy ===== *)
theory Gdk_Arith_Props
  imports Gdk_Arith_Exact
begin

text \<open>
  Properties of the column operators: exact results and errors, agreement with the operators
  on single values, and the recorded order and nil properties.
\<close>

subsection \<open>The order of results\<close>

context binary_op
begin

text \<open>The order of the result, from the order of the rows that have a value.\<close>

lemma val_cases:
  "val None seq tp1 tp2 tp lft i rgt j k =
    (if lft ! (k * i) \<noteq> nil_of tp1 \<and> rgt ! (k * j) \<noteq> nil_of tp2
     then case spec tp1 tp2 tp (lft ! (k * i)) (rgt ! (k * j)) of Some v \<Rightarrow> v | None \<Rightarrow> nil_of tp else nil_of tp)"
  by (simp add: bin_val_def is_cand_def Let_def)

lemma dst_ordered:
  assumes a: "operand tp1 lft i cnt" "operand tp2 rgt j cnt" "cands_ok seq None" "seq + cnt < 2 ^ 63"
    and r: "do { loop \<leftarrow> sel tp1 tp2 tp True; loop lft i rgt j (CANDINIT seq cnt None) seq } = Some (dst, nils)"
    and pq: "p < cnt" "q < cnt"
    and nonnil: "lft ! (p * i) \<noteq> nil_of tp1 \<Longrightarrow> rgt ! (p * j) \<noteq> nil_of tp2 \<Longrightarrow> lft ! (q * i) \<noteq> nil_of tp1 \<and> rgt ! (q * j) \<noteq> nil_of tp2"
    and mono: "\<And>v w. lft ! (p * i) \<noteq> nil_of tp1 \<Longrightarrow> rgt ! (p * j) \<noteq> nil_of tp2 \<Longrightarrow>
      spec tp1 tp2 tp (lft ! (p * i)) (rgt ! (p * j)) = Some v \<Longrightarrow> spec tp1 tp2 tp (lft ! (q * i)) (rgt ! (q * j)) = Some w \<Longrightarrow> v \<le> w"
  shows "dst ! p \<le> dst ! q"
proof -
  note sw = switched [OF a r]
  obtain L where L: "sel tp1 tp2 tp True = Some L" using sw(1) by blast
  have t: "in_type tp1 (lft ! (k * i))" "in_type tp2 (rgt ! (k * j))" if "k < cnt" for k
    using a(1,2) that by (simp_all add: operand_def)
  have dst: "dst ! k = val None seq tp1 tp2 tp lft i rgt j k" if "k < cnt" for k using sw(2) that by simp
  have low: "nil_of tp \<le> dst ! q"
    unfolding dst [OF pq(2)] val_cases using spec_range [OF L t [OF pq(2)]] by (auto split: option.splits)
  show ?thesis
  proof (cases "lft ! (p * i) \<noteq> nil_of tp1 \<and> rgt ! (p * j) \<noteq> nil_of tp2")
    case True
    then obtain v w where "spec tp1 tp2 tp (lft ! (p * i)) (rgt ! (p * j)) = Some v" "spec tp1 tp2 tp (lft ! (q * i)) (rgt ! (q * j)) = Some w"
      using sw(4) [OF _ pq(1)] sw(4) [OF _ pq(2)] nonnil by (auto simp: bin_fails_def is_cand_def)
    then show ?thesis using True nonnil mono unfolding dst [OF pq(1)] dst [OF pq(2)] val_cases by simp
  next
    case False
    then show ?thesis using low unfolding dst [OF pq(1)] val_cases by auto
  qed
qed

lemma dst_no_nils:
  assumes a: "operand tp1 lft i cnt" "operand tp2 rgt j cnt" "cands_ok seq None" "seq + cnt < 2 ^ 63"
    and r: "do { loop \<leftarrow> sel tp1 tp2 tp True; loop lft i rgt j (CANDINIT seq cnt None) seq } = Some (dst, 0)"
    and k: "k < cnt"
  shows "lft ! (k * i) \<noteq> nil_of tp1 \<and> rgt ! (k * j) \<noteq> nil_of tp2"
proof -
  note sw = switched [OF a r]
  have "nil_of tp \<notin> set dst" using sw(3) by simp
  moreover have "dst ! k \<in> set dst" using sw(2) k by (intro nth_mem) simp
  ultimately have "dst ! k \<noteq> nil_of tp" by metis
  moreover have "dst ! k = val None seq tp1 tp2 tp lft i rgt j k" using sw(2) k by simp
  ultimately show ?thesis unfolding val_cases by (simp split: if_splits)
qed

lemma sorted_dst:
  assumes a: "operand tp1 lft i cnt" "operand tp2 rgt j cnt" "cands_ok seq None" "seq + cnt < 2 ^ 63"
    and r: "do { loop \<leftarrow> sel tp1 tp2 tp True; loop lft i rgt j (CANDINIT seq cnt None) seq } = Some (dst, nils)"
    and nonnil: "\<And>p q. p < q \<Longrightarrow> q < cnt \<Longrightarrow> lft ! (p * i) \<noteq> nil_of tp1 \<Longrightarrow> rgt ! (p * j) \<noteq> nil_of tp2 \<Longrightarrow>
      lft ! (q * i) \<noteq> nil_of tp1 \<and> rgt ! (q * j) \<noteq> nil_of tp2"
    and mono: "\<And>p q v w. p < q \<Longrightarrow> q < cnt \<Longrightarrow> spec tp1 tp2 tp (lft ! (p * i)) (rgt ! (p * j)) = Some v \<Longrightarrow>
      spec tp1 tp2 tp (lft ! (q * i)) (rgt ! (q * j)) = Some w \<Longrightarrow> v \<le> w"
  shows "sorted dst"
  unfolding sorted_wrt_iff_nth_less
proof (intro allI impI)
  fix p q assume pq: "p < q" "q < length dst"
  then have "q < cnt" using switched(2) [OF a r] by simp
  with pq(1) show "dst ! p \<le> dst ! q" by (intro dst_ordered [OF a r _ _ nonnil mono]) auto
qed

lemma revsorted_dst:
  assumes a: "operand tp1 lft i cnt" "operand tp2 rgt j cnt" "cands_ok seq None" "seq + cnt < 2 ^ 63"
    and r: "do { loop \<leftarrow> sel tp1 tp2 tp True; loop lft i rgt j (CANDINIT seq cnt None) seq } = Some (dst, nils)"
    and nonnil: "\<And>p q. p < q \<Longrightarrow> q < cnt \<Longrightarrow> lft ! (q * i) \<noteq> nil_of tp1 \<Longrightarrow> rgt ! (q * j) \<noteq> nil_of tp2 \<Longrightarrow>
      lft ! (p * i) \<noteq> nil_of tp1 \<and> rgt ! (p * j) \<noteq> nil_of tp2"
    and mono: "\<And>p q v w. p < q \<Longrightarrow> q < cnt \<Longrightarrow> spec tp1 tp2 tp (lft ! (q * i)) (rgt ! (q * j)) = Some v \<Longrightarrow>
      spec tp1 tp2 tp (lft ! (p * i)) (rgt ! (p * j)) = Some w \<Longrightarrow> v \<le> w"
  shows "sorted_wrt (\<ge>) dst"
  unfolding sorted_wrt_iff_nth_less
proof (intro allI impI)
  fix p q assume pq: "p < q" "q < length dst"
  then have "q < cnt" using switched(2) [OF a r] by simp
  with pq(1) show "dst ! q \<le> dst ! p" by (intro dst_ordered [OF a r _ _ nonnil mono]) auto
qed

end

subsection \<open>Properties\<close>

lemmas typeswitchloops = add_typeswitchloop_def sub_typeswitchloop_def mul_typeswitchloop_def div_typeswitchloop_def mod_typeswitchloop_def
lemmas BATcalcs = BATcalcadd_def BATcalcsub_def BATcalcmul_def BATcalcdiv_def BATcalcmod_def

text \<open>
  C8.  Addition, subtraction and multiplication of columns are exact: the operator fails exactly when
  errors are to be reported and the result at some candidate position does not fit the result
  type, and otherwise it has the exact result where there is one that fits and nil elsewhere.
\<close>

theorem arith_exact:
  assumes b: "BATassertProps b1" "BATassertProps b2" "length (tvals b1) = length (tvals b2)"
    and s: "cands_ok (hseq b1) s" "bat_fits b1" and t: "sum_type (ttype b1) (ttype b2) tp"
    and op: "(calc, op) \<in> {(BATcalcadd, (+)), (BATcalcsub, (-)), (BATcalcmul, (*))}"
    and ok: "ok = (\<lambda>k. is_cand s (hseq b1 + k) \<and> tvals b1 ! k \<noteq> nil_of (ttype b1) \<and> tvals b2 ! k \<noteq> nil_of (ttype b2))"
    and fits: "fits = (\<lambda>k. nil_of tp < op (tvals b1 ! k) (tvals b2 ! k) \<and> op (tvals b1 ! k) (tvals b2 ! k) \<le> smax (width tp))"
  shows "if abort \<and> (\<exists>k<length (tvals b1). ok k \<and> \<not> fits k) then calc b1 b2 s tp abort = None
    else \<exists>bn. calc b1 b2 s tp abort = Some bn \<and> ttype bn = tp \<and>
      tvals bn = map (\<lambda>k. if ok k \<and> fits k then op (tvals b1 ! k) (tvals b2 ! k) else nil_of tp) [0..<length (tvals b1)]"
proof -
  note o = operand_bat [OF b(1) refl] operand_bat [OF b(2) b(3)]
  have v: "bin_val s (hseq b1) (nil_of (ttype b1)) (nil_of (ttype b2)) (nil_of tp) (sum_spec op (ttype b1) (ttype b2) tp) (tvals b1) 1 (tvals b2) 1 =
      (\<lambda>k. if ok k \<and> fits k then op (tvals b1 ! k) (tvals b2 ! k) else nil_of tp)"
    by (auto simp: fun_eq_iff bin_val_def ok fits sum_spec_def fit_def Let_def)
  have f: "bin_fails s (hseq b1) (nil_of (ttype b1)) (nil_of (ttype b2)) (sum_spec op (ttype b1) (ttype b2) tp) (tvals b1) 1 (tvals b2) 1 =
      (\<lambda>k. ok k \<and> \<not> fits k)"
    by (auto simp: fun_eq_iff bin_fails_def ok fits sum_spec_def fit_def)
  have sel: "\<exists>L. add_switch (ttype b1) (ttype b2) tp abort = Some L" "\<exists>L. sub_switch (ttype b1) (ttype b2) tp abort = Some L"
    "\<exists>L. mul_switch (ttype b1) (ttype b2) tp abort = Some L"
    using t by (simp_all add: add_switch_eq sub_switch_eq mul_switch_eq)
  consider "calc = BATcalcadd" "op = (+)" | "calc = BATcalcsub" "op = (-)" | "calc = BATcalcmul" "op = (*)" using op by blast
  then show ?thesis
  proof cases
    case 1
    show ?thesis unfolding 1(1) v [symmetric] fun_cong [OF f, symmetric] unfolding 1(2)
      by (rule exE [OF sel(1)], rule add.columns [OF o s, unfolded no_traps]) (auto simp: BATcalcs typeswitchloops checkbats_def b(3))
  next
    case 2
    show ?thesis unfolding 2(1) v [symmetric] fun_cong [OF f, symmetric] unfolding 2(2)
      by (rule exE [OF sel(2)], rule sub.columns [OF o s, unfolded no_traps]) (auto simp: BATcalcs typeswitchloops checkbats_def b(3))
  next
    case 3
    show ?thesis unfolding 3(1) v [symmetric] fun_cong [OF f, symmetric] unfolding 3(2)
      by (rule exE [OF sel(3)], rule mul.columns [OF o s, unfolded no_traps]) (auto simp: BATcalcs typeswitchloops checkbats_def b(3))
  qed
qed

theorem arith_exact_witness:
  "BATcalcadd ((BATnew TYPE_bte)\<lparr>tvals := [100, 3], tsorted := False\<rparr>) ((BATnew TYPE_bte)\<lparr>tvals := [50, 4], tsorted := False\<rparr>)
    None TYPE_bte True = None"
proof -
  let ?b1 = "(BATnew TYPE_bte)\<lparr>tvals := [100, 3], tsorted := False\<rparr>"
  let ?b2 = "(BATnew TYPE_bte)\<lparr>tvals := [50, 4], tsorted := False\<rparr>"
  have b: "BATassertProps ?b1" "BATassertProps ?b2" "length (tvals ?b1) = length (tvals ?b2)" "cands_ok (hseq ?b1) None" "bat_fits ?b1"
    "sum_type (ttype ?b1) (ttype ?b2) TYPE_bte" "(BATcalcadd, (+)) \<in> {(BATcalcadd, (+)), (BATcalcsub, (-)), (BATcalcmul, (*))}"
    by (simp_all add: BATassertProps_iff BATnew_def cands_ok_def in_type_bounds sum_type_def)
  have "\<exists>k<length (tvals ?b1). (is_cand None (hseq ?b1 + k) \<and> tvals ?b1 ! k \<noteq> nil_of (ttype ?b1) \<and> tvals ?b2 ! k \<noteq> nil_of (ttype ?b2)) \<and>
      \<not> (nil_of TYPE_bte < tvals ?b1 ! k + tvals ?b2 ! k \<and> tvals ?b1 ! k + tvals ?b2 ! k \<le> smax (width TYPE_bte))"
    by (rule exI [of _ 0]) (simp add: is_cand_def smin_def smax_def)
  with arith_exact [OF b refl refl, of True] show ?thesis by (simp only: simp_thms if_True)
qed

text \<open>
  C30.  Division truncates towards zero and the remainder has the sign of the dividend; division by
  zero at a candidate position is an error or gives nil.  The remainder is exact when the
  dividend has no more bits than the divisor; otherwise it is the remainder of the
  dividend cut to the size of the divisor.  The remainder of a \<^verbatim>\<open>lng\<close> by an \<^verbatim>\<open>int\<close> has no result, whether
  errors are reported or not, when at some candidate position the divisor is -1 and the dividend is
  2^31 modulo 2^32, so that it is cut to the smallest \<^verbatim>\<open>int\<close>: the machine traps.
\<close>

theorem divmod_exact:
  assumes b: "BATassertProps b1" "BATassertProps b2" "length (tvals b1) = length (tvals b2)"
    and s: "cands_ok (hseq b1) s" "bat_fits b1"
    and op: "calc = BATcalcdiv \<and> op = (sdiv) \<and> div_type (ttype b1) (ttype b2) tp \<and> trap = (\<lambda>l r. False) \<or>
      calc = BATcalcmod \<and> op = (\<lambda>l r. swrap (width tp) l smod r) \<and> mod_type (ttype b1) (ttype b2) tp \<and>
      trap = (\<lambda>l r. width (ttype b1) = 64 \<and> width (ttype b2) = 32 \<and> l mod 2 ^ 32 = 2 ^ 31 \<and> r = - 1)"
    and ok: "ok = (\<lambda>k. is_cand s (hseq b1 + k) \<and> tvals b1 ! k \<noteq> nil_of (ttype b1) \<and> tvals b2 ! k \<noteq> nil_of (ttype b2))"
  shows "if (\<exists>k<length (tvals b1). ok k \<and> trap (tvals b1 ! k) (tvals b2 ! k)) \<or>
      abort \<and> (\<exists>k<length (tvals b1). ok k \<and> tvals b2 ! k = 0) then calc b1 b2 s tp abort = None
    else \<exists>bn. calc b1 b2 s tp abort = Some bn \<and> ttype bn = tp \<and>
      tvals bn = map (\<lambda>k. if ok k \<and> tvals b2 ! k \<noteq> 0 then op (tvals b1 ! k) (tvals b2 ! k) else nil_of tp) [0..<length (tvals b1)]"
proof -
  note o = operand_bat [OF b(1) refl] operand_bat [OF b(2) b(3)]
  have v: "bin_val s (hseq b1) (nil_of (ttype b1)) (nil_of (ttype b2)) (nil_of tp) F (tvals b1) 1 (tvals b2) 1 =
      (\<lambda>k. if ok k \<and> tvals b2 ! k \<noteq> 0 then op (tvals b1 ! k) (tvals b2 ! k) else nil_of tp)"
    "bin_fails s (hseq b1) (nil_of (ttype b1)) (nil_of (ttype b2)) F (tvals b1) 1 (tvals b2) 1 k \<longleftrightarrow> ok k \<and> tvals b2 ! k = 0"
    if "F = (\<lambda>l r. if r = 0 then None else Some (op l r))" for F k
    by (auto simp: fun_eq_iff bin_val_def bin_fails_def ok that Let_def)
  show ?thesis
    using op
  proof (elim disjE conjE)
    assume 1: "calc = BATcalcdiv" "op = (sdiv)" and t: "div_type (ttype b1) (ttype b2) tp" and n: "trap = (\<lambda>l r. False)"
    have F: "div_spec (ttype b1) (ttype b2) tp = (\<lambda>l r. if r = 0 then None else Some (op l r))" by (simp add: fun_eq_iff div_spec_def 1)
    have "div_switch (ttype b1) (ttype b2) tp abort = Some (DIV_3TYPE (width (ttype b1)) (width (ttype b2)) (width tp) abort)"
      using t by (simp add: div_switch_eq)
    then show ?thesis unfolding 1(1) v(1) [OF F, symmetric] v(2) [OF F, symmetric] n simp_thms
      by (rule div.columns [OF o s, unfolded no_traps]) (auto simp: BATcalcs typeswitchloops checkbats_def b(3))
  next
    assume 1: "calc = BATcalcmod" "op = (\<lambda>l r. swrap (width tp) l smod r)" and t: "mod_type (ttype b1) (ttype b2) tp"
      and T: "trap = (\<lambda>l r. width (ttype b1) = 64 \<and> width (ttype b2) = 32 \<and> l mod 2 ^ 32 = 2 ^ 31 \<and> r = - 1)"
    have F: "mod_spec (ttype b1) (ttype b2) tp = (\<lambda>l r. if r = 0 then None else Some (op l r))" by (simp add: fun_eq_iff mod_spec_def 1)
    have "in_type (ttype b1) (tvals b1 ! k)" if "k < length (tvals b1)" for k
      using b(1) that by (simp add: BATassertProps_iff)
    then have n: "bin_traps s (hseq b1) (nil_of (ttype b1)) (nil_of (ttype b2)) (mod_trap (ttype b1) (ttype b2) tp) (tvals b1) 1 (tvals b2) 1 k \<longleftrightarrow>
        ok k \<and> trap (tvals b1 ! k) (tvals b2 ! k)" if "k < length (tvals b1)" for k
      using mod_trap_iff [OF t, of "tvals b1 ! k" "tvals b2 ! k"] that by (auto simp: bin_traps_def ok T)
    have e: "(\<exists>k<length (tvals b1). bin_traps s (hseq b1) (nil_of (ttype b1)) (nil_of (ttype b2)) (mod_trap (ttype b1) (ttype b2) tp) (tvals b1) 1 (tvals b2) 1 k) =
        (\<exists>k<length (tvals b1). ok k \<and> trap (tvals b1 ! k) (tvals b2 ! k))"
      using n by blast
    have "mod_switch (ttype b1) (ttype b2) tp abort = Some (MOD_3TYPE (width (ttype b1)) (width (ttype b2)) (width tp) abort)"
      using t by (simp add: mod_switch_eq)
    then show ?thesis unfolding 1(1) v(1) [OF F, symmetric] v(2) [OF F, symmetric] e [symmetric]
      by (rule mod.columns [OF o s]) (auto simp: BATcalcs typeswitchloops checkbats_def b(3))
  qed
qed

theorem divmod_exact_witness:
  "\<exists>bn. BATcalcdiv ((BATnew TYPE_int)\<lparr>tvals := [7, - 7], tsorted := False\<rparr>) ((BATnew TYPE_bte)\<lparr>tvals := [0, 2], trevsorted := False\<rparr>)
    None TYPE_int False = Some bn \<and> tvals bn = [nil_of TYPE_int, - 3]"
proof -
  let ?b1 = "(BATnew TYPE_int)\<lparr>tvals := [7, - 7], tsorted := False\<rparr>"
  let ?b2 = "(BATnew TYPE_bte)\<lparr>tvals := [0, 2], trevsorted := False\<rparr>"
  have b: "BATassertProps ?b1" "BATassertProps ?b2" "length (tvals ?b1) = length (tvals ?b2)" "cands_ok (hseq ?b1) None" "bat_fits ?b1"
    "BATcalcdiv = BATcalcdiv \<and> (sdiv) = (sdiv) \<and> div_type (ttype ?b1) (ttype ?b2) TYPE_int \<and> (\<lambda>l r. False) = (\<lambda>l r :: int. False) \<or>
      BATcalcdiv = BATcalcmod \<and> (sdiv) = (\<lambda>l r. swrap (width TYPE_int) l smod r) \<and> mod_type (ttype ?b1) (ttype ?b2) TYPE_int \<and>
      (\<lambda>l r. False) = (\<lambda>l r. width (ttype ?b1) = 64 \<and> width (ttype ?b2) = 32 \<and> l mod 2 ^ 32 = 2 ^ 31 \<and> r = - 1)"
    by (simp_all add: BATassertProps_iff BATnew_def cands_ok_def in_type_bounds div_type_def)
  from divmod_exact [OF b refl, of False] show ?thesis
    by (auto simp: is_cand_def smin_def upt_rec signed_divide_int_def)
qed

text \<open>
  C37.  The remainder of a single value by another, neither 0 nor -1, is right when the dividend fits
  the result type, which is the smaller of the two types, and wrong when it does not fit and the
  divisor does not divide the part that is cut off: 300 modulo 7 is not computed as 6 when the
  dividend is an \<^verbatim>\<open>int\<close> and the divisor a \<^verbatim>\<open>bte\<close>.
\<close>

theorem mod_narrows:
  assumes "mod_type lt rt tp" "in_type lt l" "in_type rt r" "l \<noteq> nil_of lt" "r \<noteq> nil_of rt" "r \<noteq> 0" "r \<noteq> - 1"
  shows "\<exists>v. VARcalcmod tp lt l rt r abort = Some v \<and>
    (smin (width tp) \<le> l \<and> l \<le> smax (width tp) \<longrightarrow> v = l smod r) \<and>
    (\<not> r dvd l - swrap (width tp) l \<longrightarrow> v \<noteq> l smod r)"
proof -
  let ?c = "swrap (width tp) l"
  have sel: "mod_switch lt rt tp abort = Some (MOD_3TYPE (width lt) (width rt) (width tp) abort)"
    using assms(1) by (simp add: mod_switch_eq)
  have "VARcalcmod tp lt l rt r abort = Some (?c smod r)"
    by (subst mod.single [OF assms(2,3) sel])
      (use assms in \<open>simp_all add: VARcalcmod_def typeswitchloops bin_traps_def bin_fails_def bin_val_def is_cand_def mod_spec_def mod_trap_def\<close>)
  moreover have "?c = l" if "smin (width tp) \<le> l \<and> l \<le> smax (width tp)"
    using that sel mod.sel_type [OF sel] by (intro swrap_id) auto
  moreover have "r dvd l - ?c" if "?c smod r = l smod r"
  proof -
    have "l - ?c = r * (l sdiv r - ?c sdiv r)"
      using that mult_sdiv_smod_eq [of r l] mult_sdiv_smod_eq [of r ?c] by (simp add: right_diff_distrib)
    then show ?thesis by simp
  qed
  ultimately show ?thesis by auto
qed

theorem mod_narrows_witness:
  "\<exists>v. VARcalcmod TYPE_bte TYPE_int 300 TYPE_bte 7 True = Some v \<and> v \<noteq> 300 smod 7"
proof -
  have "\<not> (7 :: int) dvd 300 - swrap (width TYPE_bte) 300" by (simp add: swrap_def)
  moreover have "mod_type TYPE_int TYPE_bte TYPE_bte" "in_type TYPE_int 300" "in_type TYPE_bte 7"
      "300 \<noteq> nil_of TYPE_int" "7 \<noteq> nil_of TYPE_bte"
    by (simp_all add: mod_type_def in_type_bounds smin_def)
  ultimately show ?thesis using mod_narrows [of TYPE_int TYPE_bte TYPE_bte 300 7 True] by auto
qed

lemmas VARcalcs = VARcalcadd_def VARcalcsub_def VARcalcmul_def VARcalcdiv_def VARcalcmod_def
lemmas BATcalcsts = BATcalcaddcst_def BATcalcsubcst_def BATcalcmulcst_def BATcalcdivcst_def BATcalcmodcst_def
  BATcalccstadd_def BATcalccstsub_def BATcalccstmul_def BATcalccstdiv_def BATcalccstmod_def

text \<open>The loop of an operator and its result, whatever order is recorded.\<close>

lemma bin_result_loop:
  "do { (dst, nils) \<leftarrow> X; Some (bin_result tp seq (srt nils) (rv nils) (dst, nils)) } = Some bn \<Longrightarrow> \<exists>nils. X = Some (tvals bn, nils)"
  "do { (dst, nils) \<leftarrow> X; sg \<leftarrow> Y; Some (bin_result tp seq (srt' sg nils) (rv' sg nils) (dst, nils)) } = Some bn \<Longrightarrow> \<exists>nils. X = Some (tvals bn, nils)"
  by (auto simp: bin_result_def Let_def bind_eq_Some_conv)

lemma two_loop:
  "BATcalcadd b1 b2 s tp ab = Some bn \<Longrightarrow> \<exists>nils. add_typeswitchloop (tvals b1) (ttype b1) 1 (tvals b2) (ttype b2) 1 tp (candinit b1 s) (hseq b1) ab = Some (tvals bn, nils)"
  "BATcalcsub b1 b2 s tp ab = Some bn \<Longrightarrow> \<exists>nils. sub_typeswitchloop (tvals b1) (ttype b1) 1 (tvals b2) (ttype b2) 1 tp (candinit b1 s) (hseq b1) ab = Some (tvals bn, nils)"
  "BATcalcmul b1 b2 s tp ab = Some bn \<Longrightarrow> \<exists>nils. mul_typeswitchloop (tvals b1) (ttype b1) 1 (tvals b2) (ttype b2) 1 tp (candinit b1 s) (hseq b1) ab = Some (tvals bn, nils)"
  "BATcalcdiv b1 b2 s tp ab = Some bn \<Longrightarrow> \<exists>nils. div_typeswitchloop (tvals b1) (ttype b1) 1 (tvals b2) (ttype b2) 1 tp (candinit b1 s) (hseq b1) ab = Some (tvals bn, nils)"
  "BATcalcmod b1 b2 s tp ab = Some bn \<Longrightarrow> \<exists>nils. mod_typeswitchloop (tvals b1) (ttype b1) 1 (tvals b2) (ttype b2) 1 tp (candinit b1 s) (hseq b1) ab = Some (tvals bn, nils)"
  unfolding BATcalcs by (simp_all split: if_split_asm, (erule bin_result_loop)+)

lemma cst_loop:
  "BATcalcaddcst b vt v s tp ab = Some bn \<Longrightarrow> \<exists>nils. add_typeswitchloop (tvals b) (ttype b) 1 [v] vt 0 tp (candinit b s) (hseq b) ab = Some (tvals bn, nils)"
  "BATcalcsubcst b vt v s tp ab = Some bn \<Longrightarrow> \<exists>nils. sub_typeswitchloop (tvals b) (ttype b) 1 [v] vt 0 tp (candinit b s) (hseq b) ab = Some (tvals bn, nils)"
  "BATcalcmulcst b vt v s tp ab = Some bn \<Longrightarrow> \<exists>nils. mul_typeswitchloop (tvals b) (ttype b) 1 [v] vt 0 tp (candinit b s) (hseq b) ab = Some (tvals bn, nils)"
  "BATcalcdivcst b vt v s tp ab = Some bn \<Longrightarrow> \<exists>nils. div_typeswitchloop (tvals b) (ttype b) 1 [v] vt 0 tp (candinit b s) (hseq b) ab = Some (tvals bn, nils)"
  "BATcalcmodcst b vt v s tp ab = Some bn \<Longrightarrow> \<exists>nils. mod_typeswitchloop (tvals b) (ttype b) 1 [v] vt 0 tp (candinit b s) (hseq b) ab = Some (tvals bn, nils)"
  unfolding BATcalcsts by (simp_all split: if_split_asm, (erule bin_result_loop)+)

lemma rcst_loop:
  "BATcalccstadd vt v b s tp ab = Some bn \<Longrightarrow> \<exists>nils. add_typeswitchloop [v] vt 0 (tvals b) (ttype b) 1 tp (candinit b s) (hseq b) ab = Some (tvals bn, nils)"
  "BATcalccstsub vt v b s tp ab = Some bn \<Longrightarrow> \<exists>nils. sub_typeswitchloop [v] vt 0 (tvals b) (ttype b) 1 tp (candinit b s) (hseq b) ab = Some (tvals bn, nils)"
  "BATcalccstmul vt v b s tp ab = Some bn \<Longrightarrow> \<exists>nils. mul_typeswitchloop [v] vt 0 (tvals b) (ttype b) 1 tp (candinit b s) (hseq b) ab = Some (tvals bn, nils)"
  "BATcalccstdiv vt v b s tp ab = Some bn \<Longrightarrow> \<exists>nils. div_typeswitchloop [v] vt 0 (tvals b) (ttype b) 1 tp (candinit b s) (hseq b) ab = Some (tvals bn, nils)"
  "BATcalccstmod vt v b s tp ab = Some bn \<Longrightarrow> \<exists>nils. mod_typeswitchloop [v] vt 0 (tvals b) (ttype b) 1 tp (candinit b s) (hseq b) ab = Some (tvals bn, nils)"
  unfolding BATcalcsts by (simp_all split: if_split_asm, (erule bin_result_loop)+)

abbreviation at_row :: "cands option \<Rightarrow> bat \<Rightarrow> nat \<Rightarrow> tpe \<Rightarrow> bat \<Rightarrow> int option \<Rightarrow> bool" where
  "at_row s b k tp bn w \<equiv> (if is_cand s (hseq b + k) then w = Some (tvals bn ! k) else tvals bn ! k = nil_of tp)"

lemmas row_simps = mult_1_right mult_0_right nth_Cons_0

lemma two_rows:
  assumes b: "BATassertProps b" "BATassertProps b2" "length (tvals b) = length (tvals b2)" and s: "cands_ok (hseq b) s" "bat_fits b" and k: "k < length (tvals b)"
  shows "BATcalcadd b b2 s tp ab = Some bn \<Longrightarrow> at_row s b k tp bn (VARcalcadd tp (ttype b) (tvals b ! k) (ttype b2) (tvals b2 ! k) ab)"
    "BATcalcsub b b2 s tp ab = Some bn \<Longrightarrow> at_row s b k tp bn (VARcalcsub tp (ttype b) (tvals b ! k) (ttype b2) (tvals b2 ! k) ab)"
    "BATcalcmul b b2 s tp ab = Some bn \<Longrightarrow> at_row s b k tp bn (VARcalcmul tp (ttype b) (tvals b ! k) (ttype b2) (tvals b2 ! k) ab)"
    "BATcalcdiv b b2 s tp ab = Some bn \<Longrightarrow> at_row s b k tp bn (VARcalcdiv tp (ttype b) (tvals b ! k) (ttype b2) (tvals b2 ! k) ab)"
    "BATcalcmod b b2 s tp ab = Some bn \<Longrightarrow> at_row s b k tp bn (VARcalcmod tp (ttype b) (tvals b ! k) (ttype b2) (tvals b2 ! k) ab)"
proof -
  note a = operand_bat [OF b(1) refl] operand_bat [OF b(2,3)] s
  show "at_row s b k tp bn (VARcalcadd tp (ttype b) (tvals b ! k) (ttype b2) (tvals b2 ! k) ab)" if "BATcalcadd b b2 s tp ab = Some bn"
    using two_loop(1) [OF that] unfolding VARcalcs typeswitchloops by (elim exE) (drule add.row_single [OF a _ k refl refl], simp only: row_simps)
  show "at_row s b k tp bn (VARcalcsub tp (ttype b) (tvals b ! k) (ttype b2) (tvals b2 ! k) ab)" if "BATcalcsub b b2 s tp ab = Some bn"
    using two_loop(2) [OF that] unfolding VARcalcs typeswitchloops by (elim exE) (drule sub.row_single [OF a _ k refl refl], simp only: row_simps)
  show "at_row s b k tp bn (VARcalcmul tp (ttype b) (tvals b ! k) (ttype b2) (tvals b2 ! k) ab)" if "BATcalcmul b b2 s tp ab = Some bn"
    using two_loop(3) [OF that] unfolding VARcalcs typeswitchloops by (elim exE) (drule mul.row_single [OF a _ k refl refl], simp only: row_simps)
  show "at_row s b k tp bn (VARcalcdiv tp (ttype b) (tvals b ! k) (ttype b2) (tvals b2 ! k) ab)" if "BATcalcdiv b b2 s tp ab = Some bn"
    using two_loop(4) [OF that] unfolding VARcalcs typeswitchloops by (elim exE) (drule div.row_single [OF a _ k refl refl], simp only: row_simps)
  show "at_row s b k tp bn (VARcalcmod tp (ttype b) (tvals b ! k) (ttype b2) (tvals b2 ! k) ab)" if "BATcalcmod b b2 s tp ab = Some bn"
    using two_loop(5) [OF that] unfolding VARcalcs typeswitchloops by (elim exE) (drule mod.row_single [OF a _ k refl refl], simp only: row_simps)
qed

lemma cst_rows:
  assumes b: "BATassertProps b" "in_type vt v" and s: "cands_ok (hseq b) s" "bat_fits b" and k: "k < length (tvals b)"
  shows "BATcalcaddcst b vt v s tp ab = Some bn \<Longrightarrow> at_row s b k tp bn (VARcalcadd tp (ttype b) (tvals b ! k) vt v ab)"
    "BATcalcsubcst b vt v s tp ab = Some bn \<Longrightarrow> at_row s b k tp bn (VARcalcsub tp (ttype b) (tvals b ! k) vt v ab)"
    "BATcalcmulcst b vt v s tp ab = Some bn \<Longrightarrow> at_row s b k tp bn (VARcalcmul tp (ttype b) (tvals b ! k) vt v ab)"
    "BATcalcdivcst b vt v s tp ab = Some bn \<Longrightarrow> at_row s b k tp bn (VARcalcdiv tp (ttype b) (tvals b ! k) vt v ab)"
    "BATcalcmodcst b vt v s tp ab = Some bn \<Longrightarrow> at_row s b k tp bn (VARcalcmod tp (ttype b) (tvals b ! k) vt v ab)"
proof -
  note a = operand_bat [OF b(1) refl] operand_cst [OF b(2)] s
  show "at_row s b k tp bn (VARcalcadd tp (ttype b) (tvals b ! k) vt v ab)" if "BATcalcaddcst b vt v s tp ab = Some bn"
    using cst_loop(1) [OF that] unfolding VARcalcs typeswitchloops by (elim exE) (drule add.row_single [OF a _ k refl refl], simp only: row_simps)
  show "at_row s b k tp bn (VARcalcsub tp (ttype b) (tvals b ! k) vt v ab)" if "BATcalcsubcst b vt v s tp ab = Some bn"
    using cst_loop(2) [OF that] unfolding VARcalcs typeswitchloops by (elim exE) (drule sub.row_single [OF a _ k refl refl], simp only: row_simps)
  show "at_row s b k tp bn (VARcalcmul tp (ttype b) (tvals b ! k) vt v ab)" if "BATcalcmulcst b vt v s tp ab = Some bn"
    using cst_loop(3) [OF that] unfolding VARcalcs typeswitchloops by (elim exE) (drule mul.row_single [OF a _ k refl refl], simp only: row_simps)
  show "at_row s b k tp bn (VARcalcdiv tp (ttype b) (tvals b ! k) vt v ab)" if "BATcalcdivcst b vt v s tp ab = Some bn"
    using cst_loop(4) [OF that] unfolding VARcalcs typeswitchloops by (elim exE) (drule div.row_single [OF a _ k refl refl], simp only: row_simps)
  show "at_row s b k tp bn (VARcalcmod tp (ttype b) (tvals b ! k) vt v ab)" if "BATcalcmodcst b vt v s tp ab = Some bn"
    using cst_loop(5) [OF that] unfolding VARcalcs typeswitchloops by (elim exE) (drule mod.row_single [OF a _ k refl refl], simp only: row_simps)
qed

lemma rcst_rows:
  assumes b: "BATassertProps b" "in_type vt v" and s: "cands_ok (hseq b) s" "bat_fits b" and k: "k < length (tvals b)"
  shows "BATcalccstadd vt v b s tp ab = Some bn \<Longrightarrow> at_row s b k tp bn (VARcalcadd tp vt v (ttype b) (tvals b ! k) ab)"
    "BATcalccstsub vt v b s tp ab = Some bn \<Longrightarrow> at_row s b k tp bn (VARcalcsub tp vt v (ttype b) (tvals b ! k) ab)"
    "BATcalccstmul vt v b s tp ab = Some bn \<Longrightarrow> at_row s b k tp bn (VARcalcmul tp vt v (ttype b) (tvals b ! k) ab)"
    "BATcalccstdiv vt v b s tp ab = Some bn \<Longrightarrow> at_row s b k tp bn (VARcalcdiv tp vt v (ttype b) (tvals b ! k) ab)"
    "BATcalccstmod vt v b s tp ab = Some bn \<Longrightarrow> at_row s b k tp bn (VARcalcmod tp vt v (ttype b) (tvals b ! k) ab)"
proof -
  note a = operand_cst [OF b(2)] operand_bat [OF b(1) refl] s
  show "at_row s b k tp bn (VARcalcadd tp vt v (ttype b) (tvals b ! k) ab)" if "BATcalccstadd vt v b s tp ab = Some bn"
    using rcst_loop(1) [OF that] unfolding VARcalcs typeswitchloops by (elim exE) (drule add.row_single [OF a _ k refl refl], simp only: row_simps)
  show "at_row s b k tp bn (VARcalcsub tp vt v (ttype b) (tvals b ! k) ab)" if "BATcalccstsub vt v b s tp ab = Some bn"
    using rcst_loop(2) [OF that] unfolding VARcalcs typeswitchloops by (elim exE) (drule sub.row_single [OF a _ k refl refl], simp only: row_simps)
  show "at_row s b k tp bn (VARcalcmul tp vt v (ttype b) (tvals b ! k) ab)" if "BATcalccstmul vt v b s tp ab = Some bn"
    using rcst_loop(3) [OF that] unfolding VARcalcs typeswitchloops by (elim exE) (drule mul.row_single [OF a _ k refl refl], simp only: row_simps)
  show "at_row s b k tp bn (VARcalcdiv tp vt v (ttype b) (tvals b ! k) ab)" if "BATcalccstdiv vt v b s tp ab = Some bn"
    using rcst_loop(4) [OF that] unfolding VARcalcs typeswitchloops by (elim exE) (drule div.row_single [OF a _ k refl refl], simp only: row_simps)
  show "at_row s b k tp bn (VARcalcmod tp vt v (ttype b) (tvals b ! k) ab)" if "BATcalccstmod vt v b s tp ab = Some bn"
    using rcst_loop(5) [OF that] unfolding VARcalcs typeswitchloops by (elim exE) (drule mod.row_single [OF a _ k refl refl], simp only: row_simps)
qed

text \<open>
  C11.  The operators on columns, on a column and a constant and on a constant and a column agree with
  the operator on single values: at every candidate position the result is what the latter
  returns for the values of that row, and elsewhere it is nil.
\<close>

theorem arith_matches_VAR:
  assumes b: "BATassertProps b1" "BATassertProps b2" "length (tvals b1) = length (tvals b2)" "in_type vt v"
    and s: "cands_ok (hseq b1) s" "bat_fits b1" and k: "k < length (tvals b1)"
    and op: "(two, cst, rcst, var) \<in> {(BATcalcadd, BATcalcaddcst, BATcalccstadd, VARcalcadd), (BATcalcsub, BATcalcsubcst, BATcalccstsub, VARcalcsub),
      (BATcalcmul, BATcalcmulcst, BATcalccstmul, VARcalcmul), (BATcalcdiv, BATcalcdivcst, BATcalccstdiv, VARcalcdiv),
      (BATcalcmod, BATcalcmodcst, BATcalccstmod, VARcalcmod)}"
    and r: "two b1 b2 s tp abort = Some bn \<and> w = var tp (ttype b1) (tvals b1 ! k) (ttype b2) (tvals b2 ! k) abort \<or>
      cst b1 vt v s tp abort = Some bn \<and> w = var tp (ttype b1) (tvals b1 ! k) vt v abort \<or>
      rcst vt v b1 s tp abort = Some bn \<and> w = var tp vt v (ttype b1) (tvals b1 ! k) abort"
  shows "if is_cand s (hseq b1 + k) then w = Some (tvals bn ! k) else tvals bn ! k = nil_of tp"
proof -
  note rows = two_rows [OF b(1,2,3) s k] cst_rows [OF b(1,4) s k] rcst_rows [OF b(1,4) s k]
  have p: "P \<and> w = x \<or> P' \<and> w = y \<or> P'' \<and> w = z \<Longrightarrow> (P \<Longrightarrow> Q x) \<Longrightarrow> (P' \<Longrightarrow> Q y) \<Longrightarrow> (P'' \<Longrightarrow> Q z) \<Longrightarrow> Q w"
    for P P' P'' Q and x y z :: "int option" by blast
  consider (add) "two = BATcalcadd" "cst = BATcalcaddcst" "rcst = BATcalccstadd" "var = VARcalcadd" |
    (sub) "two = BATcalcsub" "cst = BATcalcsubcst" "rcst = BATcalccstsub" "var = VARcalcsub" |
    (mul) "two = BATcalcmul" "cst = BATcalcmulcst" "rcst = BATcalccstmul" "var = VARcalcmul" |
    (div) "two = BATcalcdiv" "cst = BATcalcdivcst" "rcst = BATcalccstdiv" "var = VARcalcdiv" |
    (mod) "two = BATcalcmod" "cst = BATcalcmodcst" "rcst = BATcalccstmod" "var = VARcalcmod" using op by blast
  then show ?thesis
  proof cases
    case add
    show ?thesis by (rule p [OF r [unfolded add]]) (rule rows, assumption)+
  next
    case sub
    show ?thesis by (rule p [OF r [unfolded sub]]) (rule rows, assumption)+
  next
    case mul
    show ?thesis by (rule p [OF r [unfolded mul]]) (rule rows, assumption)+
  next
    case div
    show ?thesis by (rule p [OF r [unfolded div]]) (rule rows, assumption)+
  next
    case mod
    show ?thesis by (rule p [OF r [unfolded mod]]) (rule rows, assumption)+
  qed
qed

theorem arith_matches_VAR_witness:
  "\<exists>bn. BATcalcmulcst ((BATnew TYPE_sht)\<lparr>tvals := [4, 7], trevsorted := False\<rparr>) TYPE_bte (- 3) None TYPE_sht True = Some bn \<and>
    VARcalcmul TYPE_sht TYPE_sht 7 TYPE_bte (- 3) True = Some (tvals bn ! 1)"
proof -
  let ?b = "(BATnew TYPE_sht)\<lparr>tvals := [4, 7], trevsorted := False\<rparr>"
  have b: "BATassertProps ?b" "BATassertProps ?b" "length (tvals ?b) = length (tvals ?b)" "in_type TYPE_bte (- 3)"
      "cands_ok (hseq ?b) None" "bat_fits ?b" "1 < length (tvals ?b)"
      "(BATcalcmul, BATcalcmulcst, BATcalccstmul, VARcalcmul) \<in>
        {(BATcalcadd, BATcalcaddcst, BATcalccstadd, VARcalcadd), (BATcalcsub, BATcalcsubcst, BATcalccstsub, VARcalcsub),
         (BATcalcmul, BATcalcmulcst, BATcalccstmul, VARcalcmul), (BATcalcdiv, BATcalcdivcst, BATcalccstdiv, VARcalcdiv),
         (BATcalcmod, BATcalcmodcst, BATcalccstmod, VARcalcmod)}"
    by (simp_all add: BATassertProps_iff BATnew_def cands_ok_def in_type_bounds)
  have "BATcalcmulcst ?b TYPE_bte (- 3) None TYPE_sht True = Some (bin_result TYPE_sht 0 False True ([- 12, - 21], 0))"
    by code_simp
  with arith_matches_VAR [OF b, of TYPE_sht True _ "VARcalcmul TYPE_sht TYPE_sht 7 TYPE_bte (- 3) True"]
  show ?thesis by (simp add: is_cand_def)
qed

subsection \<open>Recorded properties\<close>

lemma column_up:
  assumes "BATassertProps b" "tsorted b" "p < q" "q < length (tvals b)"
  shows "tvals b ! p \<le> tvals b ! q" "tvals b ! p \<noteq> nil_of (ttype b) \<Longrightarrow> tvals b ! q \<noteq> nil_of (ttype b)"
proof -
  show le: "tvals b ! p \<le> tvals b ! q" using assms sorted_nth_mono [of "tvals b" p q] by (simp add: BATassertProps_iff)
  have "in_type (ttype b) (tvals b ! p)" using assms by (simp add: BATassertProps_iff)
  then show "tvals b ! p \<noteq> nil_of (ttype b) \<Longrightarrow> tvals b ! q \<noteq> nil_of (ttype b)" using le by (auto simp: in_type_def)
qed

lemma column_down:
  assumes "BATassertProps b" "trevsorted b" "p < q" "q < length (tvals b)"
  shows "tvals b ! q \<le> tvals b ! p" "tvals b ! q \<noteq> nil_of (ttype b) \<Longrightarrow> tvals b ! p \<noteq> nil_of (ttype b)"
proof -
  show le: "tvals b ! q \<le> tvals b ! p" using assms sorted_wrt_nth_less [of "(\<ge>)" "tvals b" p q] by (simp add: BATassertProps_iff)
  have "in_type (ttype b) (tvals b ! q)" using assms by (simp add: BATassertProps_iff)
  then show "tvals b ! q \<noteq> nil_of (ttype b) \<Longrightarrow> tvals b ! p \<noteq> nil_of (ttype b)" using le by (auto simp: in_type_def)
qed

context binary_op
begin

lemma cst_up:
  assumes b: "BATassertProps b" "in_type vt v" "cands_ok (hseq b) None" "bat_fits b"
    and r: "do { loop \<leftarrow> sel (ttype b) vt tp True; loop (tvals b) 1 [v] 0 (candinit b None) (hseq b) } = Some (dst, nils)"
    and mono: "\<And>x y l r. x \<le> y \<Longrightarrow> spec (ttype b) vt tp x v = Some l \<Longrightarrow> spec (ttype b) vt tp y v = Some r \<Longrightarrow> l \<le> r"
  shows "tsorted b \<Longrightarrow> sorted dst" "trevsorted b \<Longrightarrow> sorted_wrt (\<ge>) dst"
proof -
  note a = operand_bat [OF b(1) refl] operand_cst [OF b(2)] b(3,4) r
  show "sorted dst" if "tsorted b" using column_up(2) [OF b(1) that]
    by (intro sorted_dst [OF a]) (auto intro: mono [OF column_up(1) [OF b(1) that]])
  show "sorted_wrt (\<ge>) dst" if "trevsorted b" using column_down(2) [OF b(1) that]
    by (intro revsorted_dst [OF a]) (auto intro: mono [OF column_down(1) [OF b(1) that]])
qed

lemma cst_down:
  assumes b: "BATassertProps b" "in_type vt v" "cands_ok (hseq b) None" "bat_fits b"
    and r: "do { loop \<leftarrow> sel (ttype b) vt tp True; loop (tvals b) 1 [v] 0 (candinit b None) (hseq b) } = Some (dst, 0)"
    and mono: "\<And>x y l r. x \<le> y \<Longrightarrow> spec (ttype b) vt tp x v = Some l \<Longrightarrow> spec (ttype b) vt tp y v = Some r \<Longrightarrow> r \<le> l"
  shows "trevsorted b \<Longrightarrow> sorted dst" "tsorted b \<Longrightarrow> sorted_wrt (\<ge>) dst"
proof -
  note a = operand_bat [OF b(1) refl] operand_cst [OF b(2)] b(3,4) r
  show "sorted dst" if "trevsorted b"
    using dst_no_nils [OF a]
    by (intro sorted_dst [OF a]) (auto intro: mono [OF column_down(1) [OF b(1) that]])
  show "sorted_wrt (\<ge>) dst" if "tsorted b"
    using dst_no_nils [OF a]
    by (intro revsorted_dst [OF a]) (auto intro: mono [OF column_up(1) [OF b(1) that]])
qed

lemma rcst_up:
  assumes b: "BATassertProps b" "in_type vt v" "cands_ok (hseq b) None" "bat_fits b"
    and r: "do { loop \<leftarrow> sel vt (ttype b) tp True; loop [v] 0 (tvals b) 1 (candinit b None) (hseq b) } = Some (dst, nils)"
    and mono: "\<And>x y l r. x \<le> y \<Longrightarrow> spec vt (ttype b) tp v x = Some l \<Longrightarrow> spec vt (ttype b) tp v y = Some r \<Longrightarrow> l \<le> r"
  shows "tsorted b \<Longrightarrow> sorted dst" "trevsorted b \<Longrightarrow> sorted_wrt (\<ge>) dst"
proof -
  note a = operand_cst [OF b(2)] operand_bat [OF b(1) refl] b(3,4) r
  show "sorted dst" if "tsorted b" using column_up(2) [OF b(1) that]
    by (intro sorted_dst [OF a]) (auto intro: mono [OF column_up(1) [OF b(1) that]])
  show "sorted_wrt (\<ge>) dst" if "trevsorted b" using column_down(2) [OF b(1) that]
    by (intro revsorted_dst [OF a]) (auto intro: mono [OF column_down(1) [OF b(1) that]])
qed

lemma rcst_down:
  assumes b: "BATassertProps b" "in_type vt v" "cands_ok (hseq b) None" "bat_fits b"
    and r: "do { loop \<leftarrow> sel vt (ttype b) tp True; loop [v] 0 (tvals b) 1 (candinit b None) (hseq b) } = Some (dst, 0)"
    and mono: "\<And>x y l r. x \<le> y \<Longrightarrow> spec vt (ttype b) tp v x = Some l \<Longrightarrow> spec vt (ttype b) tp v y = Some r \<Longrightarrow> r \<le> l"
  shows "trevsorted b \<Longrightarrow> sorted dst" "tsorted b \<Longrightarrow> sorted_wrt (\<ge>) dst"
proof -
  note a = operand_cst [OF b(2)] operand_bat [OF b(1) refl] b(3,4) r
  show "sorted dst" if "trevsorted b"
    using dst_no_nils [OF a]
    by (intro sorted_dst [OF a]) (auto intro: mono [OF column_down(1) [OF b(1) that]])
  show "sorted_wrt (\<ge>) dst" if "tsorted b"
    using dst_no_nils [OF a]
    by (intro revsorted_dst [OF a]) (auto intro: mono [OF column_up(1) [OF b(1) that]])
qed

end

lemma sum_spec_Some: "sum_spec op tp1 tp2 tp l r = Some v \<longleftrightarrow> v = op l r \<and> nil_of tp < op l r \<and> op l r \<le> smax (width tp)"
  by (auto simp: sum_spec_def fit_def)

lemma add_two_order:
  assumes b: "BATassertProps b" "BATassertProps b2" "length (tvals b) = length (tvals b2)" and s: "cands_ok (hseq b) None" "bat_fits b"
    and r: "add_typeswitchloop (tvals b) (ttype b) 1 (tvals b2) (ttype b2) 1 tp (candinit b None) (hseq b) True = Some (dst, nils)"
  shows "tsorted b \<Longrightarrow> tsorted b2 \<Longrightarrow> sorted dst" "trevsorted b \<Longrightarrow> trevsorted b2 \<Longrightarrow> sorted_wrt (\<ge>) dst"
proof -
  note a = operand_bat [OF b(1) refl] operand_bat [OF b(2,3)] s r [unfolded typeswitchloops]
  show "sorted dst" if "tsorted b" "tsorted b2"
    using column_up [OF b(1) that(1)] column_up [OF b(2) that(2)] b(3)
    by (intro add.sorted_dst [OF a]) (auto simp: sum_spec_Some intro: add_mono)
  show "sorted_wrt (\<ge>) dst" if "trevsorted b" "trevsorted b2"
    using column_down [OF b(1) that(1)] column_down [OF b(2) that(2)] b(3)
    by (intro add.revsorted_dst [OF a]) (auto simp: sum_spec_Some intro: add_mono)
qed

lemma sign_of: "VARcalcsign vt v = Some (t, x) \<Longrightarrow> (0 \<le> x \<longrightarrow> 0 \<le> v) \<and> (x \<le> 0 \<longrightarrow> v \<le> 0)"
  by (cases vt) (auto simp: VARcalcsign_def ATOMstorage_def SIGN_def smin_def split: if_split_asm)

text \<open>Sums with a constant keep the order, differences from a constant reverse it, products do either.\<close>

lemma sum_mono:
  assumes "x \<le> y"
  shows "sum_spec (+) t u tp x v = Some l \<Longrightarrow> sum_spec (+) t u tp y v = Some r \<Longrightarrow> l \<le> r"
    "sum_spec (+) t u tp v x = Some l \<Longrightarrow> sum_spec (+) t u tp v y = Some r \<Longrightarrow> l \<le> r"
    "sum_spec (-) t u tp x v = Some l \<Longrightarrow> sum_spec (-) t u tp y v = Some r \<Longrightarrow> l \<le> r"
    "sum_spec (-) t u tp v x = Some l \<Longrightarrow> sum_spec (-) t u tp v y = Some r \<Longrightarrow> r \<le> l"
    "0 \<le> v \<Longrightarrow> sum_spec (*) t u tp x v = Some l \<Longrightarrow> sum_spec (*) t u tp y v = Some r \<Longrightarrow> l \<le> r"
    "v \<le> 0 \<Longrightarrow> sum_spec (*) t u tp x v = Some l \<Longrightarrow> sum_spec (*) t u tp y v = Some r \<Longrightarrow> r \<le> l"
    "0 \<le> v \<Longrightarrow> sum_spec (*) t u tp v x = Some l \<Longrightarrow> sum_spec (*) t u tp v y = Some r \<Longrightarrow> l \<le> r"
    "v \<le> 0 \<Longrightarrow> sum_spec (*) t u tp v x = Some l \<Longrightarrow> sum_spec (*) t u tp v y = Some r \<Longrightarrow> r \<le> l"
  using assms by (auto simp: sum_spec_Some intro: mult_right_mono mult_right_mono_neg mult_left_mono mult_left_mono_neg)

lemma calc_Some: "do { (dst, nils) \<leftarrow> X; Some (f dst nils) } = Some bn \<longleftrightarrow> (\<exists>dst nils. X = Some (dst, nils) \<and> bn = f dst nils)"
  by (auto simp: bind_eq_Some_conv)

lemma sign_Some: "do { (dst, nils) \<leftarrow> X; sign \<leftarrow> (case VARcalcsign vt v of Some (t, x) \<Rightarrow> Some x | None \<Rightarrow> None); Some (f sign dst nils) } = Some bn \<longleftrightarrow>
    (\<exists>dst nils t sign. X = Some (dst, nils) \<and> VARcalcsign vt v = Some (t, sign) \<and> bn = f sign dst nils)"
  by (auto simp: bind_eq_Some_conv split: option.splits)

text \<open>The operators that record an order.\<close>

lemma BATcalcadd_props:
  assumes b: "BATassertProps b" and s: "cands_ok (hseq b) s" "bat_fits b" and tp: "tp \<noteq> TYPE_bit"
    and o: "s = None \<or> \<not> ab \<or> \<not> tsorted b \<and> \<not> trevsorted b"
    and b2: "BATassertProps b2" and r: "BATcalcadd b b2 s tp ab = Some bn"
  shows "BATassertProps bn"
proof -
  have l: "length (tvals b) = length (tvals b2)" using r by (auto simp: BATcalcadd_def checkbats_def split: if_split_asm)
  obtain dst nils where X: "add_typeswitchloop (tvals b) (ttype b) 1 (tvals b2) (ttype b2) 1 tp (candinit b s) (hseq b) ab = Some (dst, nils)"
    and bn: "bn = bin_result tp (hseq b) (ab \<and> tsorted b \<and> tsorted b2) (ab \<and> trevsorted b \<and> trevsorted b2) (dst, nils)"
    using r l by (auto simp: BATcalcadd_def checkbats_def calc_Some)
  note X = X [unfolded typeswitchloops]
  show ?thesis
    unfolding bn
  proof (rule add.switched_props [OF operand_bat [OF b refl] operand_bat [OF b2 l] s tp X])
    assume f: "ab \<and> tsorted b \<and> tsorted b2"
    then have n: "s = None" "ab" using o by auto
    show "sorted dst" using f n add_two_order(1) [OF b b2 l] s X by (simp add: typeswitchloops)
  next
    assume f: "ab \<and> trevsorted b \<and> trevsorted b2"
    then have n: "s = None" "ab" using o by auto
    show "sorted_wrt (\<ge>) dst" using f n add_two_order(2) [OF b b2 l] s X by (simp add: typeswitchloops)
  qed
qed

lemma BATcalcaddcst_props:
  assumes b: "BATassertProps b" and s: "cands_ok (hseq b) s" "bat_fits b" and tp: "tp \<noteq> TYPE_bit"
    and o: "s = None \<or> \<not> ab \<or> \<not> tsorted b \<and> \<not> trevsorted b"
    and v: "in_type vt v" and r: "BATcalcaddcst b vt v s tp ab = Some bn"
  shows "BATassertProps bn"
proof -
  obtain dst nils where X: "add_typeswitchloop (tvals b) (ttype b) 1 [v] vt 0 tp (candinit b s) (hseq b) ab = Some (dst, nils)"
    and bn: "bn = bin_result tp (hseq b) (ab \<and> tsorted b) (ab \<and> trevsorted b) (dst, nils)"
    using r by (auto simp: BATcalcaddcst_def checkbats_def calc_Some)
  note X = X [unfolded typeswitchloops]
  show ?thesis
    unfolding bn
  proof (rule add.switched_props [OF operand_bat [OF b refl] operand_cst [OF v] s tp X])
    assume f: "ab \<and> tsorted b"
    then have n: "s = None" "ab" using o by auto
    show "sorted dst" using f s X n by (intro add.cst_up(1) [OF b v]) (auto intro: sum_mono(1))
  next
    assume f: "ab \<and> trevsorted b"
    then have n: "s = None" "ab" using o by auto
    show "sorted_wrt (\<ge>) dst" using f s X n by (intro add.cst_up(2) [OF b v]) (auto intro: sum_mono(1))
  qed
qed

lemma BATcalccstadd_props:
  assumes b: "BATassertProps b" and s: "cands_ok (hseq b) s" "bat_fits b" and tp: "tp \<noteq> TYPE_bit"
    and o: "s = None \<or> \<not> ab \<or> \<not> tsorted b \<and> \<not> trevsorted b"
    and v: "in_type vt v" and r: "BATcalccstadd vt v b s tp ab = Some bn"
  shows "BATassertProps bn"
proof -
  obtain dst nils where X: "add_typeswitchloop [v] vt 0 (tvals b) (ttype b) 1 tp (candinit b s) (hseq b) ab = Some (dst, nils)"
    and bn: "bn = bin_result tp (hseq b) (ab \<and> tsorted b) (ab \<and> trevsorted b) (dst, nils)"
    using r by (auto simp: BATcalccstadd_def checkbats_def calc_Some)
  note X = X [unfolded typeswitchloops]
  show ?thesis
    unfolding bn
  proof (rule add.switched_props [OF operand_cst [OF v] operand_bat [OF b refl] s tp X])
    assume f: "ab \<and> tsorted b"
    then have n: "s = None" "ab" using o by auto
    show "sorted dst" using f s X n by (intro add.rcst_up(1) [OF b v]) (auto intro: sum_mono(2))
  next
    assume f: "ab \<and> trevsorted b"
    then have n: "s = None" "ab" using o by auto
    show "sorted_wrt (\<ge>) dst" using f s X n by (intro add.rcst_up(2) [OF b v]) (auto intro: sum_mono(2))
  qed
qed

lemma BATcalcsubcst_props:
  assumes b: "BATassertProps b" and s: "cands_ok (hseq b) s" "bat_fits b" and tp: "tp \<noteq> TYPE_bit"
    and o: "s = None \<or> \<not> ab \<or> \<not> tsorted b \<and> \<not> trevsorted b"
    and v: "in_type vt v" and r: "BATcalcsubcst b vt v s tp ab = Some bn"
  shows "BATassertProps bn"
proof -
  obtain dst nils where X: "sub_typeswitchloop (tvals b) (ttype b) 1 [v] vt 0 tp (candinit b s) (hseq b) ab = Some (dst, nils)"
    and bn: "bn = bin_result tp (hseq b) (ab \<and> tsorted b) (ab \<and> trevsorted b) (dst, nils)"
    using r by (auto simp: BATcalcsubcst_def checkbats_def calc_Some)
  note X = X [unfolded typeswitchloops]
  show ?thesis
    unfolding bn
  proof (rule sub.switched_props [OF operand_bat [OF b refl] operand_cst [OF v] s tp X])
    assume f: "ab \<and> tsorted b"
    then have n: "s = None" "ab" using o by auto
    show "sorted dst" using f s X n by (intro sub.cst_up(1) [OF b v]) (auto intro: sum_mono(3))
  next
    assume f: "ab \<and> trevsorted b"
    then have n: "s = None" "ab" using o by auto
    show "sorted_wrt (\<ge>) dst" using f s X n by (intro sub.cst_up(2) [OF b v]) (auto intro: sum_mono(3))
  qed
qed

lemma BATcalccstsub_props:
  assumes b: "BATassertProps b" and s: "cands_ok (hseq b) s" "bat_fits b" and tp: "tp \<noteq> TYPE_bit"
    and o: "s = None \<or> \<not> ab \<or> \<not> tsorted b \<and> \<not> trevsorted b"
    and v: "in_type vt v" and r: "BATcalccstsub vt v b s tp ab = Some bn"
  shows "BATassertProps bn"
proof -
  obtain dst nils where X: "sub_typeswitchloop [v] vt 0 (tvals b) (ttype b) 1 tp (candinit b s) (hseq b) ab = Some (dst, nils)"
    and bn: "bn = bin_result tp (hseq b) (ab \<and> nils = 0 \<and> trevsorted b) (ab \<and> nils = 0 \<and> tsorted b) (dst, nils)"
    using r by (auto simp: BATcalccstsub_def checkbats_def calc_Some)
  note X = X [unfolded typeswitchloops]
  show ?thesis
    unfolding bn
  proof (rule sub.switched_props [OF operand_cst [OF v] operand_bat [OF b refl] s tp X])
    assume f: "ab \<and> nils = 0 \<and> trevsorted b"
    then have n: "s = None" "ab" using o by auto
    show "sorted dst" using f s X n by (intro sub.rcst_down(1) [OF b v]) (auto intro: sum_mono(4))
  next
    assume f: "ab \<and> nils = 0 \<and> tsorted b"
    then have n: "s = None" "ab" using o by auto
    show "sorted_wrt (\<ge>) dst" using f s X n by (intro sub.rcst_down(2) [OF b v]) (auto intro: sum_mono(4))
  qed
qed

lemma BATcalcmulcst_props:
  assumes b: "BATassertProps b" and s: "cands_ok (hseq b) s" "bat_fits b" and tp: "tp \<noteq> TYPE_bit"
    and o: "s = None \<or> \<not> ab \<or> \<not> tsorted b \<and> \<not> trevsorted b"
    and v: "in_type vt v" and r: "BATcalcmulcst b vt v s tp ab = Some bn"
  shows "BATassertProps bn"
proof -
  obtain dst nils t sign where X: "mul_typeswitchloop (tvals b) (ttype b) 1 [v] vt 0 tp (candinit b s) (hseq b) ab = Some (dst, nils)"
    and g: "VARcalcsign vt v = Some (t, sign)"
    and bn: "bn = bin_result tp (hseq b) (ab \<and> (sign \<ge> 0 \<and> tsorted b \<or> sign \<le> 0 \<and> trevsorted b \<and> nils = 0)) (ab \<and> (sign \<ge> 0 \<and> trevsorted b \<or> sign \<le> 0 \<and> tsorted b \<and> nils = 0)) (dst, nils)"
    using r by (auto simp: BATcalcmulcst_def checkbats_def sign_Some)
  note X = X [unfolded typeswitchloops]
  show ?thesis
    unfolding bn
  proof (rule mul.switched_props [OF operand_bat [OF b refl] operand_cst [OF v] s tp X])
    assume f: "ab \<and> (sign \<ge> 0 \<and> tsorted b \<or> sign \<le> 0 \<and> trevsorted b \<and> nils = 0)"
    then have n: "s = None" "ab" using o by auto
    show "sorted dst"
    proof (cases "0 \<le> sign \<and> tsorted b")
      case True
      then have "0 \<le> v" using sign_of [OF g] by blast
      then show ?thesis using True s X n by (intro mul.cst_up(1) [OF b v]) (auto intro: sum_mono(5))
    next
      case False
      then have d: "v \<le> 0" "trevsorted b" "nils = 0" using f sign_of [OF g] by blast+
      then show ?thesis using s X n by (intro mul.cst_down(1) [OF b v]) (auto intro: sum_mono(6))
    qed
  next
    assume f: "ab \<and> (sign \<ge> 0 \<and> trevsorted b \<or> sign \<le> 0 \<and> tsorted b \<and> nils = 0)"
    then have n: "s = None" "ab" using o by auto
    show "sorted_wrt (\<ge>) dst"
    proof (cases "0 \<le> sign \<and> trevsorted b")
      case True
      then have "0 \<le> v" using sign_of [OF g] by blast
      then show ?thesis using True s X n by (intro mul.cst_up(2) [OF b v]) (auto intro: sum_mono(5))
    next
      case False
      then have d: "v \<le> 0" "tsorted b" "nils = 0" using f sign_of [OF g] by blast+
      then show ?thesis using s X n by (intro mul.cst_down(2) [OF b v]) (auto intro: sum_mono(6))
    qed
  qed
qed

lemma BATcalccstmul_props:
  assumes b: "BATassertProps b" and s: "cands_ok (hseq b) s" "bat_fits b" and tp: "tp \<noteq> TYPE_bit"
    and o: "s = None \<or> \<not> ab \<or> \<not> tsorted b \<and> \<not> trevsorted b"
    and v: "in_type vt v" and r: "BATcalccstmul vt v b s tp ab = Some bn"
  shows "BATassertProps bn"
proof -
  obtain dst nils t sign where X: "mul_typeswitchloop [v] vt 0 (tvals b) (ttype b) 1 tp (candinit b s) (hseq b) ab = Some (dst, nils)"
    and g: "VARcalcsign vt v = Some (t, sign)"
    and bn: "bn = bin_result tp (hseq b) (ab \<and> (sign \<ge> 0 \<and> tsorted b \<or> sign \<le> 0 \<and> trevsorted b \<and> nils = 0)) (ab \<and> (sign \<ge> 0 \<and> trevsorted b \<or> sign \<le> 0 \<and> tsorted b \<and> nils = 0)) (dst, nils)"
    using r by (auto simp: BATcalccstmul_def checkbats_def sign_Some)
  note X = X [unfolded typeswitchloops]
  show ?thesis
    unfolding bn
  proof (rule mul.switched_props [OF operand_cst [OF v] operand_bat [OF b refl] s tp X])
    assume f: "ab \<and> (sign \<ge> 0 \<and> tsorted b \<or> sign \<le> 0 \<and> trevsorted b \<and> nils = 0)"
    then have n: "s = None" "ab" using o by auto
    show "sorted dst"
    proof (cases "0 \<le> sign \<and> tsorted b")
      case True
      then have "0 \<le> v" using sign_of [OF g] by blast
      then show ?thesis using True s X n by (intro mul.rcst_up(1) [OF b v]) (auto intro: sum_mono(7))
    next
      case False
      then have d: "v \<le> 0" "trevsorted b" "nils = 0" using f sign_of [OF g] by blast+
      then show ?thesis using s X n by (intro mul.rcst_down(1) [OF b v]) (auto intro: sum_mono(8))
    qed
  next
    assume f: "ab \<and> (sign \<ge> 0 \<and> trevsorted b \<or> sign \<le> 0 \<and> tsorted b \<and> nils = 0)"
    then have n: "s = None" "ab" using o by auto
    show "sorted_wrt (\<ge>) dst"
    proof (cases "0 \<le> sign \<and> trevsorted b")
      case True
      then have "0 \<le> v" using sign_of [OF g] by blast
      then show ?thesis using True s X n by (intro mul.rcst_up(2) [OF b v]) (auto intro: sum_mono(7))
    next
      case False
      then have d: "v \<le> 0" "tsorted b" "nils = 0" using f sign_of [OF g] by blast+
      then show ?thesis using s X n by (intro mul.rcst_down(2) [OF b v]) (auto intro: sum_mono(8))
    qed
  qed
qed

text \<open>The operators that record none.\<close>

lemma mixed_unordered_props:
  assumes b: "BATassertProps b" and s: "cands_ok (hseq b) s" "bat_fits b" and tp: "tp \<noteq> TYPE_bit" and v: "in_type vt v"
    and b2: "BATassertProps b2"
  shows "BATcalcsub b b2 s tp ab = Some bn \<Longrightarrow> BATassertProps bn"
    "BATcalcmul b b2 s tp ab = Some bn \<Longrightarrow> BATassertProps bn"
    "BATcalcdiv b b2 s tp ab = Some bn \<Longrightarrow> BATassertProps bn"
    "BATcalcmod b b2 s tp ab = Some bn \<Longrightarrow> BATassertProps bn"
    "BATcalcdivcst b vt v s tp ab = Some bn \<Longrightarrow> BATassertProps bn"
    "BATcalcmodcst b vt v s tp ab = Some bn \<Longrightarrow> BATassertProps bn"
    "BATcalccstdiv vt v b s tp ab = Some bn \<Longrightarrow> BATassertProps bn"
    "BATcalccstmod vt v b s tp ab = Some bn \<Longrightarrow> BATassertProps bn"
proof -
  note cst = operand_bat [OF b refl] operand_cst [OF v] s tp
  note rcst = operand_cst [OF v] operand_bat [OF b refl] s tp
  note d = BATcalcs BATcalcsts checkbats_def calc_Some
  show "BATassertProps bn" if "BATcalcsub b b2 s tp ab = Some bn"
    using that by (auto simp: d split: if_split_asm
      intro!: sub.switched_props [OF operand_bat [OF b refl] operand_bat [OF b2] s tp, folded sub_typeswitchloop_def])
  show "BATassertProps bn" if "BATcalcmul b b2 s tp ab = Some bn"
    using that by (auto simp: d split: if_split_asm
      intro!: mul.switched_props [OF operand_bat [OF b refl] operand_bat [OF b2] s tp, folded mul_typeswitchloop_def])
  show "BATassertProps bn" if "BATcalcdiv b b2 s tp ab = Some bn"
    using that by (auto simp: d split: if_split_asm
      intro!: div.switched_props [OF operand_bat [OF b refl] operand_bat [OF b2] s tp, folded div_typeswitchloop_def])
  show "BATassertProps bn" if "BATcalcmod b b2 s tp ab = Some bn"
    using that by (auto simp: d split: if_split_asm
      intro!: mod.switched_props [OF operand_bat [OF b refl] operand_bat [OF b2] s tp, folded mod_typeswitchloop_def])
  show "BATassertProps bn" if "BATcalcdivcst b vt v s tp ab = Some bn"
    using that by (auto simp: d intro!: div.switched_props [OF cst, folded div_typeswitchloop_def])
  show "BATassertProps bn" if "BATcalcmodcst b vt v s tp ab = Some bn"
    using that by (auto simp: d intro!: mod.switched_props [OF cst, folded mod_typeswitchloop_def])
  show "BATassertProps bn" if "BATcalccstdiv vt v b s tp ab = Some bn"
    using that by (auto simp: d intro!: div.switched_props [OF rcst, folded div_typeswitchloop_def])
  show "BATassertProps bn" if "BATcalccstmod vt v b s tp ab = Some bn"
    using that by (auto simp: d intro!: mod.switched_props [OF rcst, folded mod_typeswitchloop_def])
qed

text \<open>
  C10.  The properties recorded for the result of every arithmetic operator are true of it when those
  of the arguments are: sorted, sorted in reverse, distinct, some nil, no nil.  The result
  type is not \<^verbatim>\<open>bit\<close>, and there is no candidate list, or errors are not to be reported, or the argument has no
  order recorded: with a candidate list and an order the recorded order can be false.
\<close>

theorem arith_props:
  assumes b: "BATassertProps b" "BATassertProps b2" "in_type vt v" and s: "cands_ok (hseq b) s" "bat_fits b" and tp: "tp \<noteq> TYPE_bit"
    and o: "s = None \<or> \<not> abort \<or> \<not> tsorted b \<and> \<not> trevsorted b"
    and r: "Some bn \<in> {BATcalcadd b b2 s tp abort, BATcalcaddcst b vt v s tp abort, BATcalccstadd vt v b s tp abort,
      BATcalcsub b b2 s tp abort, BATcalcsubcst b vt v s tp abort, BATcalccstsub vt v b s tp abort,
      BATcalcmul b b2 s tp abort, BATcalcmulcst b vt v s tp abort, BATcalccstmul vt v b s tp abort,
      BATcalcdiv b b2 s tp abort, BATcalcdivcst b vt v s tp abort, BATcalccstdiv vt v b s tp abort,
      BATcalcmod b b2 s tp abort, BATcalcmodcst b vt v s tp abort, BATcalccstmod vt v b s tp abort}"
  shows "BATassertProps bn"
proof -
  note ordered = BATcalcadd_props [OF b(1) s tp o b(2)] BATcalcaddcst_props [OF b(1) s tp o b(3)] BATcalccstadd_props [OF b(1) s tp o b(3)]
    BATcalcsubcst_props [OF b(1) s tp o b(3)] BATcalccstsub_props [OF b(1) s tp o b(3)]
    BATcalcmulcst_props [OF b(1) s tp o b(3)] BATcalccstmul_props [OF b(1) s tp o b(3)]
  note unordered = mixed_unordered_props [OF b(1) s tp b(3) b(2)]
  show ?thesis
    using r by (elim insertE emptyE) (erule ordered [OF sym] unordered [OF sym])+
qed

theorem arith_props_witness:
  "\<exists>bn. BATcalcmulcst ((BATnew TYPE_sht)\<lparr>tvals := [4, 7], trevsorted := False\<rparr>) TYPE_bte (- 3) None TYPE_sht True = Some bn \<and> BATassertProps bn"
proof -
  let ?b = "(BATnew TYPE_sht)\<lparr>tvals := [4, 7], trevsorted := False\<rparr>"
  have b: "BATassertProps ?b" "BATassertProps ?b" "in_type TYPE_bte (- 3)" "cands_ok (hseq ?b) None" "bat_fits ?b" "TYPE_sht \<noteq> TYPE_bit"
    by (simp_all add: BATassertProps_iff BATnew_def cands_ok_def in_type_bounds)
  have "BATcalcmulcst ?b TYPE_bte (- 3) None TYPE_sht True = Some (bin_result TYPE_sht 0 False True ([- 12, - 21], 0))"
    by code_simp
  with arith_props [OF b, of True] show ?thesis by (metis insertCI)
qed

text \<open>
  With a candidate list the recorded order can be false: when two columns marked as sorted are
  added, a candidate row has a value and a later row is not a candidate, the result is marked as
  sorted although a nil follows a value.
\<close>

theorem add_cands_unsorted:
  assumes b: "BATassertProps b" "BATassertProps b2" and s: "cands_ok (hseq b) s" "bat_fits b"
    and srt: "tsorted b" "tsorted b2" and r: "BATcalcadd b b2 s tp True = Some bn"
    and ij: "i < j" "j < length (tvals b)" "is_cand s (hseq b + i)" "\<not> is_cand s (hseq b + j)"
    and v: "tvals b ! i \<noteq> nil_of (ttype b)" "tvals b2 ! i \<noteq> nil_of (ttype b2)"
  shows "tsorted bn \<and> \<not> sorted (tvals bn)"
proof -
  have l: "length (tvals b) = length (tvals b2)" using r by (auto simp: BATcalcadd_def checkbats_def split: if_split_asm)
  note a = operand_bat [OF b(1) refl] operand_bat [OF b(2) l] s
  obtain dst nils where X: "add_typeswitchloop (tvals b) (ttype b) 1 (tvals b2) (ttype b2) 1 tp (candinit b s) (hseq b) True = Some (dst, nils)"
    and bn: "bn = bin_result tp (hseq b) (tsorted b \<and> tsorted b2) (trevsorted b \<and> trevsorted b2) (dst, nils)"
    using r l by (auto simp: BATcalcadd_def checkbats_def calc_Some)
  note X = X [unfolded typeswitchloops]
  note sw = add.switched [OF a X]
  have i: "i < length (tvals b)" using ij by simp
  obtain x where x: "sum_spec (+) (ttype b) (ttype b2) tp (tvals b ! i) (tvals b2 ! i) = Some x"
    using sw(4) [OF TrueI i] ij(3) v unfolding bin_fails_def mult_1_right by auto
  have "dst ! i = x" using sw(2) i ij(3) v x by (simp add: bin_val_def)
  then have "nil_of tp < dst ! i" using x by (simp add: sum_spec_Some)
  moreover have "dst ! j = nil_of tp" using sw(2) ij by (simp add: bin_val_def)
  moreover have "j < length dst" using sw(2) ij(2) by simp
  ultimately have "\<not> sorted dst" using sorted_nth_mono [of dst i j] ij(1) by auto
  then show ?thesis using srt unfolding bn by (simp add: bin_result_def Let_def)
qed

theorem add_cands_unsorted_witness:
  "\<exists>bn. BATcalcadd ((BATnew TYPE_int)\<lparr>tvals := [1, 2], trevsorted := False\<rparr>) ((BATnew TYPE_int)\<lparr>tvals := [1, 2], trevsorted := False\<rparr>)
      (Some (Dense 0 1)) TYPE_int True = Some bn \<and> tsorted bn \<and> \<not> sorted (tvals bn)"
proof -
  let ?b = "(BATnew TYPE_int)\<lparr>tvals := [1, 2], trevsorted := False\<rparr>"
  have b: "BATassertProps ?b" "BATassertProps ?b" "cands_ok (hseq ?b) (Some (Dense 0 1))" "bat_fits ?b" "tsorted ?b" "tsorted ?b"
    by (simp_all add: BATassertProps_iff BATnew_def cands_ok_def in_type_bounds)
  have r: "BATcalcadd ?b ?b (Some (Dense 0 1)) TYPE_int True = Some (bin_result TYPE_int 0 True False ([2, nil_of TYPE_int], 1))"
    by code_simp
  have "0 < (1 :: nat)" "1 < length (tvals ?b)" "is_cand (Some (Dense 0 1)) (hseq ?b + 0)" "\<not> is_cand (Some (Dense 0 1)) (hseq ?b + 1)"
    "tvals ?b ! 0 \<noteq> nil_of (ttype ?b)" "tvals ?b ! 0 \<noteq> nil_of (ttype ?b)"
    by (simp_all add: is_cand_def BATnew_def smin_def)
  from add_cands_unsorted [OF b r this] r show ?thesis by blast
qed

end
