(* ===== verification/Gdk_Calc_Bits.thy ===== *)
theory Gdk_Calc_Bits
  imports Gdk_Calc_Binary
begin

unbundle bit_operations_syntax

text \<open>
  The logical and bitwise operators and the shifts of columns (\<^verbatim>\<open>gdk/gdk_calc.c\<close>): definitions.
  On \<^verbatim>\<open>bit\<close> columns they are logical with nil as unknown, on the integer types they work on
  the two's complement representation.  A loop is told by \<open>nonil\<close> that it need not look for
  nils; it then does not look at an array of candidates either.
\<close>

type_synonym bitloop =
  "int list \<Rightarrow> nat \<Rightarrow> int list \<Rightarrow> nat \<Rightarrow> tpe \<Rightarrow> canditer \<Rightarrow> nat \<Rightarrow> bool \<Rightarrow> (int list \<times> nat) option"

subsection \<open>The loops\<close>

definition BINARY_3TYPE_FUNC :: "nat \<Rightarrow> nat \<Rightarrow> nat \<Rightarrow> (int \<Rightarrow> int \<Rightarrow> int) \<Rightarrow> loop" where
  "BINARY_3TYPE_FUNC w1 w2 w3 FUNC lft incr1 rgt incr2 ci candoff =
    cand_run (bin_cell (smin w1) (smin w2) (smin w3) (\<lambda>l r. Some (swrap w3 (FUNC l r), 0)) lft incr1 rgt incr2) (smin w3) candoff ci"

definition BINARY_3TYPE_FUNC_nonil :: "nat \<Rightarrow> nat \<Rightarrow> nat \<Rightarrow> (int \<Rightarrow> int \<Rightarrow> int) \<Rightarrow> loop" where
  "BINARY_3TYPE_FUNC_nonil w1 w2 w3 FUNC lft incr1 rgt incr2 ci candoff =
    cand_run (\<lambda>k. do {
        l \<leftarrow> fetch lft (k * incr1);
        r \<leftarrow> fetch rgt (k * incr2);
        Some (swrap w3 (FUNC l r), 0)
      }) (smin w3) candoff (ci\<lparr>ccand := None\<rparr>)"

definition BINARY_3TYPE_FUNC_CHECK :: "nat \<Rightarrow> nat \<Rightarrow> nat \<Rightarrow> (int \<Rightarrow> int \<Rightarrow> int) \<Rightarrow> (int \<Rightarrow> int \<Rightarrow> bool) \<Rightarrow> bool \<Rightarrow> loop" where
  "BINARY_3TYPE_FUNC_CHECK w1 w2 w3 FUNC CHECK abort_on_error lft incr1 rgt incr2 ci candoff =
    cand_run (bin_cell (smin w1) (smin w2) (smin w3)
        (\<lambda>l r. if CHECK l r then overflow w3 abort_on_error else Some (swrap w3 (FUNC l r), 0)) lft incr1 rgt incr2)
      (smin w3) candoff ci"

definition func_loop :: "bool \<Rightarrow> nat \<Rightarrow> nat \<Rightarrow> nat \<Rightarrow> (int \<Rightarrow> int \<Rightarrow> int) \<Rightarrow> loop" where
  "func_loop nonil w1 w2 w3 FUNC =
    (if nonil then BINARY_3TYPE_FUNC_nonil w1 w2 w3 FUNC else BINARY_3TYPE_FUNC w1 w2 w3 FUNC)"

subsection \<open>Exclusive or\<close>

definition XORBIT :: "int \<Rightarrow> int \<Rightarrow> int" where
  "XORBIT a b = (if (a = 0) \<noteq> (b = 0) then 1 else 0)"

definition xor_typeswitchloop :: bitloop where
  "xor_typeswitchloop lft incr1 rgt incr2 tp ci candoff nonil =
    (case ATOMstorage tp of
       TYPE_bte \<Rightarrow>
         if tp = TYPE_bit then func_loop nonil 8 8 8 XORBIT lft incr1 rgt incr2 ci candoff
         else func_loop nonil 8 8 8 (XOR) lft incr1 rgt incr2 ci candoff
     | TYPE_sht \<Rightarrow> func_loop nonil 16 16 16 (XOR) lft incr1 rgt incr2 ci candoff
     | TYPE_int \<Rightarrow> func_loop nonil 32 32 32 (XOR) lft incr1 rgt incr2 ci candoff
     | TYPE_lng \<Rightarrow> func_loop nonil 64 64 64 (XOR) lft incr1 rgt incr2 ci candoff
     | _ \<Rightarrow> None)"

definition BATcalcxor :: "bat \<Rightarrow> bat \<Rightarrow> cands option \<Rightarrow> bat option" where
  "BATcalcxor b1 b2 s =
    (if \<not> checkbats b1 (Some b2) then None
     else if ATOMstorage (ttype b1) \<noteq> ATOMstorage (ttype b2) then None
     else do {
       let ci = candinit b1 s;
       (dst, nils) \<leftarrow> xor_typeswitchloop (tvals b1) 1 (tvals b2) 1 (ttype b1) ci (hseq b1)
         (ccand ci = None \<and> tnonil b1 \<and> tnonil b2);
       Some (bin_result (ttype b1) (hseq b1) False False (dst, nils))
     })"

definition BATcalcxorcst :: "bat \<Rightarrow> tpe \<Rightarrow> int \<Rightarrow> cands option \<Rightarrow> bat option" where
  "BATcalcxorcst b vt v s =
    (if \<not> checkbats b None then None
     else if ATOMstorage (ttype b) \<noteq> ATOMstorage vt then None
     else do {
       let ci = candinit b s;
       (dst, nils) \<leftarrow> xor_typeswitchloop (tvals b) 1 [v] 0 (ttype b) ci (hseq b)
         (ccand ci = None \<and> tnonil b \<and> v \<noteq> nil_of vt);
       Some (bin_result (ttype b) (hseq b) False False (dst, nils))
     })"

definition BATcalccstxor :: "tpe \<Rightarrow> int \<Rightarrow> bat \<Rightarrow> cands option \<Rightarrow> bat option" where
  "BATcalccstxor vt v b s =
    (if \<not> checkbats b None then None
     else if ATOMstorage (ttype b) \<noteq> ATOMstorage vt then None
     else do {
       let ci = candinit b s;
       (dst, nils) \<leftarrow> xor_typeswitchloop [v] 0 (tvals b) 1 (ttype b) ci (hseq b)
         (ccand ci = None \<and> tnonil b \<and> v \<noteq> nil_of vt);
       Some (bin_result (ttype b) (hseq b) False False (dst, nils))
     })"

definition VARcalcxor :: "tpe \<Rightarrow> int \<Rightarrow> tpe \<Rightarrow> int \<Rightarrow> int option" where
  "VARcalcxor lt lft rt rgt =
    (if ATOMstorage lt \<noteq> ATOMstorage rt then None
     else do {
       (dst, nils) \<leftarrow> xor_typeswitchloop [lft] 0 [rgt] 0 lt one_row 0 False;
       fetch dst 0
     })"

subsection \<open>Or\<close>

text \<open>A value other than 0 and nil counts as true.\<close>

definition or_bit :: "int list \<Rightarrow> nat \<Rightarrow> int list \<Rightarrow> nat \<Rightarrow> nat \<Rightarrow> cell" where
  "or_bit lft incr1 rgt incr2 k = do {
     l \<leftarrow> fetch lft (k * incr1);
     r \<leftarrow> fetch rgt (k * incr2);
     if l AND 0x7F \<noteq> 0 \<or> r AND 0x7F \<noteq> 0 then Some (1, 0)
     else if l = 0 \<and> r = 0 then Some (0, 0)
     else Some (smin 8, 1)
   }"

definition or_typeswitchloop :: bitloop where
  "or_typeswitchloop lft incr1 rgt incr2 tp ci candoff nonil =
    (case ATOMstorage tp of
       TYPE_bte \<Rightarrow>
         if tp = TYPE_bit then cand_run (or_bit lft incr1 rgt incr2) (smin 8) candoff ci
         else func_loop nonil 8 8 8 (OR) lft incr1 rgt incr2 ci candoff
     | TYPE_sht \<Rightarrow> func_loop nonil 16 16 16 (OR) lft incr1 rgt incr2 ci candoff
     | TYPE_int \<Rightarrow> func_loop nonil 32 32 32 (OR) lft incr1 rgt incr2 ci candoff
     | TYPE_lng \<Rightarrow> func_loop nonil 64 64 64 (OR) lft incr1 rgt incr2 ci candoff
     | _ \<Rightarrow> None)"

definition BATcalcor :: "bat \<Rightarrow> bat \<Rightarrow> cands option \<Rightarrow> bat option" where
  "BATcalcor b1 b2 s =
    (if \<not> checkbats b1 (Some b2) then None
     else if ATOMstorage (ttype b1) \<noteq> ATOMstorage (ttype b2) then None
     else do {
       let ci = candinit b1 s;
       (dst, nils) \<leftarrow> or_typeswitchloop (tvals b1) 1 (tvals b2) 1 (ttype b1) ci (hseq b1)
         (tnonil b1 \<and> tnonil b2);
       Some (bin_result (ttype b1) (hseq b1) False False (dst, nils))
     })"

definition BATcalcorcst :: "bat \<Rightarrow> tpe \<Rightarrow> int \<Rightarrow> cands option \<Rightarrow> bat option" where
  "BATcalcorcst b vt v s =
    (if \<not> checkbats b None then None
     else if ATOMstorage (ttype b) \<noteq> ATOMstorage vt then None
     else do {
       let ci = candinit b s;
       (dst, nils) \<leftarrow> or_typeswitchloop (tvals b) 1 [v] 0 (ttype b) ci (hseq b)
         (ccand ci = None \<and> tnonil b \<and> v \<noteq> nil_of vt);
       Some (bin_result (ttype b) (hseq b) False False (dst, nils))
     })"

definition BATcalccstor :: "tpe \<Rightarrow> int \<Rightarrow> bat \<Rightarrow> cands option \<Rightarrow> bat option" where
  "BATcalccstor vt v b s =
    (if \<not> checkbats b None then None
     else if ATOMstorage (ttype b) \<noteq> ATOMstorage vt then None
     else do {
       let ci = candinit b s;
       (dst, nils) \<leftarrow> or_typeswitchloop [v] 0 (tvals b) 1 (ttype b) ci (hseq b)
         (ccand ci = None \<and> tnonil b \<and> v \<noteq> nil_of vt);
       Some (bin_result (ttype b) (hseq b) False False (dst, nils))
     })"

definition VARcalcor :: "tpe \<Rightarrow> int \<Rightarrow> tpe \<Rightarrow> int \<Rightarrow> int option" where
  "VARcalcor lt lft rt rgt =
    (if ATOMstorage lt \<noteq> ATOMstorage rt then None
     else do {
       (dst, nils) \<leftarrow> or_typeswitchloop [lft] 0 [rgt] 0 lt one_row 0 False;
       fetch dst 0
     })"

subsection \<open>And\<close>

definition and_bit :: "int list \<Rightarrow> nat \<Rightarrow> int list \<Rightarrow> nat \<Rightarrow> nat \<Rightarrow> cell" where
  "and_bit lft incr1 rgt incr2 k = do {
     l \<leftarrow> fetch lft (k * incr1);
     r \<leftarrow> fetch rgt (k * incr2);
     if l = 0 \<or> r = 0 then Some (0, 0)
     else if l \<noteq> smin 8 \<and> r \<noteq> smin 8 then Some (1, 0)
     else Some (smin 8, 1)
   }"

definition and_typeswitchloop :: bitloop where
  "and_typeswitchloop lft incr1 rgt incr2 tp ci candoff nonil =
    (case ATOMstorage tp of
       TYPE_bte \<Rightarrow>
         if tp = TYPE_bit then cand_run (and_bit lft incr1 rgt incr2) (smin 8) candoff ci
         else func_loop nonil 8 8 8 (AND) lft incr1 rgt incr2 ci candoff
     | TYPE_sht \<Rightarrow> func_loop nonil 16 16 16 (AND) lft incr1 rgt incr2 ci candoff
     | TYPE_int \<Rightarrow> func_loop nonil 32 32 32 (AND) lft incr1 rgt incr2 ci candoff
     | TYPE_lng \<Rightarrow> func_loop nonil 64 64 64 (AND) lft incr1 rgt incr2 ci candoff
     | _ \<Rightarrow> None)"

definition BATcalcand :: "bat \<Rightarrow> bat \<Rightarrow> cands option \<Rightarrow> bat option" where
  "BATcalcand b1 b2 s =
    (if \<not> checkbats b1 (Some b2) then None
     else if ATOMstorage (ttype b1) \<noteq> ATOMstorage (ttype b2) then None
     else do {
       let ci = candinit b1 s;
       (dst, nils) \<leftarrow> and_typeswitchloop (tvals b1) 1 (tvals b2) 1 (ttype b1) ci (hseq b1)
         (tnonil b1 \<and> tnonil b2);
       Some (bin_result (ttype b1) (hseq b1) False False (dst, nils))
     })"

definition BATcalcandcst :: "bat \<Rightarrow> tpe \<Rightarrow> int \<Rightarrow> cands option \<Rightarrow> bat option" where
  "BATcalcandcst b vt v s =
    (if \<not> checkbats b None then None
     else if ATOMstorage (ttype b) \<noteq> ATOMstorage vt then None
     else do {
       let ci = candinit b s;
       (dst, nils) \<leftarrow> and_typeswitchloop (tvals b) 1 [v] 0 (ttype b) ci (hseq b)
         (tnonil b \<and> v \<noteq> nil_of vt);
       Some (bin_result (ttype b) (hseq b) False False (dst, nils))
     })"

definition BATcalccstand :: "tpe \<Rightarrow> int \<Rightarrow> bat \<Rightarrow> cands option \<Rightarrow> bat option" where
  "BATcalccstand vt v b s =
    (if \<not> checkbats b None then None
     else if ATOMstorage (ttype b) \<noteq> ATOMstorage vt then None
     else do {
       let ci = candinit b s;
       (dst, nils) \<leftarrow> and_typeswitchloop [v] 0 (tvals b) 1 (ttype b) ci (hseq b)
         (tnonil b \<and> v \<noteq> nil_of vt);
       Some (bin_result (ttype b) (hseq b) False False (dst, nils))
     })"

definition VARcalcand :: "tpe \<Rightarrow> int \<Rightarrow> tpe \<Rightarrow> int \<Rightarrow> int option" where
  "VARcalcand lt lft rt rgt =
    (if ATOMstorage lt \<noteq> ATOMstorage rt then None
     else do {
       (dst, nils) \<leftarrow> and_typeswitchloop [lft] 0 [rgt] 0 lt one_row 0 False;
       fetch dst 0
     })"

subsection \<open>Left shift\<close>

text \<open>Shifting computes with the promoted left operand.\<close>

definition LSH :: "nat \<Rightarrow> int \<Rightarrow> int \<Rightarrow> int" where
  "LSH w a b = arith w w (push_bit (nat b) a)"

definition SHIFT_CHECK :: "nat \<Rightarrow> int \<Rightarrow> int \<Rightarrow> bool" where
  "SHIFT_CHECK w a b \<longleftrightarrow> b < 0 \<or> b \<ge> int w"

definition lsh_bte :: "tpe \<Rightarrow> bool \<Rightarrow> loop option" where
  "lsh_bte tp2 abort_on_error =
    (case ATOMstorage tp2 of
       TYPE_bte \<Rightarrow> Some (BINARY_3TYPE_FUNC_CHECK 8 8 8 (LSH 8) (SHIFT_CHECK 8) abort_on_error)
     | TYPE_sht \<Rightarrow> Some (BINARY_3TYPE_FUNC_CHECK 8 16 8 (LSH 8) (SHIFT_CHECK 8) abort_on_error)
     | TYPE_int \<Rightarrow> Some (BINARY_3TYPE_FUNC_CHECK 8 32 8 (LSH 8) (SHIFT_CHECK 8) abort_on_error)
     | TYPE_lng \<Rightarrow> Some (BINARY_3TYPE_FUNC_CHECK 8 64 8 (LSH 8) (SHIFT_CHECK 8) abort_on_error)
     | _ \<Rightarrow> None)"

definition lsh_sht :: "tpe \<Rightarrow> bool \<Rightarrow> loop option" where
  "lsh_sht tp2 abort_on_error =
    (case ATOMstorage tp2 of
       TYPE_bte \<Rightarrow> Some (BINARY_3TYPE_FUNC_CHECK 16 8 16 (LSH 16) (SHIFT_CHECK 16) abort_on_error)
     | TYPE_sht \<Rightarrow> Some (BINARY_3TYPE_FUNC_CHECK 16 16 16 (LSH 16) (SHIFT_CHECK 16) abort_on_error)
     | TYPE_int \<Rightarrow> Some (BINARY_3TYPE_FUNC_CHECK 16 32 16 (LSH 16) (SHIFT_CHECK 16) abort_on_error)
     | TYPE_lng \<Rightarrow> Some (BINARY_3TYPE_FUNC_CHECK 16 64 16 (LSH 16) (SHIFT_CHECK 16) abort_on_error)
     | _ \<Rightarrow> None)"

definition lsh_int :: "tpe \<Rightarrow> bool \<Rightarrow> loop option" where
  "lsh_int tp2 abort_on_error =
    (case ATOMstorage tp2 of
       TYPE_bte \<Rightarrow> Some (BINARY_3TYPE_FUNC_CHECK 32 8 32 (LSH 32) (SHIFT_CHECK 32) abort_on_error)
     | TYPE_sht \<Rightarrow> Some (BINARY_3TYPE_FUNC_CHECK 32 16 32 (LSH 32) (SHIFT_CHECK 32) abort_on_error)
     | TYPE_int \<Rightarrow> Some (BINARY_3TYPE_FUNC_CHECK 32 32 32 (LSH 32) (SHIFT_CHECK 32) abort_on_error)
     | TYPE_lng \<Rightarrow> Some (BINARY_3TYPE_FUNC_CHECK 32 64 32 (LSH 32) (SHIFT_CHECK 32) abort_on_error)
     | _ \<Rightarrow> None)"

definition lsh_lng :: "tpe \<Rightarrow> bool \<Rightarrow> loop option" where
  "lsh_lng tp2 abort_on_error =
    (case ATOMstorage tp2 of
       TYPE_bte \<Rightarrow> Some (BINARY_3TYPE_FUNC_CHECK 64 8 64 (LSH 64) (SHIFT_CHECK 64) abort_on_error)
     | TYPE_sht \<Rightarrow> Some (BINARY_3TYPE_FUNC_CHECK 64 16 64 (LSH 64) (SHIFT_CHECK 64) abort_on_error)
     | TYPE_int \<Rightarrow> Some (BINARY_3TYPE_FUNC_CHECK 64 32 64 (LSH 64) (SHIFT_CHECK 64) abort_on_error)
     | TYPE_lng \<Rightarrow> Some (BINARY_3TYPE_FUNC_CHECK 64 64 64 (LSH 64) (SHIFT_CHECK 64) abort_on_error)
     | _ \<Rightarrow> None)"

definition lsh_switch :: "tpe \<Rightarrow> tpe \<Rightarrow> bool \<Rightarrow> loop option" where
  "lsh_switch tp1 tp2 abort_on_error =
    (case ATOMstorage tp1 of
       TYPE_bte \<Rightarrow> lsh_bte tp2 abort_on_error
     | TYPE_sht \<Rightarrow> lsh_sht tp2 abort_on_error
     | TYPE_int \<Rightarrow> lsh_int tp2 abort_on_error
     | TYPE_lng \<Rightarrow> lsh_lng tp2 abort_on_error
     | _ \<Rightarrow> None)"

definition lsh_typeswitchloop ::
  "int list \<Rightarrow> tpe \<Rightarrow> nat \<Rightarrow> int list \<Rightarrow> tpe \<Rightarrow> nat \<Rightarrow> canditer \<Rightarrow> nat \<Rightarrow> bool \<Rightarrow> (int list \<times> nat) option" where
  "lsh_typeswitchloop lft tp1 incr1 rgt tp2 incr2 ci candoff abort_on_error = do {
     loop \<leftarrow> lsh_switch tp1 tp2 abort_on_error;
     loop lft incr1 rgt incr2 ci candoff
   }"

definition BATcalclsh :: "bat \<Rightarrow> bat \<Rightarrow> cands option \<Rightarrow> bool \<Rightarrow> bat option" where
  "BATcalclsh b1 b2 s abort_on_error =
    (if \<not> checkbats b1 (Some b2) then None
     else do {
       (dst, nils) \<leftarrow> lsh_typeswitchloop (tvals b1) (ttype b1) 1 (tvals b2) (ttype b2) 1
         (candinit b1 s) (hseq b1) abort_on_error;
       Some (bin_result (ttype b1) (hseq b1) False False (dst, nils))
     })"

definition BATcalclshcst :: "bat \<Rightarrow> tpe \<Rightarrow> int \<Rightarrow> cands option \<Rightarrow> bool \<Rightarrow> bat option" where
  "BATcalclshcst b vt v s abort_on_error =
    (if \<not> checkbats b None then None
     else do {
       (dst, nils) \<leftarrow> lsh_typeswitchloop (tvals b) (ttype b) 1 [v] vt 0
         (candinit b s) (hseq b) abort_on_error;
       Some (bin_result (ttype b) (hseq b) False False (dst, nils))
     })"

definition BATcalccstlsh :: "tpe \<Rightarrow> int \<Rightarrow> bat \<Rightarrow> cands option \<Rightarrow> bool \<Rightarrow> bat option" where
  "BATcalccstlsh vt v b s abort_on_error =
    (if \<not> checkbats b None then None
     else do {
       (dst, nils) \<leftarrow> lsh_typeswitchloop [v] vt 0 (tvals b) (ttype b) 1
         (candinit b s) (hseq b) abort_on_error;
       Some (bin_result vt (hseq b) False False (dst, nils))
     })"

definition VARcalclsh :: "tpe \<Rightarrow> int \<Rightarrow> tpe \<Rightarrow> int \<Rightarrow> bool \<Rightarrow> (tpe \<times> int) option" where
  "VARcalclsh lt lft rt rgt abort_on_error = do {
     (dst, nils) \<leftarrow> lsh_typeswitchloop [lft] lt 0 [rgt] rt 0 one_row 0 abort_on_error;
     v \<leftarrow> fetch dst 0;
     Some (lt, v)
   }"

subsection \<open>Right shift\<close>

definition RSH :: "nat \<Rightarrow> int \<Rightarrow> int \<Rightarrow> int" where
  "RSH w a b = drop_bit (nat b) a"

definition rsh_bte :: "tpe \<Rightarrow> bool \<Rightarrow> loop option" where
  "rsh_bte tp2 abort_on_error =
    (case ATOMstorage tp2 of
       TYPE_bte \<Rightarrow> Some (BINARY_3TYPE_FUNC_CHECK 8 8 8 (RSH 8) (SHIFT_CHECK 8) abort_on_error)
     | TYPE_sht \<Rightarrow> Some (BINARY_3TYPE_FUNC_CHECK 8 16 8 (RSH 8) (SHIFT_CHECK 8) abort_on_error)
     | TYPE_int \<Rightarrow> Some (BINARY_3TYPE_FUNC_CHECK 8 32 8 (RSH 8) (SHIFT_CHECK 8) abort_on_error)
     | TYPE_lng \<Rightarrow> Some (BINARY_3TYPE_FUNC_CHECK 8 64 8 (RSH 8) (SHIFT_CHECK 8) abort_on_error)
     | _ \<Rightarrow> None)"

definition rsh_sht :: "tpe \<Rightarrow> bool \<Rightarrow> loop option" where
  "rsh_sht tp2 abort_on_error =
    (case ATOMstorage tp2 of
       TYPE_bte \<Rightarrow> Some (BINARY_3TYPE_FUNC_CHECK 16 8 16 (RSH 16) (SHIFT_CHECK 16) abort_on_error)
     | TYPE_sht \<Rightarrow> Some (BINARY_3TYPE_FUNC_CHECK 16 16 16 (RSH 16) (SHIFT_CHECK 16) abort_on_error)
     | TYPE_int \<Rightarrow> Some (BINARY_3TYPE_FUNC_CHECK 16 32 16 (RSH 16) (SHIFT_CHECK 16) abort_on_error)
     | TYPE_lng \<Rightarrow> Some (BINARY_3TYPE_FUNC_CHECK 16 64 16 (RSH 16) (SHIFT_CHECK 16) abort_on_error)
     | _ \<Rightarrow> None)"

definition rsh_int :: "tpe \<Rightarrow> bool \<Rightarrow> loop option" where
  "rsh_int tp2 abort_on_error =
    (case ATOMstorage tp2 of
       TYPE_bte \<Rightarrow> Some (BINARY_3TYPE_FUNC_CHECK 32 8 32 (RSH 32) (SHIFT_CHECK 32) abort_on_error)
     | TYPE_sht \<Rightarrow> Some (BINARY_3TYPE_FUNC_CHECK 32 16 32 (RSH 32) (SHIFT_CHECK 32) abort_on_error)
     | TYPE_int \<Rightarrow> Some (BINARY_3TYPE_FUNC_CHECK 32 32 32 (RSH 32) (SHIFT_CHECK 32) abort_on_error)
     | TYPE_lng \<Rightarrow> Some (BINARY_3TYPE_FUNC_CHECK 32 64 32 (RSH 32) (SHIFT_CHECK 32) abort_on_error)
     | _ \<Rightarrow> None)"

definition rsh_lng :: "tpe \<Rightarrow> bool \<Rightarrow> loop option" where
  "rsh_lng tp2 abort_on_error =
    (case ATOMstorage tp2 of
       TYPE_bte \<Rightarrow> Some (BINARY_3TYPE_FUNC_CHECK 64 8 64 (RSH 64) (SHIFT_CHECK 64) abort_on_error)
     | TYPE_sht \<Rightarrow> Some (BINARY_3TYPE_FUNC_CHECK 64 16 64 (RSH 64) (SHIFT_CHECK 64) abort_on_error)
     | TYPE_int \<Rightarrow> Some (BINARY_3TYPE_FUNC_CHECK 64 32 64 (RSH 64) (SHIFT_CHECK 64) abort_on_error)
     | TYPE_lng \<Rightarrow> Some (BINARY_3TYPE_FUNC_CHECK 64 64 64 (RSH 64) (SHIFT_CHECK 64) abort_on_error)
     | _ \<Rightarrow> None)"

definition rsh_switch :: "tpe \<Rightarrow> tpe \<Rightarrow> bool \<Rightarrow> loop option" where
  "rsh_switch tp1 tp2 abort_on_error =
    (case ATOMstorage tp1 of
       TYPE_bte \<Rightarrow> rsh_bte tp2 abort_on_error
     | TYPE_sht \<Rightarrow> rsh_sht tp2 abort_on_error
     | TYPE_int \<Rightarrow> rsh_int tp2 abort_on_error
     | TYPE_lng \<Rightarrow> rsh_lng tp2 abort_on_error
     | _ \<Rightarrow> None)"

definition rsh_typeswitchloop ::
  "int list \<Rightarrow> tpe \<Rightarrow> nat \<Rightarrow> int list \<Rightarrow> tpe \<Rightarrow> nat \<Rightarrow> canditer \<Rightarrow> nat \<Rightarrow> bool \<Rightarrow> (int list \<times> nat) option" where
  "rsh_typeswitchloop lft tp1 incr1 rgt tp2 incr2 ci candoff abort_on_error = do {
     loop \<leftarrow> rsh_switch tp1 tp2 abort_on_error;
     loop lft incr1 rgt incr2 ci candoff
   }"

definition BATcalcrsh :: "bat \<Rightarrow> bat \<Rightarrow> cands option \<Rightarrow> bool \<Rightarrow> bat option" where
  "BATcalcrsh b1 b2 s abort_on_error =
    (if \<not> checkbats b1 (Some b2) then None
     else do {
       (dst, nils) \<leftarrow> rsh_typeswitchloop (tvals b1) (ttype b1) 1 (tvals b2) (ttype b2) 1
         (candinit b1 s) (hseq b1) abort_on_error;
       Some (bin_result (ttype b1) (hseq b1) False False (dst, nils))
     })"

definition BATcalcrshcst :: "bat \<Rightarrow> tpe \<Rightarrow> int \<Rightarrow> cands option \<Rightarrow> bool \<Rightarrow> bat option" where
  "BATcalcrshcst b vt v s abort_on_error =
    (if \<not> checkbats b None then None
     else do {
       (dst, nils) \<leftarrow> rsh_typeswitchloop (tvals b) (ttype b) 1 [v] vt 0
         (candinit b s) (hseq b) abort_on_error;
       Some (bin_result (ttype b) (hseq b) False False (dst, nils))
     })"

definition BATcalccstrsh :: "tpe \<Rightarrow> int \<Rightarrow> bat \<Rightarrow> cands option \<Rightarrow> bool \<Rightarrow> bat option" where
  "BATcalccstrsh vt v b s abort_on_error =
    (if \<not> checkbats b None then None
     else do {
       (dst, nils) \<leftarrow> rsh_typeswitchloop [v] vt 0 (tvals b) (ttype b) 1
         (candinit b s) (hseq b) abort_on_error;
       Some (bin_result vt (hseq b) False False (dst, nils))
     })"

definition VARcalcrsh :: "tpe \<Rightarrow> int \<Rightarrow> tpe \<Rightarrow> int \<Rightarrow> bool \<Rightarrow> (tpe \<times> int) option" where
  "VARcalcrsh lt lft rt rgt abort_on_error = do {
     (dst, nils) \<leftarrow> rsh_typeswitchloop [lft] lt 0 [rgt] rt 0 one_row 0 abort_on_error;
     v \<leftarrow> fetch dst 0;
     Some (lt, v)
   }"

end
