(* ===== verification/Gdk_Bits_Props.thy ===== *)
theory Gdk_Bits_Props
  imports Gdk_Calc_Bits
begin

unbundle bit_operations_syntax

text \<open>
  Properties of the logical and bitwise operators and of the shifts: three-valued logic on
  \<^verbatim>\<open>bit\<close> columns, exact results on integers, which of the recorded properties hold, and what
  candidate lists do.
\<close>

subsection \<open>Two's complement\<close>

lemma signed_take_bit_bits:
  "signed_take_bit n (l AND r) = signed_take_bit n l AND signed_take_bit n (r :: int)"
  "signed_take_bit n (l OR r) = signed_take_bit n l OR signed_take_bit n r"
  "signed_take_bit n (l XOR r) = signed_take_bit n l XOR signed_take_bit n r"
  by (rule bit_eqI; simp add: bit_simps)+

lemma swrap_bits:
  assumes "0 < w" "smin w \<le> l" "l \<le> smax w" "smin w \<le> r" "r \<le> smax w"
  shows "swrap w (l AND r) = l AND r" "swrap w (l OR r) = l OR r" "swrap w (l XOR r) = l XOR r"
proof -
  obtain n where w: "w = Suc n" using assms(1) by (cases w) auto
  have "swrap w l = l" "swrap w r = r" using assms by (simp_all add: swrap_id)
  then have "signed_take_bit n l = l" "signed_take_bit n r = r" by (simp_all add: w swrap_signed_take_bit)
  then show "swrap w (l AND r) = l AND r" "swrap w (l OR r) = l OR r" "swrap w (l XOR r) = l XOR r"
    unfolding w swrap_signed_take_bit signed_take_bit_bits by simp_all
qed

lemma OR_not_below: "l < 0 \<Longrightarrow> l \<le> l OR (r :: int)"
proof -
  assume "l < 0"
  then have "NOT l AND NOT r \<le> NOT l" by (intro AND_upper1) (simp add: not_int_def)
  then show ?thesis by (simp add: not_int_def or_eq_not_not_and)
qed

lemma OR_above: "(m :: int) < 0 \<Longrightarrow> m < l \<Longrightarrow> m < r \<Longrightarrow> m < l OR r"
  using OR_not_below [of l r] OR_not_below [of r l] OR_lower [of l r] by (cases "l < 0"; cases "r < 0") (linarith | simp add: or.commute)+

lemma shift_exact: "LSH w a b = arith w w (a * 2 ^ nat b)" "RSH w a b = a div 2 ^ nat b"
  by (simp_all add: LSH_def RSH_def push_bit_eq_mult drop_bit_eq_div)

subsection \<open>The loops and their type switches\<close>

lemma nonil_loop:
  assumes "smin w1 \<notin> set lft" "smin w2 \<notin> set rgt" "ccand ci = None"
  shows "BINARY_3TYPE_FUNC_nonil w1 w2 w3 F lft i rgt j ci off = BINARY_3TYPE_FUNC w1 w2 w3 F lft i rgt j ci off"
proof -
  have "(do { l \<leftarrow> fetch lft (k * i); r \<leftarrow> fetch rgt (k * j); Some (swrap w3 (F l r), 0) }) =
      bin_cell (smin w1) (smin w2) (smin w3) (\<lambda>l r. Some (swrap w3 (F l r), 0)) lft i rgt j k" for k
    using assms(1,2) by (auto simp: bin_cell_def fetch_def dest: nth_mem)
  moreover have "ci\<lparr>ccand := None\<rparr> = ci" using assms(3) by (cases ci) simp
  ultimately show ?thesis by (simp add: BINARY_3TYPE_FUNC_nonil_def BINARY_3TYPE_FUNC_def)
qed

lemma func_loop_eq:
  assumes "nonil \<Longrightarrow> smin w1 \<notin> set lft \<and> smin w2 \<notin> set rgt \<and> ccand ci = None"
  shows "func_loop nonil w1 w2 w3 F lft i rgt j ci off = BINARY_3TYPE_FUNC w1 w2 w3 F lft i rgt j ci off"
  using assms nonil_loop by (simp add: func_loop_def)

text \<open>The bitwise operators as choices of a loop by the types, for the contract \<open>binary_loop\<close>.\<close>

definition same_storage :: "tpe \<Rightarrow> tpe \<Rightarrow> tpe \<Rightarrow> bool" where
  "same_storage tp1 tp2 tp \<longleftrightarrow> ATOMstorage tp1 = ATOMstorage tp2 \<and> tp1 \<noteq> TYPE_other \<and> tp = tp1"

definition bits_sel :: "bitloop \<Rightarrow> (tpe \<Rightarrow> bool) \<Rightarrow> tpe \<Rightarrow> tpe \<Rightarrow> tpe \<Rightarrow> bool \<Rightarrow> loop option" where
  "bits_sel switch on tp1 tp2 tp ab =
    (if same_storage tp1 tp2 tp \<and> on tp then Some (\<lambda>lft i rgt j ci off. switch lft i rgt j tp ci off False) else None)"

definition bits_switch :: "(int \<Rightarrow> int \<Rightarrow> int) \<Rightarrow> bitloop" where
  "bits_switch F lft i rgt j tp ci off nonil = func_loop nonil (width tp) (width tp) (width tp) F lft i rgt j ci off"

lemma logic_switches:
  assumes "tp \<noteq> TYPE_other" "tp \<noteq> TYPE_bit"
  shows "xor_typeswitchloop lft i rgt j tp ci off nonil = bits_switch (XOR) lft i rgt j tp ci off nonil"
    "or_typeswitchloop lft i rgt j tp ci off nonil = bits_switch (OR) lft i rgt j tp ci off nonil"
    "and_typeswitchloop lft i rgt j tp ci off nonil = bits_switch (AND) lft i rgt j tp ci off nonil"
  using assms by (cases tp; simp add: xor_typeswitchloop_def or_typeswitchloop_def and_typeswitchloop_def ATOMstorage_def bits_switch_def)+

lemma xor_bit_switch: "xor_typeswitchloop lft i rgt j TYPE_bit ci off nonil = bits_switch XORBIT lft i rgt j TYPE_bit ci off nonil"
  by (simp add: xor_typeswitchloop_def ATOMstorage_def bits_switch_def)

lemma same_storage_width: "same_storage tp1 tp2 tp \<Longrightarrow> width tp1 = width tp \<and> width tp2 = width tp \<and> 0 < width tp"
  by (cases tp1; cases tp2) (auto simp: same_storage_def ATOMstorage_def)

definition bits_fun :: "(int \<Rightarrow> int \<Rightarrow> int) \<Rightarrow> (int \<Rightarrow> int \<Rightarrow> int) \<Rightarrow> tpe \<Rightarrow> int \<Rightarrow> int \<Rightarrow> int" where
  "bits_fun F G tp l r = (if tp = TYPE_bit then G l r else F l r)"

lemma bits_loop:
  assumes sw: "\<And>tp lft i rgt j ci off. on tp \<Longrightarrow> tp \<noteq> TYPE_other \<Longrightarrow>
      switch lft i rgt j tp ci off False = bits_switch (bits_fun F G tp) lft i rgt j tp ci off False"
    and ex: "\<And>tp1 tp2 tp l r. same_storage tp1 tp2 tp \<Longrightarrow> on tp \<Longrightarrow> in_type tp1 l \<Longrightarrow> in_type tp2 r \<Longrightarrow>
      swrap (width tp) (bits_fun F G tp l r) = bits_fun F G tp l r"
  shows "binary_loop (bits_sel switch on) (\<lambda>tp1 tp2 tp ab l r. Some (swrap (width tp) (bits_fun F G tp l r), 0))
      (\<lambda>tp1 tp2 tp l r. Some (bits_fun F G tp l r)) no_trap"
proof
  fix tp1 tp2 tp ab L assume "bits_sel switch on tp1 tp2 tp ab = Some L"
  then have t: "same_storage tp1 tp2 tp" "on tp" and L: "L = (\<lambda>lft i rgt j ci off. switch lft i rgt j tp ci off False)"
    by (simp_all add: bits_sel_def split: if_split_asm)
  note w = same_storage_width [OF t(1)]
  then show "0 < width tp" by simp
  have "tp \<noteq> TYPE_other" using t(1) by (auto simp: same_storage_def)
  then show "L lft i rgt j ci off = cand_run (bin_cell (nil_of tp1) (nil_of tp2) (nil_of tp)
      (\<lambda>l r. Some (swrap (width tp) (bits_fun F G tp l r), 0)) lft i rgt j) (nil_of tp) off ci" for lft i rgt j ci off
    using w by (simp add: L sw t(2) bits_switch_def func_loop_def BINARY_3TYPE_FUNC_def)
  show "Some (swrap (width tp) (bits_fun F G tp l r), 0) =
      (if no_trap tp1 tp2 tp l r then None else case Some (bits_fun F G tp l r) of Some v \<Rightarrow> Some (v, 0) | None \<Rightarrow> overflow (width tp) ab)"
    if "in_type tp1 l" "in_type tp2 r" for l r
    using ex [OF t that] by (simp add: no_trap_def)
qed

lemma same_storage_range:
  "same_storage tp1 tp2 tp \<Longrightarrow> in_type tp1 l \<Longrightarrow> in_type tp2 r \<Longrightarrow>
    smin (width tp) \<le> l \<and> l \<le> smax (width tp) \<and> smin (width tp) \<le> r \<and> r \<le> smax (width tp)"
  using same_storage_width [of tp1 tp2 tp] by (simp add: in_type_def)

interpretation bxor: binary_loop "bits_sel xor_typeswitchloop (\<lambda>tp. True)"
  "\<lambda>tp1 tp2 tp ab l r. Some (swrap (width tp) (bits_fun (XOR) XORBIT tp l r), 0)"
  "\<lambda>tp1 tp2 tp l r. Some (bits_fun (XOR) XORBIT tp l r)" no_trap
proof (rule bits_loop)
  show "xor_typeswitchloop lft i rgt j tp ci off False = bits_switch (bits_fun (XOR) XORBIT tp) lft i rgt j tp ci off False"
    if "tp \<noteq> TYPE_other" for tp lft i rgt j ci off
  proof (cases "tp = TYPE_bit")
    case True
    then have "bits_fun (XOR) XORBIT tp = XORBIT" by (simp add: bits_fun_def fun_eq_iff)
    then show ?thesis using True by (simp add: xor_bit_switch)
  next
    case False
    then have "bits_fun (XOR) XORBIT tp = (XOR)" by (simp add: bits_fun_def fun_eq_iff)
    then show ?thesis using that False by (simp add: logic_switches)
  qed
  show "swrap (width tp) (bits_fun (XOR) XORBIT tp l r) = bits_fun (XOR) XORBIT tp l r"
    if "same_storage tp1 tp2 tp" "in_type tp1 l" "in_type tp2 r" for tp1 tp2 tp l r
    using same_storage_range [OF that] same_storage_width [OF that(1)] swrap_bits(3) [of "width tp" l r]
    by (cases "tp = TYPE_bit") (simp_all add: bits_fun_def XORBIT_def swrap_def)
qed

lemma bits_fun_int: "tp \<noteq> TYPE_bit \<Longrightarrow> bits_fun F G tp = F"
  by (simp add: bits_fun_def fun_eq_iff)

interpretation band: binary_loop "bits_sel and_typeswitchloop (\<lambda>tp. tp \<noteq> TYPE_bit)"
  "\<lambda>tp1 tp2 tp ab l r. Some (swrap (width tp) (bits_fun (AND) (AND) tp l r), 0)"
  "\<lambda>tp1 tp2 tp l r. Some (bits_fun (AND) (AND) tp l r)" no_trap
proof (rule bits_loop)
  show "and_typeswitchloop lft i rgt j tp ci off False = bits_switch (bits_fun (AND) (AND) tp) lft i rgt j tp ci off False"
    if "tp \<noteq> TYPE_bit" "tp \<noteq> TYPE_other" for tp lft i rgt j ci off
    using that by (simp add: bits_fun_int logic_switches)
  show "swrap (width tp) (bits_fun (AND) (AND) tp l r) = bits_fun (AND) (AND) tp l r"
    if "same_storage tp1 tp2 tp" "tp \<noteq> TYPE_bit" "in_type tp1 l" "in_type tp2 r" for tp1 tp2 tp l r
    using same_storage_range [OF that(1,3,4)] same_storage_width [OF that(1)] swrap_bits(1) [of "width tp" l r] that(2)
    by (simp add: bits_fun_int)
qed

interpretation bor: binary_op "bits_sel or_typeswitchloop (\<lambda>tp. tp \<noteq> TYPE_bit)"
  "\<lambda>tp1 tp2 tp ab l r. Some (swrap (width tp) (bits_fun (OR) (OR) tp l r), 0)"
  "\<lambda>tp1 tp2 tp l r. Some (bits_fun (OR) (OR) tp l r)" no_trap
proof (intro binary_op.intro binary_op_axioms.intro bits_loop)
  show "or_typeswitchloop lft i rgt j tp ci off False = bits_switch (bits_fun (OR) (OR) tp) lft i rgt j tp ci off False"
    if "tp \<noteq> TYPE_bit" "tp \<noteq> TYPE_other" for tp lft i rgt j ci off
    using that by (simp add: bits_fun_int logic_switches)
  show ex: "swrap (width tp) (bits_fun (OR) (OR) tp l r) = bits_fun (OR) (OR) tp l r"
    if "same_storage tp1 tp2 tp" "tp \<noteq> TYPE_bit" "in_type tp1 l" "in_type tp2 r" for tp1 tp2 tp l r
    using same_storage_range [OF that(1,3,4)] same_storage_width [OF that(1)] swrap_bits(2) [of "width tp" l r] that(2)
    by (simp add: bits_fun_int)
  fix tp1 tp2 tp ab L l r v assume a: "bits_sel or_typeswitchloop (\<lambda>tp. tp \<noteq> TYPE_bit) tp1 tp2 tp ab = Some L"
    "in_type tp1 l" "in_type tp2 r" "l \<noteq> nil_of tp1" "r \<noteq> nil_of tp2" "Some (bits_fun (OR) (OR) tp l r) = Some v"
  then have t: "same_storage tp1 tp2 tp" "tp \<noteq> TYPE_bit" by (simp_all add: bits_sel_def split: if_split_asm)
  have "nil_of tp < l" "nil_of tp < r"
    using in_type_range [OF a(2,4)] in_type_range [OF a(3,5)] same_storage_width [OF t(1)] by simp_all
  then have "nil_of tp < l OR r" by (intro OR_above smin_neg)
  moreover have "swrap (width tp) (l OR r) \<le> smax (width tp)" using swrap_range same_storage_width [OF t(1)] by blast
  ultimately show "nil_of tp < v \<and> v \<le> smax (width tp)" using ex [OF t a(2,3)] a(6) t(2) by (simp add: bits_fun_int)
qed

subsection \<open>Shifts\<close>

definition shift_sel :: "(tpe \<Rightarrow> tpe \<Rightarrow> bool \<Rightarrow> loop option) \<Rightarrow> tpe \<Rightarrow> tpe \<Rightarrow> tpe \<Rightarrow> bool \<Rightarrow> loop option" where
  "shift_sel switch tp1 tp2 tp ab = (if tp = tp1 then switch tp1 tp2 ab else None)"

definition shift_body :: "(nat \<Rightarrow> int \<Rightarrow> int \<Rightarrow> int) \<Rightarrow> tpe \<Rightarrow> tpe \<Rightarrow> tpe \<Rightarrow> bool \<Rightarrow> int \<Rightarrow> int \<Rightarrow> cell" where
  "shift_body F tp1 tp2 tp ab l r =
    (if SHIFT_CHECK (width tp) l r then overflow (width tp) ab else Some (swrap (width tp) (F (width tp) l r), 0))"

definition shift_spec :: "(int \<Rightarrow> int \<Rightarrow> int) \<Rightarrow> tpe \<Rightarrow> tpe \<Rightarrow> tpe \<Rightarrow> int \<Rightarrow> int \<Rightarrow> int option" where
  "shift_spec F tp1 tp2 tp l r = (if 0 \<le> r \<and> r < int (width tp) then Some (swrap (width tp) (F l (2 ^ nat r))) else None)"

lemma shift_switch_eq:
  "lsh_switch tp1 tp2 ab = (if tp1 \<noteq> TYPE_other \<and> tp2 \<noteq> TYPE_other then
    Some (BINARY_3TYPE_FUNC_CHECK (width tp1) (width tp2) (width tp1) (LSH (width tp1)) (SHIFT_CHECK (width tp1)) ab) else None)"
  "rsh_switch tp1 tp2 ab = (if tp1 \<noteq> TYPE_other \<and> tp2 \<noteq> TYPE_other then
    Some (BINARY_3TYPE_FUNC_CHECK (width tp1) (width tp2) (width tp1) (RSH (width tp1)) (SHIFT_CHECK (width tp1)) ab) else None)"
  by (cases tp1; cases tp2; simp add: lsh_switch_def lsh_bte_def lsh_sht_def lsh_int_def lsh_lng_def
        rsh_switch_def rsh_bte_def rsh_sht_def rsh_int_def rsh_lng_def ATOMstorage_def)+

lemma shift_loop:
  assumes sw: "\<And>tp1 tp2 ab. switch tp1 tp2 ab = (if tp1 \<noteq> TYPE_other \<and> tp2 \<noteq> TYPE_other then
      Some (BINARY_3TYPE_FUNC_CHECK (width tp1) (width tp2) (width tp1) (F (width tp1)) (SHIFT_CHECK (width tp1)) ab) else None)"
    and F: "\<And>w l r. 0 < w \<Longrightarrow> swrap w (F w l r) = swrap w (G l (2 ^ nat r))"
  shows "binary_loop (shift_sel switch) (shift_body F) (shift_spec G) no_trap"
proof
  fix tp1 tp2 tp ab L assume "shift_sel switch tp1 tp2 tp ab = Some L"
  then have t: "tp = tp1" "tp1 \<noteq> TYPE_other" and
    L: "L = BINARY_3TYPE_FUNC_CHECK (width tp1) (width tp2) (width tp1) (F (width tp1)) (SHIFT_CHECK (width tp1)) ab"
    by (simp_all add: shift_sel_def sw split: if_split_asm)
  show w: "0 < width tp" using t width_pos by simp
  show "L lft i rgt j ci off = cand_run (bin_cell (nil_of tp1) (nil_of tp2) (nil_of tp) (shift_body F tp1 tp2 tp ab) lft i rgt j) (nil_of tp) off ci"
    for lft i rgt j ci off
    by (simp add: L t BINARY_3TYPE_FUNC_CHECK_def shift_body_def [abs_def])
  show "shift_body F tp1 tp2 tp ab l r = (if no_trap tp1 tp2 tp l r then None else case shift_spec G tp1 tp2 tp l r of Some v \<Rightarrow> Some (v, 0) | None \<Rightarrow> overflow (width tp) ab)" for l r
    using F [OF w] by (auto simp: shift_body_def shift_spec_def SHIFT_CHECK_def no_trap_def)
qed

interpretation lsh: binary_loop "shift_sel lsh_switch" "shift_body LSH" "shift_spec (*)" no_trap
  by (rule shift_loop) (simp_all only: shift_switch_eq shift_exact swrap_arith)

lemma div_power_range: "0 < w \<Longrightarrow> smin w < l \<Longrightarrow> l \<le> smax w \<Longrightarrow> smin w < l div 2 ^ n \<and> l div 2 ^ n \<le> smax w"
proof -
  assume a: "0 < w" "smin w < l" "l \<le> smax w"
  have "l div 2 ^ n \<ge> l" if "l < 0" using that div_int_pos_iff [of l "2 ^ n"] by (simp add: div_neg_pos_less0 zdiv_mono2_neg [of l 1 "2 ^ n", simplified])
  moreover have "l div 2 ^ n \<le> l" "0 \<le> l div 2 ^ n" if "0 \<le> l" using that by (simp_all add: zdiv_mono2 [of l 1 "2 ^ n", simplified] pos_imp_zdiv_nonneg_iff)
  moreover have "l div 2 ^ n < 0" if "l < 0" using that by (simp add: div_neg_pos_less0)
  ultimately show ?thesis using a smin_neg [of w] smax_smin [of w] by (cases "l < 0") fastforce+
qed

interpretation rsh: binary_op "shift_sel rsh_switch" "shift_body RSH" "shift_spec (div)" no_trap
proof (intro binary_op.intro binary_op_axioms.intro)
  show "binary_loop (shift_sel rsh_switch) (shift_body RSH) (shift_spec (div)) no_trap"
    by (rule shift_loop) (simp_all only: shift_switch_eq shift_exact)
  fix tp1 tp2 tp ab L l r v assume a: "shift_sel rsh_switch tp1 tp2 tp ab = Some L"
    "in_type tp1 l" "l \<noteq> nil_of tp1" "shift_spec (div) tp1 tp2 tp l r = Some v"
  then have "tp = tp1" "0 < width tp" using width_pos by (auto simp: shift_sel_def shift_switch_eq split: if_split_asm)
  then show "nil_of tp < v \<and> v \<le> smax (width tp)"
    using div_power_range [of "width tp" l "nat r"] in_type_range [OF a(2,3)] a(4)
    by (auto simp: shift_spec_def swrap_id split: if_split_asm)
qed

subsection \<open>Bitwise operators on columns of integers\<close>

lemma nonil_flag:
  assumes "nonil \<Longrightarrow> nil_of tp \<notin> set lft \<and> nil_of tp \<notin> set rgt \<and> ccand ci = None" "tp \<noteq> TYPE_other"
  shows "xor_typeswitchloop lft i rgt j tp ci off nonil = xor_typeswitchloop lft i rgt j tp ci off False"
    "or_typeswitchloop lft i rgt j tp ci off nonil = or_typeswitchloop lft i rgt j tp ci off False"
    "and_typeswitchloop lft i rgt j tp ci off nonil = and_typeswitchloop lft i rgt j tp ci off False"
proof -
  have b: "bits_switch F lft i rgt j tp ci off nonil = bits_switch F lft i rgt j tp ci off False" for F
    unfolding bits_switch_def by (subst func_loop_eq [OF assms(1)], assumption) (simp add: func_loop_def)
  show "xor_typeswitchloop lft i rgt j tp ci off nonil = xor_typeswitchloop lft i rgt j tp ci off False"
    using assms(2) b by (cases "tp = TYPE_bit") (simp_all only: logic_switches xor_bit_switch not_False_eq_True)
  show "or_typeswitchloop lft i rgt j tp ci off nonil = or_typeswitchloop lft i rgt j tp ci off False"
    using assms(2) b by (cases "tp = TYPE_bit") (simp_all only: logic_switches not_False_eq_True, simp add: or_typeswitchloop_def ATOMstorage_def)
  show "and_typeswitchloop lft i rgt j tp ci off nonil = and_typeswitchloop lft i rgt j tp ci off False"
    using assms(2) b by (cases "tp = TYPE_bit") (simp_all only: logic_switches not_False_eq_True, simp add: and_typeswitchloop_def ATOMstorage_def)
qed

definition bit_rows :: "(int \<Rightarrow> int \<Rightarrow> int) \<Rightarrow> bat \<Rightarrow> bat \<Rightarrow> cands option \<Rightarrow> int list" where
  "bit_rows F b1 b2 s = map (\<lambda>k. if is_cand s (hseq b1 + k) \<and> tvals b1 ! k \<noteq> nil_of (ttype b1) \<and> tvals b2 ! k \<noteq> nil_of (ttype b2)
     then F (tvals b1 ! k) (tvals b2 ! k) else nil_of (ttype b1)) [0..<length (tvals b1)]"

text \<open>Two columns that can be combined bit by bit.\<close>

definition aligned :: "bat \<Rightarrow> bat \<Rightarrow> cands option \<Rightarrow> bool" where
  "aligned b1 b2 s \<longleftrightarrow> BATassertProps b1 \<and> BATassertProps b2 \<and> length (tvals b1) = length (tvals b2) \<and>
    ATOMstorage (ttype b1) = ATOMstorage (ttype b2) \<and> ttype b1 \<noteq> TYPE_other \<and> cands_ok (hseq b1) s \<and> bat_fits b1"

lemma aligned_operands:
  assumes "aligned b1 b2 s"
  shows "operand (ttype b1) (tvals b1) 1 (length (tvals b1))" "operand (ttype b2) (tvals b2) 1 (length (tvals b1))"
    "cands_ok (hseq b1) s" "hseq b1 + length (tvals b1) < 2 ^ 63" "same_storage (ttype b1) (ttype b2) (ttype b1)"
proof -
  show "operand (ttype b1) (tvals b1) 1 (length (tvals b1))" "operand (ttype b2) (tvals b2) 1 (length (tvals b1))"
    by (rule operand_bat; use assms in \<open>simp add: aligned_def\<close>)+
qed (use assms in \<open>simp_all add: aligned_def same_storage_def\<close>)

lemma aligned_flag:
  assumes "aligned b1 b2 s"
  shows "tnonil b1 \<Longrightarrow> nil_of (ttype b1) \<notin> set (tvals b1)" "tnonil b2 \<Longrightarrow> nil_of (ttype b1) \<notin> set (tvals b2)" "ttype b1 \<noteq> TYPE_other"
  using assms same_storage_width [OF aligned_operands(5) [OF assms]] by (simp_all add: aligned_def BATassertProps_iff)

context binary_loop
begin

text \<open>A bitwise operator on two columns, from the loop that its type switch selects.\<close>

lemma bits_column:
  assumes a: "aligned b1 b2 s" and spec: "spec (ttype b1) (ttype b2) (ttype b1) = (\<lambda>l r. Some (F l r))"
    and total: "trap = no_trap" and sel: "sel (ttype b1) (ttype b2) (ttype b1) False = Some L" and ran: "\<And>l r. in_type (ttype b1) l \<Longrightarrow> in_type (ttype b2) r \<Longrightarrow> in_type (ttype b1) (F l r)"
    and calc: "calc = do { (dst, nils) \<leftarrow> L (tvals b1) 1 (tvals b2) 1 (candinit b1 s) (hseq b1);
      Some (bin_result (ttype b1) (hseq b1) False False (dst, nils)) }"
  shows "\<exists>c. calc = Some c \<and> ttype c = ttype b1 \<and> hseq c = hseq b1 \<and> tvals c = bit_rows F b1 b2 s \<and>
    (BATassertProps c \<longleftrightarrow> (tnonil c \<longrightarrow> nil_of (ttype b1) \<notin> set (tvals c))) \<and>
    (tnonil c \<longleftrightarrow> (\<forall>k<length (tvals b1). is_cand s (hseq b1 + k) \<and> tvals b1 ! k \<noteq> nil_of (ttype b1) \<and> tvals b2 ! k \<noteq> nil_of (ttype b2)))"
proof -
  note o = aligned_operands [OF a]
  have "\<not> fails s (hseq b1) (ttype b1) (ttype b2) (ttype b1) (tvals b1) 1 (tvals b2) 1 k" for k by (simp add: bin_fails_def spec)
  moreover have "\<not> traps s (hseq b1) (ttype b1) (ttype b2) (ttype b1) (tvals b1) 1 (tvals b2) 1 k" for k
    by (simp add: bin_traps_def total no_trap_def)
  ultimately obtain nils where r: "L (tvals b1) 1 (tvals b2) 1 (candinit b1 s) (hseq b1) =
      Some (map (val s (hseq b1) (ttype b1) (ttype b2) (ttype b1) (tvals b1) 1 (tvals b2) 1) [0..<length (tvals b1)], nils)"
    and nils: "nils = length (filter (\<lambda>k. \<not> finished s (hseq b1) (ttype b1) (ttype b2) (ttype b1) (tvals b1) 1 (tvals b2) 1 k) [0..<length (tvals b1)])"
    using loop_run [OF sel, of "tvals b1" "tvals b2" "length (tvals b1)" 1 1 "hseq b1" s] o(1-4) by (auto simp: operand_def)
  have rows: "map (val s (hseq b1) (ttype b1) (ttype b2) (ttype b1) (tvals b1) 1 (tvals b2) 1) [0..<length (tvals b1)] = bit_rows F b1 b2 s"
    by (simp add: bit_rows_def bin_val_def spec Let_def)
  have "in_type (ttype b1) (nil_of (ttype b1))"
    using same_storage_width [OF o(5)] by (simp add: in_type_def smin_def smax_def)
  then have t: "\<forall>v\<in>set (bit_rows F b1 b2 s). in_type (ttype b1) v"
    using ran o(1,2) by (auto simp: bit_rows_def operand_def)
  have "do { loop \<leftarrow> sel (ttype b1) (ttype b2) (ttype b1) False; loop (tvals b1) 1 (tvals b2) 1 (candinit b1 s) (hseq b1) } = Some (bit_rows F b1 b2 s, nils)"
    using sel r rows by simp
  then have "BATassertProps (bin_result (ttype b1) (hseq b1) False False (bit_rows F b1 b2 s, nils)) \<longleftrightarrow>
      (nils = 0 \<longrightarrow> nil_of (ttype b1) \<notin> set (bit_rows F b1 b2 s))"
    by (rule counted_props [OF o(1-4) _ t])
  moreover have "nils = 0 \<longleftrightarrow> (\<forall>k<length (tvals b1). is_cand s (hseq b1 + k) \<and> tvals b1 ! k \<noteq> nil_of (ttype b1) \<and> tvals b2 ! k \<noteq> nil_of (ttype b2))"
    unfolding nils length_0_conv filter_empty_conv by (auto simp: bin_done_def spec)
  ultimately show ?thesis unfolding calc r rows by (simp add: bin_result_def Let_def)
qed

end

lemma BATcalc_bits:
  assumes a: "aligned b1 b2 s"
  shows "BATcalcxor b1 b2 s = do { (dst, nils) \<leftarrow> xor_typeswitchloop (tvals b1) 1 (tvals b2) 1 (ttype b1) (candinit b1 s) (hseq b1) False;
      Some (bin_result (ttype b1) (hseq b1) False False (dst, nils)) }"
    and "\<not> (tnonil b1 \<and> tnonil b2) \<or> ccand (candinit b1 s) = None \<or> ttype b1 = TYPE_bit \<Longrightarrow>
      BATcalcor b1 b2 s = do { (dst, nils) \<leftarrow> or_typeswitchloop (tvals b1) 1 (tvals b2) 1 (ttype b1) (candinit b1 s) (hseq b1) False;
        Some (bin_result (ttype b1) (hseq b1) False False (dst, nils)) }"
    and "\<not> (tnonil b1 \<and> tnonil b2) \<or> ccand (candinit b1 s) = None \<or> ttype b1 = TYPE_bit \<Longrightarrow>
      BATcalcand b1 b2 s = do { (dst, nils) \<leftarrow> and_typeswitchloop (tvals b1) 1 (tvals b2) 1 (ttype b1) (candinit b1 s) (hseq b1) False;
        Some (bin_result (ttype b1) (hseq b1) False False (dst, nils)) }"
proof -
  have c: "checkbats b1 (Some b2)" "ATOMstorage (ttype b1) = ATOMstorage (ttype b2)" using a by (simp_all add: aligned_def checkbats_def)
  note fl = aligned_flag [OF a]
  have "xor_typeswitchloop (tvals b1) 1 (tvals b2) 1 (ttype b1) (candinit b1 s) (hseq b1) (ccand (candinit b1 s) = None \<and> tnonil b1 \<and> tnonil b2) =
      xor_typeswitchloop (tvals b1) 1 (tvals b2) 1 (ttype b1) (candinit b1 s) (hseq b1) False"
    by (rule nonil_flag) (use fl in auto)
  then show "BATcalcxor b1 b2 s = do { (dst, nils) \<leftarrow> xor_typeswitchloop (tvals b1) 1 (tvals b2) 1 (ttype b1) (candinit b1 s) (hseq b1) False;
      Some (bin_result (ttype b1) (hseq b1) False False (dst, nils)) }"
    using c by (simp only: BATcalcxor_def Let_def not_True_eq_False if_False simp_thms)
  assume n: "\<not> (tnonil b1 \<and> tnonil b2) \<or> ccand (candinit b1 s) = None \<or> ttype b1 = TYPE_bit"
  have "or_typeswitchloop (tvals b1) 1 (tvals b2) 1 (ttype b1) (candinit b1 s) (hseq b1) (tnonil b1 \<and> tnonil b2) =
      or_typeswitchloop (tvals b1) 1 (tvals b2) 1 (ttype b1) (candinit b1 s) (hseq b1) False \<and>
    and_typeswitchloop (tvals b1) 1 (tvals b2) 1 (ttype b1) (candinit b1 s) (hseq b1) (tnonil b1 \<and> tnonil b2) =
      and_typeswitchloop (tvals b1) 1 (tvals b2) 1 (ttype b1) (candinit b1 s) (hseq b1) False"
  proof (cases "ttype b1 = TYPE_bit")
    case True
    then show ?thesis by (simp add: or_typeswitchloop_def and_typeswitchloop_def ATOMstorage_def)
  next
    case False
    then show ?thesis using n fl by (intro conjI nonil_flag) auto
  qed
  then show "BATcalcor b1 b2 s = do { (dst, nils) \<leftarrow> or_typeswitchloop (tvals b1) 1 (tvals b2) 1 (ttype b1) (candinit b1 s) (hseq b1) False;
        Some (bin_result (ttype b1) (hseq b1) False False (dst, nils)) }"
    "BATcalcand b1 b2 s = do { (dst, nils) \<leftarrow> and_typeswitchloop (tvals b1) 1 (tvals b2) 1 (ttype b1) (candinit b1 s) (hseq b1) False;
        Some (bin_result (ttype b1) (hseq b1) False False (dst, nils)) }"
    using c by (simp_all only: BATcalcor_def BATcalcand_def Let_def not_True_eq_False if_False simp_thms)
qed

lemma bits_in_type:
  assumes "aligned b1 b2 s" "ttype b1 \<noteq> TYPE_bit" "in_type (ttype b1) l" "in_type (ttype b2) r"
  shows "in_type (ttype b1) (l XOR r)" "in_type (ttype b1) (l OR r)" "in_type (ttype b1) (l AND r)"
proof -
  note st = aligned_operands(5) [OF assms(1)]
  note w = same_storage_width [OF st] and rn = same_storage_range [OF st assms(3,4)]
  have "swrap (width (ttype b1)) x = x \<Longrightarrow> in_type (ttype b1) x" for x
    using swrap_range [of "width (ttype b1)" x] w assms(2) by (simp add: in_type_def)
  then show "in_type (ttype b1) (l XOR r)" "in_type (ttype b1) (l OR r)" "in_type (ttype b1) (l AND r)"
    using swrap_bits [of "width (ttype b1)" l r] w rn by simp_all
qed



subsection \<open>Candidate lists\<close>

lemma range_of_oids:
  assumes "sorted_wrt (<) os" "os \<noteq> []"
  shows "(CANDINIT seq cnt (Some (Oids os)))\<lparr>ccand := None\<rparr> = (CANDINIT seq cnt (Some (Dense (hd os) (last os + 1 - hd os))))\<lparr>ccand := None\<rparr>"
  using strict_bounds [OF assms(1), of "hd os"] assms(2) by (simp add: CANDINIT_def)

lemma bits_nonil_range:
  assumes "sorted_wrt (<) os" "os \<noteq> []" "tp \<noteq> TYPE_bit" "tp \<noteq> TYPE_other"
  shows "or_typeswitchloop lft i rgt j tp (CANDINIT seq cnt (Some (Oids os))) off True =
      or_typeswitchloop lft i rgt j tp (CANDINIT seq cnt (Some (Dense (hd os) (last os + 1 - hd os)))) off True"
    "and_typeswitchloop lft i rgt j tp (CANDINIT seq cnt (Some (Oids os))) off True =
      and_typeswitchloop lft i rgt j tp (CANDINIT seq cnt (Some (Dense (hd os) (last os + 1 - hd os)))) off True"
  by (simp_all add: assms(3,4) logic_switches bits_switch_def func_loop_def BINARY_3TYPE_FUNC_nonil_def range_of_oids [OF assms(1,2)])

text \<open>
  C39.  The or and the and of integer columns without nils, and the and of such a column with a constant,
  take an array of candidates for the whole range from its first to its last element: rows in
  between get a value although they are no candidates.
\<close>

theorem or_and_ignore_cands:
  assumes "aligned b1 b2 (Some (Oids os))" "ttype b1 \<noteq> TYPE_bit" "os \<noteq> []" "tnonil b1" "tnonil b2" "v \<noteq> nil_of vt"
    and "r = Some (Dense (hd os) (last os + 1 - hd os))"
  shows "BATcalcor b1 b2 (Some (Oids os)) = BATcalcor b1 b2 r \<and> BATcalcand b1 b2 (Some (Oids os)) = BATcalcand b1 b2 r \<and>
    BATcalcandcst b1 vt v (Some (Oids os)) = BATcalcandcst b1 vt v r \<and> BATcalccstand vt v b1 (Some (Oids os)) = BATcalccstand vt v b1 r"
proof -
  have "sorted_wrt (<) os" "ttype b1 \<noteq> TYPE_other" using assms(1) by (simp_all add: aligned_def cands_ok_def)
  then show ?thesis
    using assms(2-6)
    by (simp add: assms(7) BATcalcor_def BATcalcand_def BATcalcandcst_def BATcalccstand_def Let_def bits_nonil_range del: One_nat_def)
qed

theorem or_and_ignore_cands_witness:
  "\<exists>b1 b2 os. map_option tvals (BATcalcor b1 b2 (Some (Oids os))) = Some [5, 7, 7] \<and> hseq b1 + 1 \<notin> set os"
proof -
  let ?b1 = "(BATnew TYPE_bte)\<lparr>tvals := [1, 2, 3], trevsorted := False\<rparr>" and ?b2 = "(BATnew TYPE_bte)\<lparr>tvals := [4, 5, 6], trevsorted := False\<rparr>"
  have "aligned ?b1 ?b2 (Some (Oids [0, 2]))" "ttype ?b1 \<noteq> TYPE_bit" "[0, 2] \<noteq> ([] :: nat list)" "tnonil ?b1" "tnonil ?b2" "(0 :: int) \<noteq> nil_of TYPE_bte"
    by (simp_all add: aligned_def BATassertProps_iff BATnew_def in_type_def smin_def smax_def cands_ok_def)
  then have "BATcalcor ?b1 ?b2 (Some (Oids [0, 2])) = BATcalcor ?b1 ?b2 (Some (Dense (hd [0, 2]) (last [0, 2] + 1 - hd [0, 2])))"
    using or_and_ignore_cands [of ?b1 ?b2 "[0, 2]" 0 TYPE_bte] by blast
  moreover have "map_option tvals (BATcalcor ?b1 ?b2 (Some (Dense (hd [0, 2]) (last [0, 2] + 1 - hd [0, 2])))) = Some [5, 7, 7]" "hseq ?b1 + 1 \<notin> set [0, 2]"
    by code_simp+
  ultimately show ?thesis by metis
qed

text \<open>
  When an exclusive or of two rows that are not nil is the nil value, the result column of two columns without
  nils has a nil and is marked as having none.
\<close>

theorem xor_nil_unnoticed:
  assumes "aligned b1 b2 None" "ttype b1 \<noteq> TYPE_bit" "tnonil b1" "tnonil b2"
    and "k < length (tvals b1)" "tvals b1 ! k XOR tvals b2 ! k = nil_of (ttype b1)"
  shows "\<exists>c. BATcalcxor b1 b2 None = Some c \<and> tvals c ! k = nil_of (ttype b1) \<and> tnonil c \<and> \<not> BATassertProps c"
proof -
  note a = assms(1,2)
  have sel: "bits_sel xor_typeswitchloop (\<lambda>tp. True) (ttype b1) (ttype b2) (ttype b1) False =
      Some (\<lambda>lft i rgt j ci off. xor_typeswitchloop lft i rgt j (ttype b1) ci off False)"
    using aligned_operands(5) [OF a(1)] by (simp add: bits_sel_def)
  have spec: "(\<lambda>l r. Some (bits_fun (XOR) XORBIT (ttype b1) l r)) = (\<lambda>l r. Some (l XOR r))" using a(2) by (simp add: bits_fun_int)
  obtain c where c: "BATcalcxor b1 b2 None = Some c" "tvals c = bit_rows (XOR) b1 b2 None"
    "BATassertProps c \<longleftrightarrow> (tnonil c \<longrightarrow> nil_of (ttype b1) \<notin> set (tvals c))"
    "tnonil c \<longleftrightarrow> (\<forall>k<length (tvals b1). is_cand None (hseq b1 + k) \<and> tvals b1 ! k \<noteq> nil_of (ttype b1) \<and> tvals b2 ! k \<noteq> nil_of (ttype b2))"
    using bxor.bits_column [where F = "(XOR)", OF a(1) spec refl sel bits_in_type(1) [OF a] BATcalc_bits(1) [OF a(1)]] by blast
  have n: "nil_of (ttype b1) \<notin> set (tvals b1)" "nil_of (ttype b2) \<notin> set (tvals b2)" "length (tvals b1) = length (tvals b2)"
    using a(1) assms(3,4) by (simp_all add: aligned_def BATassertProps_iff)
  have "tvals b1 ! k \<noteq> nil_of (ttype b1)" "tvals b2 ! k \<noteq> nil_of (ttype b2)" if "k < length (tvals b1)" for k
    using n nth_mem [of k "tvals b1"] nth_mem [of k "tvals b2"] that by metis+
  then have "tnonil c" unfolding c(4) by (simp add: is_cand_def)
  moreover have "tvals c ! k = nil_of (ttype b1)" using assms(5,6) by (simp add: c(2) bit_rows_def)
  moreover have "tvals c ! k \<in> set (tvals c)" using assms(5) by (intro nth_mem) (simp add: c(2) bit_rows_def)
  ultimately show ?thesis using c(1,3) by metis
qed

theorem xor_nil_unnoticed_witness:
  "\<exists>b1 b2 c. BATcalcxor b1 b2 None = Some c \<and> tvals c ! 1 = - 128 \<and> tnonil c \<and> \<not> BATassertProps c"
proof -
  let ?b1 = "(BATnew TYPE_bte)\<lparr>tvals := [1, 127], trevsorted := False\<rparr>" and ?b2 = "(BATnew TYPE_bte)\<lparr>tvals := [4, - 1], tsorted := False\<rparr>"
  have "aligned ?b1 ?b2 None" "ttype ?b1 \<noteq> TYPE_bit" "tnonil ?b1" "tnonil ?b2" "1 < length (tvals ?b1)"
    "tvals ?b1 ! 1 XOR tvals ?b2 ! 1 = nil_of (ttype ?b1)" "nil_of (ttype ?b1) = - 128"
    by (simp_all add: aligned_def BATassertProps_iff BATnew_def in_type_def smin_def smax_def cands_ok_def)
  then show ?thesis using xor_nil_unnoticed [of ?b1 ?b2 1] by metis
qed

subsection \<open>Shifts of columns\<close>

definition shift_done :: "bat \<Rightarrow> bat \<Rightarrow> cands option \<Rightarrow> nat \<Rightarrow> bool" where
  "shift_done b1 b2 s k \<longleftrightarrow> is_cand s (hseq b1 + k) \<and> tvals b1 ! k \<noteq> nil_of (ttype b1) \<and> tvals b2 ! k \<noteq> nil_of (ttype b2)"

definition shift_error :: "bat \<Rightarrow> bat \<Rightarrow> nat \<Rightarrow> bool" where
  "shift_error b1 b2 k \<longleftrightarrow> \<not> (0 \<le> tvals b2 ! k \<and> tvals b2 ! k < int (width (ttype b1)))"

definition shift_rows :: "(int \<Rightarrow> int \<Rightarrow> int) \<Rightarrow> bat \<Rightarrow> bat \<Rightarrow> cands option \<Rightarrow> int list" where
  "shift_rows F b1 b2 s = map (\<lambda>k. if shift_done b1 b2 s k \<and> \<not> shift_error b1 b2 k
     then swrap (width (ttype b1)) (F (tvals b1 ! k) (2 ^ nat (tvals b2 ! k))) else nil_of (ttype b1)) [0..<length (tvals b1)]"

definition shiftable :: "bat \<Rightarrow> bat \<Rightarrow> cands option \<Rightarrow> bool" where
  "shiftable b1 b2 s \<longleftrightarrow> (\<forall>v\<in>set (tvals b1). in_type (ttype b1) v) \<and> (\<forall>v\<in>set (tvals b2). in_type (ttype b2) v) \<and> length (tvals b1) = length (tvals b2) \<and>
    ttype b1 \<noteq> TYPE_other \<and> ttype b2 \<noteq> TYPE_other \<and> cands_ok (hseq b1) s \<and> bat_fits b1"

lemma shiftable_operands:
  assumes "shiftable b1 b2 s"
  shows "operand (ttype b1) (tvals b1) 1 (length (tvals b1))" "operand (ttype b2) (tvals b2) 1 (length (tvals b1))"
    "cands_ok (hseq b1) s" "hseq b1 + length (tvals b1) < 2 ^ 63" "checkbats b1 (Some b2)" "ttype b1 \<noteq> TYPE_other" "ttype b2 \<noteq> TYPE_other"
proof -
  show "operand (ttype b1) (tvals b1) 1 (length (tvals b1))" "operand (ttype b2) (tvals b2) 1 (length (tvals b1))"
    using assms by (simp_all add: shiftable_def operand_def)
qed (use assms in \<open>simp_all add: shiftable_def checkbats_def\<close>)

lemma shift_vals:
  "map (bin_val s (hseq b1) (nil_of (ttype b1)) (nil_of (ttype b2)) (nil_of (ttype b1)) (shift_spec F (ttype b1) (ttype b2) (ttype b1))
      (tvals b1) 1 (tvals b2) 1) [0..<length (tvals b1)] = shift_rows F b1 b2 s"
  "bin_fails s (hseq b1) (nil_of (ttype b1)) (nil_of (ttype b2)) (shift_spec F (ttype b1) (ttype b2) (ttype b1)) (tvals b1) 1 (tvals b2) 1 k \<longleftrightarrow>
    shift_done b1 b2 s k \<and> shift_error b1 b2 k"
  by (auto simp: bin_val_def bin_fails_def shift_rows_def shift_done_def shift_error_def shift_spec_def Let_def)

lemma shift_columns:
  assumes a: "shiftable b1 b2 s"
  shows "if ab \<and> (\<exists>k<length (tvals b1). shift_done b1 b2 s k \<and> shift_error b1 b2 k) then BATcalclsh b1 b2 s ab = None
      else \<exists>c. BATcalclsh b1 b2 s ab = Some c \<and> ttype c = ttype b1 \<and> tvals c = shift_rows (*) b1 b2 s"
    "if ab \<and> (\<exists>k<length (tvals b1). shift_done b1 b2 s k \<and> shift_error b1 b2 k) then BATcalcrsh b1 b2 s ab = None
      else \<exists>c. BATcalcrsh b1 b2 s ab = Some c \<and> ttype c = ttype b1 \<and> tvals c = shift_rows (div) b1 b2 s"
proof -
  note o = shiftable_operands [OF a]
  obtain L R where sel: "shift_sel lsh_switch (ttype b1) (ttype b2) (ttype b1) ab = Some L" "shift_sel rsh_switch (ttype b1) (ttype b2) (ttype b1) ab = Some R"
    using o(6,7) by (auto simp: shift_sel_def shift_switch_eq)
  have e: "BATcalclsh b1 b2 s ab = do { (dst, nils) \<leftarrow> (do { loop \<leftarrow> shift_sel lsh_switch (ttype b1) (ttype b2) (ttype b1) ab;
      loop (tvals b1) 1 (tvals b2) 1 (candinit b1 s) (hseq b1) }); Some (bin_result (ttype b1) (hseq b1) False False (dst, nils)) }"
    "BATcalcrsh b1 b2 s ab = do { (dst, nils) \<leftarrow> (do { loop \<leftarrow> shift_sel rsh_switch (ttype b1) (ttype b2) (ttype b1) ab;
      loop (tvals b1) 1 (tvals b2) 1 (candinit b1 s) (hseq b1) }); Some (bin_result (ttype b1) (hseq b1) False False (dst, nils)) }"
    by (simp_all only: BATcalclsh_def BATcalcrsh_def o(5) lsh_typeswitchloop_def rsh_typeswitchloop_def shift_sel_def not_True_eq_False if_False if_True simp_thms)
  show "if ab \<and> (\<exists>k<length (tvals b1). shift_done b1 b2 s k \<and> shift_error b1 b2 k) then BATcalclsh b1 b2 s ab = None
      else \<exists>c. BATcalclsh b1 b2 s ab = Some c \<and> ttype c = ttype b1 \<and> tvals c = shift_rows (*) b1 b2 s"
    "if ab \<and> (\<exists>k<length (tvals b1). shift_done b1 b2 s k \<and> shift_error b1 b2 k) then BATcalcrsh b1 b2 s ab = None
      else \<exists>c. BATcalcrsh b1 b2 s ab = Some c \<and> ttype c = ttype b1 \<and> tvals c = shift_rows (div) b1 b2 s"
    using lsh.columns [OF o(1-4) sel(1) e(1)] rsh.columns [OF o(1-4) sel(2) e(2)] unfolding shift_vals no_traps .
qed

lemma shift_rows_nth: "k < length (tvals b1) \<Longrightarrow> shift_rows F b1 b2 s ! k = (if shift_done b1 b2 s k \<and> \<not> shift_error b1 b2 k
    then swrap (width (ttype b1)) (F (tvals b1 ! k) (2 ^ nat (tvals b2 ! k))) else nil_of (ttype b1))"
  by (simp add: shift_rows_def)

lemma shift_rows_length: "length (shift_rows F b1 b2 s) = length (tvals b1)"
  by (simp add: shift_rows_def)

lemma lsh_operand:
  assumes "shiftable b1 b2 s" "ttype b1 \<noteq> TYPE_bit"
  shows "\<forall>v\<in>set (shift_rows F b1 b2 s). in_type (ttype b1) v"
proof -
  have w: "0 < width (ttype b1)" using assms(1) width_pos by (simp add: shiftable_def)
  have "in_type (ttype b1) (swrap (width (ttype b1)) x)" for x using swrap_range [OF w] assms(2) by (simp add: in_type_def)
  moreover have "in_type (ttype b1) (nil_of (ttype b1))" using assms(2) w by (simp add: in_type_def smin_def smax_def)
  ultimately show ?thesis by (auto simp: shift_rows_def)
qed

text \<open>
  A left shift multiplies by the power of two and keeps the low bits, a right shift divides and rounds down;
  a shift count that is negative or not below the width is an error, or gives nil when
  errors are not to be reported.
\<close>

theorem shifts_exact:
  assumes "shiftable b1 b2 s"
  shows "if ab \<and> (\<exists>k<length (tvals b1). shift_done b1 b2 s k \<and> shift_error b1 b2 k)
    then BATcalclsh b1 b2 s ab = None \<and> BATcalcrsh b1 b2 s ab = None
    else (\<exists>c. BATcalclsh b1 b2 s ab = Some c \<and> ttype c = ttype b1 \<and> tvals c = shift_rows (*) b1 b2 s) \<and>
      (\<exists>c. BATcalcrsh b1 b2 s ab = Some c \<and> ttype c = ttype b1 \<and> tvals c = shift_rows (div) b1 b2 s)"
proof (cases "ab \<and> (\<exists>k<length (tvals b1). shift_done b1 b2 s k \<and> shift_error b1 b2 k)")
  case True
  then show ?thesis using shift_columns [OF assms, of ab] by (simp only: if_True simp_thms)
next
  case False
  then show ?thesis using shift_columns [OF assms, of ab] by (simp only: if_False simp_thms)
qed

theorem shifts_exact_witness:
  "\<exists>b1 b2. (\<exists>c. BATcalclsh b1 b2 None False = Some c \<and> tvals c = [2, 64, - 128]) \<and>
    (\<exists>c. BATcalcrsh b1 b2 None False = Some c \<and> tvals c = [0, 6, - 128])"
proof -
  let ?b1 = "(BATnew TYPE_bte)\<lparr>tvals := [1, 100, 127], trevsorted := False\<rparr>" and ?b2 = "(BATnew TYPE_bte)\<lparr>tvals := [1, 4, 8], trevsorted := False\<rparr>"
  have a: "shiftable ?b1 ?b2 None"
    by (simp add: shiftable_def BATassertProps_iff BATnew_def in_type_def smin_def smax_def cands_ok_def)
  have "shift_rows (*) ?b1 ?b2 None = [2, 64, - 128]" "shift_rows (div) ?b1 ?b2 None = [0, 6, - 128]" by code_simp+
  with shifts_exact [OF a, of False] show ?thesis by auto
qed

text \<open>A shift to the left and back restores a value exactly when the product fits and is not nil.\<close>

lemma shift_back:
  assumes w: "0 < w" "n < w" and l: "smin w < l" "l \<le> smax w" and p: "p = l * 2 ^ n"
  shows "(if swrap w p = smin w then smin w else swrap w (swrap w p div 2 ^ n)) = l \<longleftrightarrow> smin w < p \<and> p \<le> smax w"
proof
  assume "smin w < p \<and> p \<le> smax w"
  then have "swrap w p = p" "swrap w l = l" using w(1) l by (simp_all add: swrap_id)
  then show "(if swrap w p = smin w then smin w else swrap w (swrap w p div 2 ^ n)) = l"
    using \<open>smin w < p \<and> p \<le> smax w\<close> by (simp add: p)
next
  let ?q = "swrap w p"
  assume e: "(if ?q = smin w then smin w else swrap w (?q div 2 ^ n)) = l"
  then have "?q \<noteq> smin w" using l(1) by auto
  then have q: "smin w < ?q" "?q \<le> smax w" using swrap_range [OF w(1), of p] by auto
  have "swrap w (?q div 2 ^ n) = ?q div 2 ^ n"
    using div_power_range [OF w(1) q, of n] w(1) by (simp add: swrap_id)
  then have d: "?q div 2 ^ n = l" using e \<open>?q \<noteq> smin w\<close> by simp
  have "2 ^ n dvd (2 :: int) ^ w" using w(2) by (simp add: le_imp_power_dvd)
  moreover have "?q = p - 2 ^ w * ((p + 2 ^ (w - 1)) div 2 ^ w)"
    by (simp add: swrap_def minus_div_mult_eq_mod [symmetric] algebra_simps)
  ultimately have "2 ^ n dvd ?q" by (simp add: p)
  then have "?q = p" using d by (auto simp: p)
  then show "smin w < p \<and> p \<le> smax w" using q by simp
qed

text \<open>
  C31.  Shifting a column to the left and the result to the right by the same counts succeeds when the first shift
  does.  A row that is a candidate, is not nil and has a count in range comes back exactly when
  the product fits the type and is not nil, whatever the other rows hold; every other row is nil.
\<close>

theorem shift_roundtrip:
  assumes a: "shiftable b1 b2 s" "ttype b1 \<noteq> TYPE_bit" "BATcalclsh b1 b2 s ab = Some c"
  shows "\<exists>d. BATcalcrsh c b2 s ab = Some d \<and> length (tvals d) = length (tvals b1) \<and>
    (\<forall>k<length (tvals b1). if shift_done b1 b2 s k \<and> \<not> shift_error b1 b2 k
      then tvals d ! k = tvals b1 ! k \<longleftrightarrow> nil_of (ttype b1) < tvals b1 ! k * 2 ^ nat (tvals b2 ! k) \<and>
        tvals b1 ! k * 2 ^ nat (tvals b2 ! k) \<le> smax (width (ttype b1))
      else tvals d ! k = nil_of (ttype b1))"
proof -
  let ?w = "width (ttype b1)"
  let ?q = "\<lambda>k. swrap ?w (tvals b1 ! k * 2 ^ nat (tvals b2 ! k))"
  have c: "ttype c = ttype b1" "tvals c = shift_rows (*) b1 b2 s"
    using shift_columns(1) [OF a(1), of ab] a(3) by (auto split: if_split_asm)
  have h: "hseq c = hseq b1" using a(3) by (auto simp: BATcalclsh_def bin_result_def bind_eq_Some_conv Let_def split: if_split_asm)
  note n = c h
  have b: "shiftable c b2 s" using a(1) lsh_operand [OF a(1,2), of "(*)"] by (simp add: shiftable_def n shift_rows_length)
  have w: "0 < ?w" using a(1) width_pos by (simp add: shiftable_def)
  have er: "shift_error c b2 k = shift_error b1 b2 k" for k by (simp add: shift_error_def n)
  have dn: "shift_done c b2 s k \<longleftrightarrow> shift_done b1 b2 s k \<and> \<not> shift_error b1 b2 k \<and> ?q k \<noteq> nil_of (ttype b1)"
    if "k < length (tvals b1)" for k
    using that by (auto simp: shift_done_def n shift_rows_nth)
  have "\<not> (ab \<and> (\<exists>k<length (tvals c). shift_done c b2 s k \<and> shift_error c b2 k))"
    using dn by (auto simp: er n shift_rows_length)
  then obtain e where e: "BATcalcrsh c b2 s ab = Some e" "tvals e = shift_rows (div) c b2 s"
    using shift_columns(2) [OF b, of ab] by (auto split: if_split_asm)
  have row: "tvals e ! k = (if shift_done b1 b2 s k \<and> \<not> shift_error b1 b2 k
      then if ?q k = nil_of (ttype b1) then nil_of (ttype b1) else swrap ?w (?q k div 2 ^ nat (tvals b2 ! k))
      else nil_of (ttype b1))" if k: "k < length (tvals b1)" for k
    using k dn [OF k] shift_rows_nth [of k c "(div)" b2 s] shift_rows_nth [of k b1 "(*)" b2 s]
    by (auto simp: e(2) n er shift_rows_length)
  have "if shift_done b1 b2 s k \<and> \<not> shift_error b1 b2 k
      then tvals e ! k = tvals b1 ! k \<longleftrightarrow> nil_of (ttype b1) < tvals b1 ! k * 2 ^ nat (tvals b2 ! k) \<and>
        tvals b1 ! k * 2 ^ nat (tvals b2 ! k) \<le> smax ?w
      else tvals e ! k = nil_of (ttype b1)" if k: "k < length (tvals b1)" for k
  proof (cases "shift_done b1 b2 s k \<and> \<not> shift_error b1 b2 k")
    case True
    then have "nat (tvals b2 ! k) < ?w" "nil_of (ttype b1) < tvals b1 ! k" "tvals b1 ! k \<le> smax ?w"
      using a(1) k in_type_range [of "ttype b1" "tvals b1 ! k"]
      by (auto simp: shift_done_def shift_error_def shiftable_def)
    from shift_back [OF w this refl] show ?thesis using row [OF k] unfolding if_P [OF True] by simp
  next
    case False
    show ?thesis using row [OF k] unfolding if_not_P [OF False] .
  qed
  moreover have "length (tvals e) = length (tvals b1)" by (simp add: e(2) shift_rows_length n)
  ultimately show ?thesis using e(1) by blast
qed

theorem shift_roundtrip_witness:
  "\<exists>b1 b2 c d. BATcalclsh b1 b2 None False = Some c \<and> BATcalcrsh c b2 None False = Some d \<and> tvals c = [4, - 48, - 128] \<and> tvals d = [1, - 3, - 128]"
proof -
  let ?b1 = "(BATnew TYPE_bte)\<lparr>tvals := [1, - 3, 5], trevsorted := False\<rparr>" and ?b2 = "(BATnew TYPE_sht)\<lparr>tvals := [2, 4, 8], trevsorted := False\<rparr>"
  have a: "shiftable ?b1 ?b2 None" "ttype ?b1 \<noteq> TYPE_bit"
    by (simp_all add: shiftable_def BATnew_def in_type_def smin_def smax_def cands_ok_def)
  have "map_option tvals (BATcalclsh ?b1 ?b2 None False) = Some [4, - 48, - 128]" by code_simp
  then obtain c where c: "BATcalclsh ?b1 ?b2 None False = Some c" "tvals c = [4, - 48, - 128]" by auto
  have l: "[0..<length (tvals ?b1)] = [0, 1, 2]" by code_simp
  have lt: "(\<forall>k<length (tvals ?b1). P k) \<longleftrightarrow> P 0 \<and> P 1 \<and> P 2" for P
    using l by (metis atLeastLessThan_iff atLeastLessThan_upt insertCI insertE list.set(1) list.set(2) empty_iff le0)
  obtain d where d: "BATcalcrsh c ?b2 None False = Some d" "length (tvals d) = length (tvals ?b1)"
    "\<forall>k<length (tvals ?b1). if shift_done ?b1 ?b2 None k \<and> \<not> shift_error ?b1 ?b2 k
      then tvals d ! k = tvals ?b1 ! k \<longleftrightarrow> nil_of (ttype ?b1) < tvals ?b1 ! k * 2 ^ nat (tvals ?b2 ! k) \<and>
        tvals ?b1 ! k * 2 ^ nat (tvals ?b2 ! k) \<le> smax (width (ttype ?b1))
      else tvals d ! k = nil_of (ttype ?b1)"
    using shift_roundtrip [OF a c(1)] by blast
  have "tvals d = [tvals d ! 0, tvals d ! 1, tvals d ! 2]" using d(2) by (intro nth_equalityI) (auto simp: less_Suc_eq numeral_2_eq_2)
  moreover have "tvals d ! 0 = 1" "tvals d ! 1 = - 3" "tvals d ! 2 = - 128"
    using d(3) unfolding lt by (simp_all add: shift_done_def shift_error_def is_cand_def BATnew_def smin_def smax_def)
  ultimately show ?thesis using c d(1) by auto
qed

end
