(* ===== verification/Gdk_Logic.thy ===== *)
theory Gdk_Logic
  imports Gdk_Bits_Props
begin

unbundle bit_operations_syntax

text \<open>
  The logical operators on \<^verbatim>\<open>bit\<close> columns as three-valued logic, in which nil is the unknown
  truth value.
\<close>

subsection \<open>Truth values\<close>

definition tri :: "int \<Rightarrow> bool option" where
  "tri v = (if v = smin 8 then None else Some (v \<noteq> 0))"

fun tri_or :: "bool option \<Rightarrow> bool option \<Rightarrow> bool option" where
  "tri_or (Some False) (Some False) = Some False"
| "tri_or (Some True) q = Some True"
| "tri_or p (Some True) = Some True"
| "tri_or p q = None"

fun tri_and :: "bool option \<Rightarrow> bool option \<Rightarrow> bool option" where
  "tri_and (Some True) (Some True) = Some True"
| "tri_and (Some False) q = Some False"
| "tri_and p (Some False) = Some False"
| "tri_and p q = None"

fun tri_xor :: "bool option \<Rightarrow> bool option \<Rightarrow> bool option" where
  "tri_xor (Some p) (Some q) = Some (p \<noteq> q)"
| "tri_xor p q = None"

definition tri_rows :: "(bool option \<Rightarrow> bool option \<Rightarrow> bool option) \<Rightarrow> bat \<Rightarrow> bat \<Rightarrow> cands option \<Rightarrow> bool option list" where
  "tri_rows F b1 b2 s = map (\<lambda>k. if is_cand s (hseq b1 + k) then F (tri (tvals b1 ! k)) (tri (tvals b2 ! k)) else None) [0..<length (tvals b1)]"

lemma tri_and_or: "map_option Not (tri_and p q) = tri_or (map_option Not p) (map_option Not q)"
  by (cases "(p, q)" rule: tri_and.cases) auto

lemma bit_values: "in_type TYPE_bit v \<longleftrightarrow> v = - 128 \<or> v = 0 \<or> v = 1"
  by (auto simp: in_type_def smin_def smax_def)

lemma tri_values: "tri (- 128) = None" "tri 0 = Some False" "tri 1 = Some True"
  by (simp_all add: tri_def smin_def)

lemma tri_inj: "in_type TYPE_bit v \<Longrightarrow> in_type TYPE_bit w \<Longrightarrow> tri v = tri w \<longleftrightarrow> v = w"
  by (auto simp: bit_values tri_values)

lemma tri_list_inj:
  "map tri xs = map tri ys \<Longrightarrow> \<forall>v\<in>set xs. in_type TYPE_bit v \<Longrightarrow> \<forall>v\<in>set ys. in_type TYPE_bit v \<Longrightarrow> xs = ys"
  by (induction xs arbitrary: ys) (auto simp: tri_inj)

subsection \<open>A column whose nils are counted\<close>

lemma counted_column:
  assumes c: "cands_ok seq s" "seq + cnt < 2 ^ 63" and f: "\<And>k. k < cnt \<Longrightarrow> f k = Some (v k, if v k = nil_of tp then 1 else 0)"
    and t: "\<And>k. k < cnt \<Longrightarrow> in_type tp (v k)" "in_type tp (nil_of tp)"
    and calc: "calc = do { (dst, nils) \<leftarrow> cand_run f (nil_of tp) seq (CANDINIT seq cnt s); Some (bin_result tp seq False False (dst, nils)) }"
  shows "\<exists>c. calc = Some c \<and> BATassertProps c \<and> ttype c = tp \<and> hseq c = seq \<and>
    tvals c = map (\<lambda>k. if is_cand s (seq + k) then v k else nil_of tp) [0..<cnt]"
proof -
  define vs where "vs = map (\<lambda>k. if is_cand s (seq + k) then v k else nil_of tp) [0..<cnt]"
  have r: "cand_run f (nil_of tp) seq (CANDINIT seq cnt s) = Some (vs, nil_count (nil_of tp) vs)"
    unfolding cand_run_cells [OF c] vs_def using f by (intro cells_nil_count) (simp add: masked_def)
  have "\<forall>v\<in>set vs. in_type tp v" using t by (auto simp: vs_def)
  then have "BATassertProps (bin_result tp seq False False (vs, nil_count (nil_of tp) vs))"
    using trivially_ordered [of vs "nil_of tp"] distinct_short [of vs]
    by (auto simp: BATassertProps_iff bin_result_def BATnew_def Let_def)
  then show ?thesis unfolding calc r vs_def [symmetric] by (simp add: bin_result_def Let_def)
qed

lemma bit_nil: "in_type TYPE_bit (nil_of TYPE_bit)"
  by (simp add: in_type_def smin_def smax_def)

subsection \<open>Or and and\<close>

definition bit_columns :: "bat \<Rightarrow> bat \<Rightarrow> cands option \<Rightarrow> bool" where
  "bit_columns b1 b2 s \<longleftrightarrow> ttype b1 = TYPE_bit \<and> ttype b2 = TYPE_bit \<and> length (tvals b1) = length (tvals b2) \<and>
    (\<forall>v\<in>set (tvals b1). in_type TYPE_bit v) \<and> (\<forall>v\<in>set (tvals b2). in_type TYPE_bit v) \<and> cands_ok (hseq b1) s \<and> bat_fits b1"

definition untri :: "bool option \<Rightarrow> int" where
  "untri p = (case p of None \<Rightarrow> smin 8 | Some q \<Rightarrow> if q then 1 else 0)"

lemma untri_props: "tri (untri p) = p" "in_type TYPE_bit (untri p)" "untri p = smin 8 \<longleftrightarrow> p = None"
  by (auto simp: untri_def tri_def bit_values smin_def split: option.splits)

lemma or_and_bit:
  assumes "k < length lft" "k < length rgt" "in_type TYPE_bit (lft ! k)" "in_type TYPE_bit (rgt ! k)"
  shows "or_bit lft 1 rgt 1 k = Some (untri (tri_or (tri (lft ! k)) (tri (rgt ! k))), if untri (tri_or (tri (lft ! k)) (tri (rgt ! k))) = smin 8 then 1 else 0)"
    "and_bit lft 1 rgt 1 k = Some (untri (tri_and (tri (lft ! k)) (tri (rgt ! k))), if untri (tri_and (tri (lft ! k)) (tri (rgt ! k))) = smin 8 then 1 else 0)"
  using assms(1,2) assms(3,4) [unfolded bit_values]
  by (elim disjE; simp add: or_bit_def and_bit_def fetch_def tri_values untri_def smin_def)+

lemma or_and_columns:
  assumes a: "bit_columns b1 b2 s"
  shows "\<exists>c. BATcalcor b1 b2 s = Some c \<and> BATassertProps c \<and> ttype c = TYPE_bit \<and> hseq c = hseq b1 \<and> map tri (tvals c) = tri_rows tri_or b1 b2 s"
    "\<exists>c. BATcalcand b1 b2 s = Some c \<and> BATassertProps c \<and> ttype c = TYPE_bit \<and> hseq c = hseq b1 \<and> map tri (tvals c) = tri_rows tri_and b1 b2 s"
proof -
  have c: "checkbats b1 (Some b2)" "ttype b1 = TYPE_bit" "ttype b2 = TYPE_bit" "cands_ok (hseq b1) s" "bat_fits b1"
    using a by (simp_all add: bit_columns_def checkbats_def)
  have t: "k < length (tvals b2)" "in_type TYPE_bit (tvals b1 ! k)" "in_type TYPE_bit (tvals b2 ! k)" if "k < length (tvals b1)" for k
    using a that by (simp_all add: bit_columns_def)
  let ?o = "\<lambda>k. untri (tri_or (tri (tvals b1 ! k)) (tri (tvals b2 ! k)))" and ?a = "\<lambda>k. untri (tri_and (tri (tvals b1 ! k)) (tri (tvals b2 ! k)))"
  have cell: "or_bit (tvals b1) 1 (tvals b2) 1 k = Some (?o k, if ?o k = nil_of TYPE_bit then 1 else 0)"
    "and_bit (tvals b1) 1 (tvals b2) 1 k = Some (?a k, if ?a k = nil_of TYPE_bit then 1 else 0)" if "k < length (tvals b1)" for k
    using or_and_bit [OF that t [OF that]] by (simp_all only: width.simps)
  have e: "BATcalcor b1 b2 s = do { (dst, nils) \<leftarrow> cand_run (or_bit (tvals b1) 1 (tvals b2) 1) (nil_of TYPE_bit) (hseq b1) (candinit b1 s);
      Some (bin_result TYPE_bit (hseq b1) False False (dst, nils)) }"
    "BATcalcand b1 b2 s = do { (dst, nils) \<leftarrow> cand_run (and_bit (tvals b1) 1 (tvals b2) 1) (nil_of TYPE_bit) (hseq b1) (candinit b1 s);
      Some (bin_result TYPE_bit (hseq b1) False False (dst, nils)) }"
    by (simp_all add: BATcalcor_def BATcalcand_def c or_typeswitchloop_def and_typeswitchloop_def ATOMstorage_def Let_def)
  show "\<exists>c. BATcalcor b1 b2 s = Some c \<and> BATassertProps c \<and> ttype c = TYPE_bit \<and> hseq c = hseq b1 \<and> map tri (tvals c) = tri_rows tri_or b1 b2 s"
    "\<exists>c. BATcalcand b1 b2 s = Some c \<and> BATassertProps c \<and> ttype c = TYPE_bit \<and> hseq c = hseq b1 \<and> map tri (tvals c) = tri_rows tri_and b1 b2 s"
    using counted_column [where v = ?o, OF c(4,5) cell(1) untri_props(2) bit_nil e(1)] counted_column [where v = ?a, OF c(4,5) cell(2) untri_props(2) bit_nil e(2)]
    by (auto simp: tri_rows_def untri_props tri_def [of "smin 8"])
qed

lemma xor_column:
  assumes a: "aligned b1 b2 s" "ttype b1 = TYPE_bit" "ttype b2 = TYPE_bit"
  shows "\<exists>c. BATcalcxor b1 b2 s = Some c \<and> BATassertProps c \<and> ttype c = TYPE_bit \<and> map tri (tvals c) = tri_rows tri_xor b1 b2 s"
proof -
  have sel: "bits_sel xor_typeswitchloop (\<lambda>tp. True) (ttype b1) (ttype b2) (ttype b1) False =
      Some (\<lambda>lft i rgt j ci off. xor_typeswitchloop lft i rgt j (ttype b1) ci off False)"
    using aligned_operands(5) [OF a(1)] by (simp add: bits_sel_def)
  have spec: "(\<lambda>l r. Some (bits_fun (XOR) XORBIT (ttype b1) l r)) = (\<lambda>l r. Some (XORBIT l r))" using a(2) by (simp add: bits_fun_def)
  have ran: "in_type (ttype b1) (XORBIT l r)" for l r using a(2) by (simp add: bit_values XORBIT_def)
  obtain c where c: "BATcalcxor b1 b2 s = Some c" "ttype c = ttype b1" "tvals c = bit_rows XORBIT b1 b2 s"
    "BATassertProps c \<longleftrightarrow> (tnonil c \<longrightarrow> nil_of (ttype b1) \<notin> set (tvals c))"
    "tnonil c \<longleftrightarrow> (\<forall>k<length (tvals b1). is_cand s (hseq b1 + k) \<and> tvals b1 ! k \<noteq> nil_of (ttype b1) \<and> tvals b2 ! k \<noteq> nil_of (ttype b2))"
    using bxor.bits_column [where F = XORBIT, OF a(1) spec refl sel ran BATcalc_bits(1) [OF a(1)]] by blast
  have "nil_of (ttype b1) \<notin> set (tvals c)" if "tnonil c"
    using that [unfolded c(5)] a(2,3) by (auto simp: c(3) bit_rows_def XORBIT_def smin_def)
  moreover have "map tri (tvals c) = tri_rows tri_xor b1 b2 s"
    using a(2,3) by (auto simp: c(3) bit_rows_def tri_rows_def XORBIT_def tri_def smin_def)
  ultimately show ?thesis using c(1,2,4) a(2) by auto
qed

text \<open>
  C12.  On columns of truth values or, and and exclusive or are the operators of three-valued logic, with nil for unknown, at
  every candidate; the other rows are nil, and the properties recorded for the results are right.
\<close>

theorem logic_three_valued:
  assumes "aligned b1 b2 s" "ttype b1 = TYPE_bit" "ttype b2 = TYPE_bit"
  shows "(\<exists>c. BATcalcor b1 b2 s = Some c \<and> BATassertProps c \<and> map tri (tvals c) = tri_rows tri_or b1 b2 s) \<and>
    (\<exists>c. BATcalcand b1 b2 s = Some c \<and> BATassertProps c \<and> map tri (tvals c) = tri_rows tri_and b1 b2 s) \<and>
    (\<exists>c. BATcalcxor b1 b2 s = Some c \<and> BATassertProps c \<and> map tri (tvals c) = tri_rows tri_xor b1 b2 s)"
proof -
  have "bit_columns b1 b2 s" using assms by (simp add: aligned_def bit_columns_def BATassertProps_iff)
  from or_and_columns [OF this] xor_column [OF assms] show ?thesis by blast
qed

theorem logic_three_valued_witness:
  "\<exists>b1 b2. (\<exists>c. BATcalcor b1 b2 None = Some c \<and> map tri (tvals c) = [Some True, None, Some False]) \<and>
    (\<exists>c. BATcalcand b1 b2 None = Some c \<and> map tri (tvals c) = [None, Some False, Some False])"
proof -
  let ?b1 = "(BATnew TYPE_bit)\<lparr>tvals := [1, - 128, 0], tsorted := False, trevsorted := False, tnonil := False\<rparr>"
  let ?b2 = "(BATnew TYPE_bit)\<lparr>tvals := [- 128, 0, 0], trevsorted := False, tnonil := False\<rparr>"
  have a: "aligned ?b1 ?b2 None" "ttype ?b1 = TYPE_bit" "ttype ?b2 = TYPE_bit"
    by (simp_all add: aligned_def BATassertProps_iff BATnew_def in_type_def smin_def smax_def cands_ok_def)
  have "tri_rows tri_or ?b1 ?b2 None = [Some True, None, Some False]" "tri_rows tri_and ?b1 ?b2 None = [None, Some False, Some False]"
    by code_simp+
  with logic_three_valued [OF a] show ?thesis by metis
qed

subsection \<open>Negation\<close>

definition tri_not_rows :: "bat \<Rightarrow> cands option \<Rightarrow> bool option list" where
  "tri_not_rows b s = map (\<lambda>k. if is_cand s (hseq b + k) then map_option Not (tri (tvals b ! k)) else None) [0..<length (tvals b)]"

lemma BATcalcnot_column:
  assumes a: "BATassertProps b" "ttype b = TYPE_bit" "cands_ok (hseq b) s" "bat_fits b"
  shows "\<exists>n b'. BATcalcnot b s = Some (n, b') \<and> ttype n = TYPE_bit \<and> hseq n = hseq b \<and> (\<forall>v\<in>set (tvals n). in_type TYPE_bit v) \<and>
    map tri (tvals n) = tri_not_rows b s"
proof -
  let ?F = "\<lambda>x. if x = 0 then 1 else 0" and ?vs = "unary_vals s (smin 8) (smin 8) (\<lambda>x. if x = 0 then 1 else 0) b"
  have "\<exists>n. UNARY_2TYPE_FUNC (smin 8) (smin 8) ?F b (candinit b s) = Some (?vs, n)"
    using a by (intro UNARY_vals) (simp_all add: BATassertProps_iff)
  then obtain nils where r: "UNARY_2TYPE_FUNC (smin 8) (smin 8) ?F b (candinit b s) = Some (?vs, nils)" by blast
  have "\<forall>v\<in>set ?vs. in_type TYPE_bit v" by (auto simp: unary_vals_def bit_values smin_def)
  moreover have "map tri ?vs = tri_not_rows b s" by (auto simp: unary_vals_def tri_not_rows_def tri_def smin_def)
  ultimately show ?thesis by (simp add: BATcalcnot_def a(2) ATOMstorage_def Let_def r)
qed

text \<open>
  C13.  De Morgan's law: for two columns of truth values that start at the same identifier, negating their and gives the same
  values as the or of the negated columns, nils and candidates included.
\<close>

theorem de_morgan:
  assumes a: "aligned b1 b2 s" "ttype b1 = TYPE_bit" "ttype b2 = TYPE_bit" "hseq b1 = hseq b2"
  shows "\<exists>vs. do { c \<leftarrow> BATcalcand b1 b2 s; (d, _) \<leftarrow> BATcalcnot c s; Some (tvals d) } = Some vs \<and>
    do { (n1, _) \<leftarrow> BATcalcnot b1 s; (n2, _) \<leftarrow> BATcalcnot b2 s; e \<leftarrow> BATcalcor n1 n2 s; Some (tvals e) } = Some vs"
proof -
  have p: "BATassertProps b1" "BATassertProps b2" "cands_ok (hseq b1) s" "cands_ok (hseq b2) s" "bat_fits b1" "bat_fits b2"
    "length (tvals b1) = length (tvals b2)" using a(1,4) by (simp_all add: aligned_def)
  have "bit_columns b1 b2 s" using a by (simp add: aligned_def bit_columns_def BATassertProps_iff)
  then obtain c where c: "BATcalcand b1 b2 s = Some c" "BATassertProps c" "ttype c = TYPE_bit" "hseq c = hseq b1" "map tri (tvals c) = tri_rows tri_and b1 b2 s"
    using or_and_columns(2) by blast
  have len: "length (tvals c) = length (tvals b1)" using arg_cong [OF c(5), of length] by (simp add: tri_rows_def)
  obtain d d' where d: "BATcalcnot c s = Some (d, d')" "\<forall>v\<in>set (tvals d). in_type TYPE_bit v" "map tri (tvals d) = tri_not_rows c s"
    using BATcalcnot_column [OF c(2,3), of s] p(3,5) c(4) len by auto
  obtain n1 n1' where n1: "BATcalcnot b1 s = Some (n1, n1')" "ttype n1 = TYPE_bit" "hseq n1 = hseq b1" "\<forall>v\<in>set (tvals n1). in_type TYPE_bit v"
    "map tri (tvals n1) = tri_not_rows b1 s" using BATcalcnot_column [OF p(1) a(2) p(3,5)] by blast
  obtain n2 n2' where n2: "BATcalcnot b2 s = Some (n2, n2')" "ttype n2 = TYPE_bit" "hseq n2 = hseq b2" "\<forall>v\<in>set (tvals n2). in_type TYPE_bit v"
    "map tri (tvals n2) = tri_not_rows b2 s" using BATcalcnot_column [OF p(2) a(3) p(4,6)] by blast
  have l: "length (tvals n1) = length (tvals b1)" "length (tvals n2) = length (tvals b1)"
    using arg_cong [OF n1(5), of length] arg_cong [OF n2(5), of length] p(7) by (simp_all add: tri_not_rows_def)
  have "bit_columns n1 n2 s" using n1 n2 l p by (simp add: bit_columns_def)
  then obtain e where e: "BATcalcor n1 n2 s = Some e" "BATassertProps e" "ttype e = TYPE_bit" "map tri (tvals e) = tri_rows tri_or n1 n2 s"
    using or_and_columns(1) by blast
  have nth: "tri (tvals c ! k) = tri_rows tri_and b1 b2 s ! k" "tri (tvals n1 ! k) = tri_not_rows b1 s ! k" "tri (tvals n2 ! k) = tri_not_rows b2 s ! k"
    if "k < length (tvals b1)" for k
    using that len l arg_cong [OF c(5), of "\<lambda>xs. xs ! k"] arg_cong [OF n1(5), of "\<lambda>xs. xs ! k"] arg_cong [OF n2(5), of "\<lambda>xs. xs ! k"] by simp_all
  have "tri_not_rows c s = tri_rows tri_or n1 n2 s"
    unfolding tri_not_rows_def [of c] tri_rows_def [of _ n1] using nth a(4) p(7)
    by (intro map_cong) (auto simp: len l c(4) n1(3) tri_rows_def tri_not_rows_def tri_and_or)
  then have t: "map tri (tvals d) = map tri (tvals e)" using d(3) e(4) by simp
  have "tvals d = tvals e" using tri_list_inj [OF t d(2)] e(2,3) by (simp add: BATassertProps_iff)
  then show ?thesis using c(1) d(1) n1(1) n2(1) e(1) by simp
qed

theorem de_morgan_witness:
  "\<exists>b1 b2. do { (n1, _) \<leftarrow> BATcalcnot b1 None; (n2, _) \<leftarrow> BATcalcnot b2 None; e \<leftarrow> BATcalcor n1 n2 None; Some (tvals e) } = Some [- 128, 1, 0]"
proof -
  let ?b1 = "(BATnew TYPE_bit)\<lparr>tvals := [1, - 128, 1], tsorted := False, trevsorted := False, tnonil := False\<rparr>"
  let ?b2 = "(BATnew TYPE_bit)\<lparr>tvals := [- 128, 0, 1], trevsorted := False, tnonil := False\<rparr>"
  have a: "aligned ?b1 ?b2 None" "ttype ?b1 = TYPE_bit" "ttype ?b2 = TYPE_bit" "hseq ?b1 = hseq ?b2"
    by (simp_all add: aligned_def BATassertProps_iff BATnew_def in_type_def smin_def smax_def cands_ok_def)
  have "do { c \<leftarrow> BATcalcand ?b1 ?b2 None; (d, _) \<leftarrow> BATcalcnot c None; Some (tvals d) } = Some [- 128, 1, 0]" by code_simp
  with de_morgan [OF a] show ?thesis
    by (elim exE conjE, intro exI [of _ ?b1] exI [of _ ?b2]) (simp only: option.inject)
qed

end
