(* ===== verification/Gdk_Calc_Compare.thy ===== *)
theory Gdk_Calc_Compare
  imports Gdk_Logic
begin

text \<open>
  The comparison operators of columns and single values.  \<^verbatim>\<open>gdk/gdk_calc_compare.h\<close> is included by
  \<^verbatim>\<open>gdk/gdk_calc.c\<close> once for each operator, with macros for the operator and its result type; here
  these are the arguments \<open>OP\<close> and \<open>TPE\<close>.  The integer types are modelled.
  The locale \<open>compare_op\<close> is what the included file needs of the operator.
\<close>

subsection \<open>The operators\<close>

definition LT :: "int \<Rightarrow> int \<Rightarrow> int" where
  "LT a b = (if a < b then 1 else 0)"

definition GT :: "int \<Rightarrow> int \<Rightarrow> int" where
  "GT a b = (if a > b then 1 else 0)"

definition LE :: "int \<Rightarrow> int \<Rightarrow> int" where
  "LE a b = (if a \<le> b then 1 else 0)"

definition GE :: "int \<Rightarrow> int \<Rightarrow> int" where
  "GE a b = (if a \<ge> b then 1 else 0)"

definition EQ :: "int \<Rightarrow> int \<Rightarrow> int" where
  "EQ a b = (if a = b then 1 else 0)"

definition NE :: "int \<Rightarrow> int \<Rightarrow> int" where
  "NE a b = (if a \<noteq> b then 1 else 0)"

definition CMP_bte :: "int \<Rightarrow> int \<Rightarrow> int" where
  "CMP_bte a b = (if a < b then - 1 else if a > b then 1 else 0)"

subsection \<open>The included file\<close>

definition op_bte :: "(int \<Rightarrow> int \<Rightarrow> int) \<Rightarrow> tpe \<Rightarrow> bool \<Rightarrow> loop option" where
  "op_bte OP tp2 nonil =
    (case tp2 of
       TYPE_bte \<Rightarrow> Some (func_loop nonil 8 8 8 OP)
     | TYPE_sht \<Rightarrow> Some (func_loop nonil 8 16 8 OP)
     | TYPE_int \<Rightarrow> Some (func_loop nonil 8 32 8 OP)
     | TYPE_lng \<Rightarrow> Some (func_loop nonil 8 64 8 OP)
     | _ \<Rightarrow> None)"

definition op_sht :: "(int \<Rightarrow> int \<Rightarrow> int) \<Rightarrow> tpe \<Rightarrow> bool \<Rightarrow> loop option" where
  "op_sht OP tp2 nonil =
    (case tp2 of
       TYPE_bte \<Rightarrow> Some (func_loop nonil 16 8 8 OP)
     | TYPE_sht \<Rightarrow> Some (func_loop nonil 16 16 8 OP)
     | TYPE_int \<Rightarrow> Some (func_loop nonil 16 32 8 OP)
     | TYPE_lng \<Rightarrow> Some (func_loop nonil 16 64 8 OP)
     | _ \<Rightarrow> None)"

definition op_int :: "(int \<Rightarrow> int \<Rightarrow> int) \<Rightarrow> tpe \<Rightarrow> bool \<Rightarrow> loop option" where
  "op_int OP tp2 nonil =
    (case tp2 of
       TYPE_bte \<Rightarrow> Some (func_loop nonil 32 8 8 OP)
     | TYPE_sht \<Rightarrow> Some (func_loop nonil 32 16 8 OP)
     | TYPE_int \<Rightarrow> Some (func_loop nonil 32 32 8 OP)
     | TYPE_lng \<Rightarrow> Some (func_loop nonil 32 64 8 OP)
     | _ \<Rightarrow> None)"

definition op_lng :: "(int \<Rightarrow> int \<Rightarrow> int) \<Rightarrow> tpe \<Rightarrow> bool \<Rightarrow> loop option" where
  "op_lng OP tp2 nonil =
    (case tp2 of
       TYPE_bte \<Rightarrow> Some (func_loop nonil 64 8 8 OP)
     | TYPE_sht \<Rightarrow> Some (func_loop nonil 64 16 8 OP)
     | TYPE_int \<Rightarrow> Some (func_loop nonil 64 32 8 OP)
     | TYPE_lng \<Rightarrow> Some (func_loop nonil 64 64 8 OP)
     | _ \<Rightarrow> None)"

definition op_typeswitchloop :: "(int \<Rightarrow> int \<Rightarrow> int) \<Rightarrow> int list \<Rightarrow> tpe \<Rightarrow> nat \<Rightarrow> int list \<Rightarrow> tpe \<Rightarrow> nat \<Rightarrow>
    canditer \<Rightarrow> nat \<Rightarrow> bool \<Rightarrow> (int list \<times> nat) option" where
  "op_typeswitchloop OP lft tp1 incr1 rgt tp2 incr2 ci candoff nonil = do {
     loop \<leftarrow>
       (case tp1 of
          TYPE_bit \<Rightarrow> if tp2 \<noteq> TYPE_bit then None else Some (func_loop nonil 8 8 8 OP)
        | TYPE_bte \<Rightarrow> op_bte OP tp2 nonil
        | TYPE_sht \<Rightarrow> op_sht OP tp2 nonil
        | TYPE_int \<Rightarrow> op_int OP tp2 nonil
        | TYPE_lng \<Rightarrow> op_lng OP tp2 nonil
        | _ \<Rightarrow> None);
     loop lft incr1 rgt incr2 ci candoff
   }"

definition BATcalcop_intern :: "(int \<Rightarrow> int \<Rightarrow> int) \<Rightarrow> tpe \<Rightarrow> int list \<Rightarrow> tpe \<Rightarrow> nat \<Rightarrow> int list \<Rightarrow> tpe \<Rightarrow> nat \<Rightarrow>
    canditer \<Rightarrow> nat \<Rightarrow> bool \<Rightarrow> nat \<Rightarrow> bat option" where
  "BATcalcop_intern OP TPE lft tp1 incr1 rgt tp2 incr2 ci candoff nonil seqbase = do {
     (dst, nils) \<leftarrow> op_typeswitchloop OP lft tp1 incr1 rgt tp2 incr2 ci candoff nonil;
     Some (bin_result TPE seqbase False False (dst, nils))
   }"

definition BATcalcop :: "(int \<Rightarrow> int \<Rightarrow> int) \<Rightarrow> tpe \<Rightarrow> bat \<Rightarrow> bat \<Rightarrow> cands option \<Rightarrow> bat option" where
  "BATcalcop OP TPE b1 b2 s =
    (if \<not> checkbats b1 (Some b2) then None
     else let ci = candinit b1 s in
       BATcalcop_intern OP TPE (tvals b1) (ttype b1) 1 (tvals b2) (ttype b2) 1 ci (hseq b1)
         (ccand ci = None \<and> tnonil b1 \<and> tnonil b2) (hseq b1))"

definition BATcalcopcst :: "(int \<Rightarrow> int \<Rightarrow> int) \<Rightarrow> tpe \<Rightarrow> bat \<Rightarrow> tpe \<Rightarrow> int \<Rightarrow> cands option \<Rightarrow> bat option" where
  "BATcalcopcst OP TPE b vt v s =
    (if \<not> checkbats b None then None
     else let ci = candinit b s in
       BATcalcop_intern OP TPE (tvals b) (ttype b) 1 [v] vt 0 ci (hseq b)
         (ccand ci = None \<and> tnonil b \<and> v \<noteq> nil_of vt) (hseq b))"

definition BATcalccstop :: "(int \<Rightarrow> int \<Rightarrow> int) \<Rightarrow> tpe \<Rightarrow> tpe \<Rightarrow> int \<Rightarrow> bat \<Rightarrow> cands option \<Rightarrow> bat option" where
  "BATcalccstop OP TPE vt v b s =
    (if \<not> checkbats b None then None
     else let ci = candinit b s in
       BATcalcop_intern OP TPE [v] vt 0 (tvals b) (ttype b) 1 ci (hseq b)
         (ccand ci = None \<and> tnonil b \<and> v \<noteq> nil_of vt) (hseq b))"

definition VARcalcop :: "(int \<Rightarrow> int \<Rightarrow> int) \<Rightarrow> tpe \<Rightarrow> tpe \<Rightarrow> int \<Rightarrow> tpe \<Rightarrow> int \<Rightarrow> (tpe \<times> int) option" where
  "VARcalcop OP TPE lt lft rt rgt = do {
     (dst, nils) \<leftarrow> op_typeswitchloop OP [lft] lt 0 [rgt] rt 0 one_row 0 False;
     v \<leftarrow> fetch dst 0;
     Some (TPE, v)
   }"

subsection \<open>The inclusions\<close>

definition BATcalclt :: "bat \<Rightarrow> bat \<Rightarrow> cands option \<Rightarrow> bat option" where
  "BATcalclt = BATcalcop LT TYPE_bit"

definition BATcalcltcst :: "bat \<Rightarrow> tpe \<Rightarrow> int \<Rightarrow> cands option \<Rightarrow> bat option" where
  "BATcalcltcst = BATcalcopcst LT TYPE_bit"

definition BATcalccstlt :: "tpe \<Rightarrow> int \<Rightarrow> bat \<Rightarrow> cands option \<Rightarrow> bat option" where
  "BATcalccstlt = BATcalccstop LT TYPE_bit"

definition VARcalclt :: "tpe \<Rightarrow> int \<Rightarrow> tpe \<Rightarrow> int \<Rightarrow> (tpe \<times> int) option" where
  "VARcalclt = VARcalcop LT TYPE_bit"

definition BATcalcgt :: "bat \<Rightarrow> bat \<Rightarrow> cands option \<Rightarrow> bat option" where
  "BATcalcgt = BATcalcop GT TYPE_bit"

definition BATcalcgtcst :: "bat \<Rightarrow> tpe \<Rightarrow> int \<Rightarrow> cands option \<Rightarrow> bat option" where
  "BATcalcgtcst = BATcalcopcst GT TYPE_bit"

definition BATcalccstgt :: "tpe \<Rightarrow> int \<Rightarrow> bat \<Rightarrow> cands option \<Rightarrow> bat option" where
  "BATcalccstgt = BATcalccstop GT TYPE_bit"

definition VARcalcgt :: "tpe \<Rightarrow> int \<Rightarrow> tpe \<Rightarrow> int \<Rightarrow> (tpe \<times> int) option" where
  "VARcalcgt = VARcalcop GT TYPE_bit"

definition BATcalcle :: "bat \<Rightarrow> bat \<Rightarrow> cands option \<Rightarrow> bat option" where
  "BATcalcle = BATcalcop LE TYPE_bit"

definition BATcalclecst :: "bat \<Rightarrow> tpe \<Rightarrow> int \<Rightarrow> cands option \<Rightarrow> bat option" where
  "BATcalclecst = BATcalcopcst LE TYPE_bit"

definition BATcalccstle :: "tpe \<Rightarrow> int \<Rightarrow> bat \<Rightarrow> cands option \<Rightarrow> bat option" where
  "BATcalccstle = BATcalccstop LE TYPE_bit"

definition VARcalcle :: "tpe \<Rightarrow> int \<Rightarrow> tpe \<Rightarrow> int \<Rightarrow> (tpe \<times> int) option" where
  "VARcalcle = VARcalcop LE TYPE_bit"

definition BATcalcge :: "bat \<Rightarrow> bat \<Rightarrow> cands option \<Rightarrow> bat option" where
  "BATcalcge = BATcalcop GE TYPE_bit"

definition BATcalcgecst :: "bat \<Rightarrow> tpe \<Rightarrow> int \<Rightarrow> cands option \<Rightarrow> bat option" where
  "BATcalcgecst = BATcalcopcst GE TYPE_bit"

definition BATcalccstge :: "tpe \<Rightarrow> int \<Rightarrow> bat \<Rightarrow> cands option \<Rightarrow> bat option" where
  "BATcalccstge = BATcalccstop GE TYPE_bit"

definition VARcalcge :: "tpe \<Rightarrow> int \<Rightarrow> tpe \<Rightarrow> int \<Rightarrow> (tpe \<times> int) option" where
  "VARcalcge = VARcalcop GE TYPE_bit"

definition BATcalceq :: "bat \<Rightarrow> bat \<Rightarrow> cands option \<Rightarrow> bat option" where
  "BATcalceq = BATcalcop EQ TYPE_bit"

definition BATcalceqcst :: "bat \<Rightarrow> tpe \<Rightarrow> int \<Rightarrow> cands option \<Rightarrow> bat option" where
  "BATcalceqcst = BATcalcopcst EQ TYPE_bit"

definition BATcalccsteq :: "tpe \<Rightarrow> int \<Rightarrow> bat \<Rightarrow> cands option \<Rightarrow> bat option" where
  "BATcalccsteq = BATcalccstop EQ TYPE_bit"

definition VARcalceq :: "tpe \<Rightarrow> int \<Rightarrow> tpe \<Rightarrow> int \<Rightarrow> (tpe \<times> int) option" where
  "VARcalceq = VARcalcop EQ TYPE_bit"

definition BATcalcne :: "bat \<Rightarrow> bat \<Rightarrow> cands option \<Rightarrow> bat option" where
  "BATcalcne = BATcalcop NE TYPE_bit"

definition BATcalcnecst :: "bat \<Rightarrow> tpe \<Rightarrow> int \<Rightarrow> cands option \<Rightarrow> bat option" where
  "BATcalcnecst = BATcalcopcst NE TYPE_bit"

definition BATcalccstne :: "tpe \<Rightarrow> int \<Rightarrow> bat \<Rightarrow> cands option \<Rightarrow> bat option" where
  "BATcalccstne = BATcalccstop NE TYPE_bit"

definition VARcalcne :: "tpe \<Rightarrow> int \<Rightarrow> tpe \<Rightarrow> int \<Rightarrow> (tpe \<times> int) option" where
  "VARcalcne = VARcalcop NE TYPE_bit"

definition BATcalccmp :: "bat \<Rightarrow> bat \<Rightarrow> cands option \<Rightarrow> bat option" where
  "BATcalccmp = BATcalcop CMP_bte TYPE_bte"

definition BATcalccmpcst :: "bat \<Rightarrow> tpe \<Rightarrow> int \<Rightarrow> cands option \<Rightarrow> bat option" where
  "BATcalccmpcst = BATcalcopcst CMP_bte TYPE_bte"

definition BATcalccstcmp :: "tpe \<Rightarrow> int \<Rightarrow> bat \<Rightarrow> cands option \<Rightarrow> bat option" where
  "BATcalccstcmp = BATcalccstop CMP_bte TYPE_bte"

definition VARcalccmp :: "tpe \<Rightarrow> int \<Rightarrow> tpe \<Rightarrow> int \<Rightarrow> (tpe \<times> int) option" where
  "VARcalccmp = VARcalcop CMP_bte TYPE_bte"

subsection \<open>The contract of an operator\<close>

definition comparable :: "tpe \<Rightarrow> tpe \<Rightarrow> bool" where
  "comparable tp1 tp2 \<longleftrightarrow> tp1 \<noteq> TYPE_other \<and> tp2 \<noteq> TYPE_other \<and> (tp1 = TYPE_bit \<longleftrightarrow> tp2 = TYPE_bit)"

lemma op_switch_eq:
  "op_typeswitchloop OP lft tp1 i rgt tp2 j ci off nonil =
    (if comparable tp1 tp2 then func_loop nonil (width tp1) (width tp2) 8 OP lft i rgt j ci off else None)"
  by (cases tp1; cases tp2) (simp_all add: op_typeswitchloop_def comparable_def op_bte_def op_sht_def op_int_def op_lng_def)

lemma nonil_bat: "BATassertProps b \<Longrightarrow> tnonil b \<Longrightarrow> nil_of (ttype b) \<notin> set (tvals b)"
  by (simp add: BATassertProps_iff)

locale compare_op =
  fixes OP :: "int \<Rightarrow> int \<Rightarrow> int" and TPE :: tpe
  assumes TPE: "width TPE = 8" and OP_type: "in_type TPE (OP a b)" and OP_nonil: "OP a b \<noteq> nil_of TPE"
begin

definition row :: "tpe \<Rightarrow> tpe \<Rightarrow> int \<Rightarrow> int \<Rightarrow> int" where
  "row tp1 tp2 l r = (if l = nil_of tp1 \<or> r = nil_of tp2 then nil_of TPE else OP l r)"

lemma TPE_nil: "in_type TPE (nil_of TPE)"
  using TPE by (simp add: in_type_def smin_def smax_def)

lemma row_type: "in_type TPE (row tp1 tp2 l r)"
  using OP_type TPE_nil by (simp add: row_def)

lemma cell:
  assumes "k * i < length lft" "k * j < length rgt"
  shows "bin_cell (nil_of tp1) (nil_of tp2) (smin 8) (\<lambda>l r. Some (swrap 8 (OP l r), 0)) lft i rgt j k =
    Some (row tp1 tp2 (lft ! (k * i)) (rgt ! (k * j)), if row tp1 tp2 (lft ! (k * i)) (rgt ! (k * j)) = nil_of TPE then 1 else 0)"
proof -
  have "swrap 8 (OP a b) = OP a b" for a b using OP_type [of a b] TPE by (intro swrap_id) (simp_all add: in_type_def)
  then show ?thesis using assms OP_nonil TPE by (simp add: bin_cell_def fetch_def row_def)
qed

lemma intern:
  assumes o: "operand tp1 lft i cnt" "operand tp2 rgt j cnt" and cmp: "comparable tp1 tp2" and c: "cands_ok seq s" "seq + cnt < 2 ^ 63"
    and n: "nonil \<Longrightarrow> nil_of tp1 \<notin> set lft \<and> nil_of tp2 \<notin> set rgt \<and> ccand (CANDINIT seq cnt s) = None"
  shows "\<exists>c. BATcalcop_intern OP TPE lft tp1 i rgt tp2 j (CANDINIT seq cnt s) seq nonil seq = Some c \<and> BATassertProps c \<and> ttype c = TPE \<and> hseq c = seq \<and>
    tvals c = map (\<lambda>k. if is_cand s (seq + k) then row tp1 tp2 (lft ! (k * i)) (rgt ! (k * j)) else nil_of TPE) [0..<cnt]"
proof -
  have fl: "func_loop nonil (width tp1) (width tp2) 8 OP lft i rgt j (CANDINIT seq cnt s) seq =
      BINARY_3TYPE_FUNC (width tp1) (width tp2) 8 OP lft i rgt j (CANDINIT seq cnt s) seq" by (rule func_loop_eq) (rule n)
  have e: "BATcalcop_intern OP TPE lft tp1 i rgt tp2 j (CANDINIT seq cnt s) seq nonil seq = do {
      (dst, nils) \<leftarrow> cand_run (bin_cell (nil_of tp1) (nil_of tp2) (smin 8) (\<lambda>l r. Some (swrap 8 (OP l r), 0)) lft i rgt j) (nil_of TPE) seq (CANDINIT seq cnt s);
      Some (bin_result TPE seq False False (dst, nils)) }"
    unfolding BATcalcop_intern_def op_switch_eq fl BINARY_3TYPE_FUNC_def using cmp TPE by simp
  show ?thesis
    by (rule counted_column [OF c _ row_type TPE_nil e]) (use o in \<open>simp_all only: cell operand_def\<close>)
qed

lemma VARcalcop_row: "comparable lt rt \<Longrightarrow> VARcalcop OP TPE lt l rt r = Some (TPE, row lt rt l r)"
proof -
  assume cmp: "comparable lt rt"
  have "one_row = CANDINIT 0 1 None" by (simp add: one_row_def CANDINIT_def)
  then have "op_typeswitchloop OP [l] lt 0 [r] rt 0 one_row 0 False =
      cells (bin_cell (nil_of lt) (nil_of rt) (smin 8) (\<lambda>l r. Some (swrap 8 (OP l r), 0)) [l] 0 [r] 0) [0..<1]"
    using cmp cand_run_cells [of 0 None 1]
    by (simp add: op_switch_eq func_loop_def BINARY_3TYPE_FUNC_def cands_ok_def masked_def is_cand_def)
  then show ?thesis using cell [of 0 0 "[l]" 0 "[r]" lt rt] by (simp add: VARcalcop_def fetch_def)
qed

text \<open>The three forms on columns.\<close>

lemma columns:
  assumes "BATassertProps b1" "BATassertProps b2" "length (tvals b1) = length (tvals b2)" "comparable (ttype b1) (ttype b2)" "cands_ok (hseq b1) s" "bat_fits b1"
  shows "\<exists>c. BATcalcop OP TPE b1 b2 s = Some c \<and> BATassertProps c \<and> ttype c = TPE \<and> hseq c = hseq b1 \<and>
    tvals c = map (\<lambda>k. if is_cand s (hseq b1 + k) then row (ttype b1) (ttype b2) (tvals b1 ! k) (tvals b2 ! k) else nil_of TPE) [0..<length (tvals b1)]"
proof -
  have "\<not> checkbats b1 (Some b2) \<longleftrightarrow> False" using assms(3) by (simp add: checkbats_def)
  then show ?thesis
    unfolding BATcalcop_def Let_def
    by (simp only: if_False) (rule intern [OF operand_bat [OF assms(1) refl] operand_bat [OF assms(2,3)] assms(4-6), unfolded mult_1_right],
        use nonil_bat [OF assms(1)] nonil_bat [OF assms(2)] in simp)
qed

lemma columns_cst:
  assumes "BATassertProps b" "in_type vt v" "comparable (ttype b) vt" "cands_ok (hseq b) s" "bat_fits b"
  shows "\<exists>c. BATcalcopcst OP TPE b vt v s = Some c \<and> BATassertProps c \<and> ttype c = TPE \<and> hseq c = hseq b \<and>
    tvals c = map (\<lambda>k. if is_cand s (hseq b + k) then row (ttype b) vt (tvals b ! k) v else nil_of TPE) [0..<length (tvals b)]"
  unfolding BATcalcopcst_def Let_def
  by (simp only: checkbats_def option.case not_True_eq_False if_False)
    (rule intern [OF operand_bat [OF assms(1) refl] operand_cst [OF assms(2)] assms(3-5), unfolded mult_1_right mult_0_right nth_Cons_0],
      use nonil_bat [OF assms(1)] in simp)

lemma cst_columns:
  assumes "BATassertProps b" "in_type vt v" "comparable vt (ttype b)" "cands_ok (hseq b) s" "bat_fits b"
  shows "\<exists>c. BATcalccstop OP TPE vt v b s = Some c \<and> BATassertProps c \<and> ttype c = TPE \<and> hseq c = hseq b \<and>
    tvals c = map (\<lambda>k. if is_cand s (hseq b + k) then row vt (ttype b) v (tvals b ! k) else nil_of TPE) [0..<length (tvals b)]"
  unfolding BATcalccstop_def Let_def
  by (simp only: checkbats_def option.case not_True_eq_False if_False)
    (rule intern [OF operand_cst [OF assms(2)] operand_bat [OF assms(1) refl] assms(3-5), unfolded mult_1_right mult_0_right nth_Cons_0],
      use nonil_bat [OF assms(1)] in simp)

end

lemmas bit_ops = LT_def GT_def LE_def GE_def EQ_def NE_def

interpretation lt: compare_op LT TYPE_bit
  by unfold_locales (simp_all add: bit_values LT_def smin_def)

interpretation gt: compare_op GT TYPE_bit
  by unfold_locales (simp_all add: bit_values GT_def smin_def)

interpretation le: compare_op LE TYPE_bit
  by unfold_locales (simp_all add: bit_values LE_def smin_def)

interpretation ge: compare_op GE TYPE_bit
  by unfold_locales (simp_all add: bit_values GE_def smin_def)

interpretation eq: compare_op EQ TYPE_bit
  by unfold_locales (simp_all add: bit_values EQ_def smin_def)

interpretation ne: compare_op NE TYPE_bit
  by unfold_locales (simp_all add: bit_values NE_def smin_def)

interpretation cmp: compare_op CMP_bte TYPE_bte
  by unfold_locales (simp_all add: in_type_def CMP_bte_def smin_def smax_def)

subsection \<open>Properties\<close>

definition comparable_bats :: "bat \<Rightarrow> bat \<Rightarrow> cands option \<Rightarrow> bool" where
  "comparable_bats b1 b2 s \<longleftrightarrow> BATassertProps b1 \<and> BATassertProps b2 \<and> length (tvals b1) = length (tvals b2) \<and>
    comparable (ttype b1) (ttype b2) \<and> cands_ok (hseq b1) s \<and> bat_fits b1"

definition cmp_rows :: "(int \<Rightarrow> int \<Rightarrow> bool) \<Rightarrow> bat \<Rightarrow> bat \<Rightarrow> cands option \<Rightarrow> bool option list" where
  "cmp_rows rel b1 b2 s = map (\<lambda>k. if is_cand s (hseq b1 + k) \<and> tvals b1 ! k \<noteq> nil_of (ttype b1) \<and> tvals b2 ! k \<noteq> nil_of (ttype b2)
     then Some (rel (tvals b1 ! k) (tvals b2 ! k)) else None) [0..<length (tvals b1)]"

definition comparisons :: "((bat \<Rightarrow> bat \<Rightarrow> cands option \<Rightarrow> bat option) \<times> (int \<Rightarrow> int \<Rightarrow> bool)) set" where
  "comparisons = {(BATcalclt, (<)), (BATcalcgt, (>)), (BATcalcle, (\<le>)), (BATcalcge, (\<ge>)), (BATcalceq, (=)), (BATcalcne, (\<noteq>))}"

lemma tri_bool: "tri (if p then 1 else 0) = Some p" "tri (smin 8) = None"
  by (simp_all add: tri_def smin_def)

context compare_op
begin

lemma bool_columns:
  assumes "comparable_bats b1 b2 s" "TPE = TYPE_bit" "OP = (\<lambda>a b. if rel a b then 1 else 0)"
  shows "\<exists>c. BATcalcop OP TPE b1 b2 s = Some c \<and> BATassertProps c \<and> ttype c = TYPE_bit \<and> hseq c = hseq b1 \<and> map tri (tvals c) = cmp_rows rel b1 b2 s"
proof -
  have "tri (row tp1 tp2 l r) = (if l = nil_of tp1 \<or> r = nil_of tp2 then None else Some (rel l r))" for tp1 tp2 l r
    unfolding row_def by (simp add: assms(2,3) tri_bool)
  then have r: "map tri (map (\<lambda>k. if is_cand s (hseq b1 + k) then row (ttype b1) (ttype b2) (tvals b1 ! k) (tvals b2 ! k) else nil_of TPE) [0..<length (tvals b1)]) =
      cmp_rows rel b1 b2 s"
    by (simp add: cmp_rows_def assms(2) tri_bool)
  obtain c where c: "BATcalcop OP TPE b1 b2 s = Some c" "BATassertProps c" "ttype c = TPE" "hseq c = hseq b1"
    "tvals c = map (\<lambda>k. if is_cand s (hseq b1 + k) then row (ttype b1) (ttype b2) (tvals b1 ! k) (tvals b2 ! k) else nil_of TPE) [0..<length (tvals b1)]"
    using columns [of b1 b2 s] assms(1) unfolding comparable_bats_def by blast
  have "map tri (tvals c) = cmp_rows rel b1 b2 s" unfolding c(5) by (rule r)
  moreover have "ttype c = TYPE_bit" using c(3) assms(2) by simp
  ultimately show ?thesis using c(1,2,4) by (intro exI [of _ c] conjI)
qed

end

lemma comparison_columns:
  assumes "comparable_bats b1 b2 s" "(B, rel) \<in> comparisons"
  shows "\<exists>c. B b1 b2 s = Some c \<and> BATassertProps c \<and> ttype c = TYPE_bit \<and> hseq c = hseq b1 \<and> map tri (tvals c) = cmp_rows rel b1 b2 s"
proof -
  have ops: "LT = (\<lambda>a b. if a < b then 1 else 0)" "GT = (\<lambda>a b. if a > b then 1 else 0)" "LE = (\<lambda>a b. if a \<le> b then 1 else 0)"
    "GE = (\<lambda>a b. if a \<ge> b then 1 else 0)" "EQ = (\<lambda>a b. if a = b then 1 else 0)" "NE = (\<lambda>a b. if a \<noteq> b then 1 else 0)"
    by (simp_all add: bit_ops fun_eq_iff)
  note a = assms(1)
  show ?thesis
    using assms(2) lt.bool_columns [OF a refl ops(1)] gt.bool_columns [OF a refl ops(2)] le.bool_columns [OF a refl ops(3)]
      ge.bool_columns [OF a refl ops(4)] eq.bool_columns [OF a refl ops(5)] ne.bool_columns [OF a refl ops(6)]
    unfolding comparisons_def BATcalclt_def [symmetric] BATcalcgt_def [symmetric] BATcalcle_def [symmetric] BATcalcge_def [symmetric]
      BATcalceq_def [symmetric] BATcalcne_def [symmetric]
    by (elim insertE) simp_all
qed

text \<open>
  C14.  The six comparisons of columns, also of columns of different integer types, compare the values where both are there and
  give nil elsewhere; the generic comparison gives the sign of the difference.  The properties
  recorded are right.
\<close>

theorem compare_exact:
  assumes "comparable_bats b1 b2 s"
  shows "(\<forall>(B, rel) \<in> comparisons. \<exists>c. B b1 b2 s = Some c \<and> BATassertProps c \<and> map tri (tvals c) = cmp_rows rel b1 b2 s) \<and>
    (\<exists>c. BATcalccmp b1 b2 s = Some c \<and> BATassertProps c \<and>
      tvals c = map (\<lambda>k. if is_cand s (hseq b1 + k) \<and> tvals b1 ! k \<noteq> nil_of (ttype b1) \<and> tvals b2 ! k \<noteq> nil_of (ttype b2)
        then sgn (tvals b1 ! k - tvals b2 ! k) else - 128) [0..<length (tvals b1)])"
proof (intro conjI ballI, clarify)
  show "\<exists>c. B b1 b2 s = Some c \<and> BATassertProps c \<and> map tri (tvals c) = cmp_rows rel b1 b2 s" if "(B, rel) \<in> comparisons" for B rel
    using comparison_columns [OF assms that] by blast
  have "cmp.row tp1 tp2 l r = (if l \<noteq> nil_of tp1 \<and> r \<noteq> nil_of tp2 then sgn (l - r) else - 128)" for tp1 tp2 l r
    by (simp add: cmp.row_def CMP_bte_def smin_def sgn_if)
  then show "\<exists>c. BATcalccmp b1 b2 s = Some c \<and> BATassertProps c \<and>
      tvals c = map (\<lambda>k. if is_cand s (hseq b1 + k) \<and> tvals b1 ! k \<noteq> nil_of (ttype b1) \<and> tvals b2 ! k \<noteq> nil_of (ttype b2)
        then sgn (tvals b1 ! k - tvals b2 ! k) else - 128) [0..<length (tvals b1)]"
    using cmp.columns [of b1 b2 s] assms by (auto simp: comparable_bats_def BATcalccmp_def smin_def)
qed

theorem compare_exact_witness:
  "\<exists>b1 b2 s. (\<exists>c. BATcalclt b1 b2 s = Some c \<and> map tri (tvals c) = [Some True, None, Some False, None]) \<and>
    (\<exists>c. BATcalccmp b1 b2 s = Some c \<and> tvals c = [- 1, - 128, 0, - 128])"
proof -
  let ?b1 = "(BATnew TYPE_bte)\<lparr>tvals := [1, - 128, 3, 4], tsorted := False, trevsorted := False, tnonil := False\<rparr>"
  let ?b2 = "(BATnew TYPE_int)\<lparr>tvals := [1000, 2, 3, 4], tsorted := False, trevsorted := False\<rparr>"
  let ?s = "Some (Dense 0 3)"
  have a: "comparable_bats ?b1 ?b2 ?s" and m: "(BATcalclt, (<)) \<in> comparisons"
    by (simp_all add: comparable_bats_def comparable_def comparisons_def BATassertProps_iff BATnew_def in_type_def smin_def smax_def cands_ok_def)
  have r: "cmp_rows (<) ?b1 ?b2 ?s = [Some True, None, Some False, None]"
    "map (\<lambda>k. if is_cand ?s (hseq ?b1 + k) \<and> tvals ?b1 ! k \<noteq> nil_of (ttype ?b1) \<and> tvals ?b2 ! k \<noteq> nil_of (ttype ?b2)
        then sgn (tvals ?b1 ! k - tvals ?b2 ! k) else - 128) [0..<length (tvals ?b1)] = [- 1, - 128, 0, - 128]"
    by code_simp+
  note e = compare_exact [OF a, unfolded r]
  have "\<exists>c. BATcalclt ?b1 ?b2 ?s = Some c \<and> map tri (tvals c) = [Some True, None, Some False, None]"
    using bspec [OF conjunct1 [OF e] m] r(1) by auto
  with conjunct2 [OF e] show ?thesis by (intro exI [of _ ?b1] exI [of _ ?b2] exI [of _ ?s]) blast
qed

lemma complement_columns:
  assumes a: "comparable_bats b1 b2 s" and m: "(B, rel) \<in> comparisons" "(C, \<lambda>l r. \<not> rel l r) \<in> comparisons"
  shows "\<exists>c d. B b1 b2 s = Some c \<and> C b1 b2 s = Some d \<and> map_option (tvals \<circ> fst) (BATcalcnot c s) = Some (tvals d)"
proof -
  obtain c where c: "B b1 b2 s = Some c" "BATassertProps c" "ttype c = TYPE_bit" "hseq c = hseq b1" "map tri (tvals c) = cmp_rows rel b1 b2 s"
    using comparison_columns [OF a m(1)] by blast
  obtain d where d: "C b1 b2 s = Some d" "BATassertProps d" "ttype d = TYPE_bit" "map tri (tvals d) = cmp_rows (\<lambda>l r. \<not> rel l r) b1 b2 s"
    using comparison_columns [OF a m(2)] by blast
  have len: "length (tvals c) = length (tvals b1)" using arg_cong [OF c(5), of length] by (simp add: cmp_rows_def)
  obtain n n' where n: "BATcalcnot c s = Some (n, n')" "\<forall>v\<in>set (tvals n). in_type TYPE_bit v" "map tri (tvals n) = tri_not_rows c s"
    using BATcalcnot_column [OF c(2,3), of s] a c(4) len by (auto simp: comparable_bats_def)
  have "tri (tvals c ! k) = cmp_rows rel b1 b2 s ! k" if "k < length (tvals b1)" for k
    using that len arg_cong [OF c(5), of "\<lambda>xs. xs ! k"] by simp
  then have "tri_not_rows c s = cmp_rows (\<lambda>l r. \<not> rel l r) b1 b2 s"
    unfolding tri_not_rows_def cmp_rows_def [of "\<lambda>l r. \<not> rel l r"] len c(4) by (intro map_cong) (auto simp: cmp_rows_def)
  then have "tvals n = tvals d" using tri_list_inj [of "tvals n" "tvals d"] n(2,3) d(2-4) by (simp add: BATassertProps_iff)
  then show ?thesis using c(1) d(1) n(1) by simp
qed

lemma converse_columns:
  assumes a: "comparable_bats b1 b2 s" "hseq b1 = hseq b2" and m: "(B, rel) \<in> comparisons" "(C, \<lambda>l r. rel r l) \<in> comparisons"
  shows "\<exists>c d. B b1 b2 s = Some c \<and> C b2 b1 s = Some d \<and> tvals c = tvals d"
proof -
  have b: "comparable_bats b2 b1 s" using a by (auto simp: comparable_bats_def comparable_def)
  obtain c where c: "B b1 b2 s = Some c" "BATassertProps c" "ttype c = TYPE_bit" "map tri (tvals c) = cmp_rows rel b1 b2 s"
    using comparison_columns [OF a(1) m(1)] by blast
  obtain d where d: "C b2 b1 s = Some d" "BATassertProps d" "ttype d = TYPE_bit" "map tri (tvals d) = cmp_rows (\<lambda>l r. rel r l) b2 b1 s"
    using comparison_columns [OF b m(2)] by blast
  have "cmp_rows rel b1 b2 s = cmp_rows (\<lambda>l r. rel r l) b2 b1 s"
    using a by (auto simp: cmp_rows_def comparable_bats_def)
  then have "tvals c = tvals d" using tri_list_inj [of "tvals c" "tvals d"] c(2-4) d(2-4) by (simp add: BATassertProps_iff)
  then show ?thesis using c(1) d(1) by blast
qed

text \<open>
  C15.  For columns that start at the same identifier, negating a comparison gives the values of the complementary comparison,
  and exchanging the arguments of a comparison those of the converse one, nils and candidates included.
\<close>

theorem compare_laws:
  assumes a: "comparable_bats b1 b2 s" "hseq b1 = hseq b2"
  shows "(\<forall>(B, C) \<in> {(BATcalclt, BATcalcge), (BATcalcgt, BATcalcle), (BATcalceq, BATcalcne)}. \<exists>c d.
      B b1 b2 s = Some c \<and> C b1 b2 s = Some d \<and> map_option (tvals \<circ> fst) (BATcalcnot c s) = Some (tvals d)) \<and>
    (\<forall>(B, C) \<in> {(BATcalclt, BATcalcgt), (BATcalcle, BATcalcge), (BATcalceq, BATcalceq)}. \<exists>c d.
      B b1 b2 s = Some c \<and> C b2 b1 s = Some d \<and> tvals c = tvals d)"
proof -
  have m: "(BATcalclt, (<)) \<in> comparisons" "(BATcalcgt, (>)) \<in> comparisons" "(BATcalcle, (\<le>)) \<in> comparisons" "(BATcalceq, (=)) \<in> comparisons"
    by (simp_all add: comparisons_def)
  have neg: "(BATcalcge, \<lambda>l r. \<not> l < r) \<in> comparisons" "(BATcalcle, \<lambda>l r. \<not> l > r) \<in> comparisons" "(BATcalcne, \<lambda>l r. \<not> l = r) \<in> comparisons"
    unfolding not_less not_le by (simp_all add: comparisons_def)
  have e: "(\<lambda>l r. r = l) = ((=) :: int \<Rightarrow> int \<Rightarrow> bool)" by (intro ext) (rule eq_commute)
  have cv: "(BATcalcgt, \<lambda>l r. r < l) \<in> comparisons" "(BATcalcge, \<lambda>l r. r \<le> l) \<in> comparisons" "(BATcalceq, \<lambda>l r. r = l) \<in> comparisons"
    unfolding e by (simp_all add: comparisons_def)
  note cp = complement_columns [OF a(1)] and cn = converse_columns [OF a]
  note all = cp [OF m(1) neg(1)] cp [OF m(2) neg(2)] cp [OF m(4) neg(3)] cn [OF m(1) cv(1)] cn [OF m(3) cv(2)] cn [OF m(4) cv(3)]
  then show ?thesis by (simp only: ball_simps prod.case simp_thms)
qed

theorem compare_laws_witness:
  "\<exists>b1 b2 c d. BATcalclt b1 b2 None = Some c \<and> BATcalcge b1 b2 None = Some d \<and> map_option (tvals \<circ> fst) (BATcalcnot c None) = Some (tvals d) \<and>
    tvals d = [0, - 128, 1]"
proof -
  let ?b1 = "(BATnew TYPE_bte)\<lparr>tvals := [1, - 128, 3], tsorted := False, trevsorted := False, tnonil := False\<rparr>"
  let ?b2 = "(BATnew TYPE_sht)\<lparr>tvals := [300, 2, 3], tsorted := False, trevsorted := False\<rparr>"
  have a: "comparable_bats ?b1 ?b2 None" "hseq ?b1 = hseq ?b2"
    by (simp_all add: comparable_bats_def comparable_def BATassertProps_iff BATnew_def in_type_def smin_def smax_def cands_ok_def)
  have "map_option tvals (BATcalcge ?b1 ?b2 None) = Some [0, - 128, 1]" by code_simp
  moreover obtain c d where c: "BATcalclt ?b1 ?b2 None = Some c" "BATcalcge ?b1 ?b2 None = Some d" "map_option (tvals \<circ> fst) (BATcalcnot c None) = Some (tvals d)"
    using bspec [OF conjunct1 [OF compare_laws [OF a]], of "(BATcalclt, BATcalcge)"] by auto
  ultimately have "tvals d = [0, - 128, 1]" by simp
  with c show ?thesis by (intro exI [of _ ?b1] exI [of _ ?b2] exI [of _ c] exI [of _ d] conjI)
qed

lemmas forms = BATcalclt_def BATcalcltcst_def BATcalccstlt_def VARcalclt_def BATcalcgt_def BATcalcgtcst_def BATcalccstgt_def VARcalcgt_def BATcalcle_def BATcalclecst_def BATcalccstle_def VARcalcle_def BATcalcge_def BATcalcgecst_def BATcalccstge_def VARcalcge_def BATcalceq_def BATcalceqcst_def BATcalccsteq_def VARcalceq_def BATcalcne_def BATcalcnecst_def BATcalccstne_def VARcalcne_def BATcalccmp_def BATcalccmpcst_def BATcalccstcmp_def VARcalccmp_def

text \<open>
  The three column forms of each comparison agree row by row with the comparison of single values; rows that are no
  candidates are nil.
\<close>

theorem compare_matches_VAR:
  assumes op: "(B, C, R, V) \<in> {(BATcalclt, BATcalcltcst, BATcalccstlt, VARcalclt), (BATcalcgt, BATcalcgtcst, BATcalccstgt, VARcalcgt),
      (BATcalcle, BATcalclecst, BATcalccstle, VARcalcle), (BATcalcge, BATcalcgecst, BATcalccstge, VARcalcge),
      (BATcalceq, BATcalceqcst, BATcalccsteq, VARcalceq), (BATcalcne, BATcalcnecst, BATcalccstne, VARcalcne),
      (BATcalccmp, BATcalccmpcst, BATcalccstcmp, VARcalccmp)}"
    and a: "comparable_bats b1 b2 s" "in_type vt v" "comparable (ttype b1) vt" and k: "k < length (tvals b1)"
  shows "\<exists>x y z. B b1 b2 s = Some x \<and> C b1 vt v s = Some y \<and> R vt v b1 s = Some z \<and>
    (if is_cand s (hseq b1 + k) then V (ttype b1) (tvals b1 ! k) (ttype b2) (tvals b2 ! k) = Some (ttype x, tvals x ! k) \<and>
        V (ttype b1) (tvals b1 ! k) vt v = Some (ttype y, tvals y ! k) \<and> V vt v (ttype b1) (tvals b1 ! k) = Some (ttype z, tvals z ! k)
      else tvals x ! k = - 128 \<and> tvals y ! k = - 128 \<and> tvals z ! k = - 128)"
proof -
  have c: "comparable vt (ttype b1)" "comparable (ttype b1) (ttype b2)" using a by (auto simp: comparable_def comparable_bats_def)
  note p = a(1) [unfolded comparable_bats_def]
  have all: "\<exists>x y z. BATcalcop OP TPE b1 b2 s = Some x \<and> BATcalcopcst OP TPE b1 vt v s = Some y \<and> BATcalccstop OP TPE vt v b1 s = Some z \<and>
      (if is_cand s (hseq b1 + k) then VARcalcop OP TPE (ttype b1) (tvals b1 ! k) (ttype b2) (tvals b2 ! k) = Some (ttype x, tvals x ! k) \<and>
          VARcalcop OP TPE (ttype b1) (tvals b1 ! k) vt v = Some (ttype y, tvals y ! k) \<and>
          VARcalcop OP TPE vt v (ttype b1) (tvals b1 ! k) = Some (ttype z, tvals z ! k)
        else tvals x ! k = - 128 \<and> tvals y ! k = - 128 \<and> tvals z ! k = - 128)" if "compare_op OP TPE" for OP TPE
  proof -
    have w: "nil_of TPE = - 128" using compare_op.TPE [OF that] by (simp add: smin_def)
    note r = compare_op.VARcalcop_row [OF that]
    from compare_op.columns [OF that, of b1 b2 s] compare_op.columns_cst [OF that, of b1 vt v s] compare_op.cst_columns [OF that, of b1 vt v s]
    show ?thesis using p a(2,3) c k by (elim meta_impE exE conjE) (auto simp: r w)
  qed
  show ?thesis
    using op all [OF lt.compare_op_axioms] all [OF gt.compare_op_axioms] all [OF le.compare_op_axioms] all [OF ge.compare_op_axioms]
      all [OF eq.compare_op_axioms] all [OF ne.compare_op_axioms] all [OF cmp.compare_op_axioms]
    unfolding forms [symmetric] by (elim insertE emptyE Pair_inject) (hypsubst, assumption)+
qed

theorem compare_matches_VAR_witness:
  "\<exists>b1 b2 x y z. BATcalcle b1 b2 None = Some x \<and> BATcalclecst b1 TYPE_lng 5 None = Some y \<and> BATcalccstle TYPE_lng 5 b1 None = Some z \<and>
    VARcalcle TYPE_bte 3 TYPE_sht 2 = Some (ttype x, tvals x ! 1) \<and> VARcalcle TYPE_bte 3 TYPE_lng 5 = Some (ttype y, tvals y ! 1) \<and>
    VARcalcle TYPE_lng 5 TYPE_bte 3 = Some (ttype z, tvals z ! 1)"
proof -
  let ?b1 = "(BATnew TYPE_bte)\<lparr>tvals := [1, 3], trevsorted := False\<rparr>" and ?b2 = "(BATnew TYPE_sht)\<lparr>tvals := [1, 2], trevsorted := False\<rparr>"
  have a: "comparable_bats ?b1 ?b2 None" "in_type TYPE_lng 5" "comparable (ttype ?b1) TYPE_lng" "1 < length (tvals ?b1)"
    by (simp_all add: comparable_bats_def comparable_def BATassertProps_iff BATnew_def in_type_def smin_def smax_def cands_ok_def)
  have "\<exists>x y z. BATcalcle ?b1 ?b2 None = Some x \<and> BATcalclecst ?b1 TYPE_lng 5 None = Some y \<and> BATcalccstle TYPE_lng 5 ?b1 None = Some z \<and>
      VARcalcle TYPE_bte 3 TYPE_sht 2 = Some (ttype x, tvals x ! 1) \<and> VARcalcle TYPE_bte 3 TYPE_lng 5 = Some (ttype y, tvals y ! 1) \<and>
      VARcalcle TYPE_lng 5 TYPE_bte 3 = Some (ttype z, tvals z ! 1)"
    using compare_matches_VAR [OF _ a, of BATcalcle BATcalclecst BATcalccstle VARcalcle] by (simp add: is_cand_def)
  then show ?thesis by (rule exI [of _ ?b1, OF exI [of _ ?b2]])
qed

end
