(* ===== verification/Gdk_Calc_Between.thy ===== *)
theory Gdk_Calc_Between
  imports Gdk_Calc_Compare
begin

text \<open>
  The test whether the values of a column lie between two bounds (\<^verbatim>\<open>gdk/gdk_calc.c\<close>), each bound being a
  column or a value.  For the types \<^verbatim>\<open>bte\<close>, \<^verbatim>\<open>sht\<close>, \<^verbatim>\<open>int\<close> and \<^verbatim>\<open>lng\<close> there is a loop for each type, in
  which a nil bound is no bound; \<^verbatim>\<open>bit\<close> columns go through the loop for all other types.
\<close>

subsection \<open>The loops\<close>

definition BETWEEN :: "nat \<Rightarrow> int \<Rightarrow> int \<Rightarrow> int \<Rightarrow> int \<times> nat" where
  "BETWEEN w v lo hi =
    (if v = smin w \<or> (lo = smin w \<and> hi = smin w) then (smin 8, 1)
     else (if (lo = smin w \<or> v \<ge> lo) \<and> (hi = smin w \<or> v \<le> hi) then 1 else 0, 0))"

definition BETWEEN_LOOP_TYPE :: "nat \<Rightarrow> int list \<Rightarrow> nat \<Rightarrow> int list \<Rightarrow> nat \<Rightarrow> int list \<Rightarrow> nat \<Rightarrow> canditer \<Rightarrow> nat \<Rightarrow> (int list \<times> nat) option" where
  "BETWEEN_LOOP_TYPE w src incr1 lo incr2 hi incr3 ci seqbase =
    cand_run (\<lambda>l. do {
        v \<leftarrow> fetch src (l * incr1);
        x \<leftarrow> fetch lo (l * incr2);
        y \<leftarrow> fetch hi (l * incr3);
        Some (BETWEEN w v x y)
      }) (smin 8) seqbase ci"

text \<open>
  The loop for the other types, as \<^verbatim>\<open>bit\<close> columns use it: it reads through pointers that start at the
  beginning of the columns and advance at the end of each pass that is not cut short by
  \<^verbatim>\<open>CHECKCAND\<close>.  The lists are what the pointers have before them.
\<close>

definition between_cell :: "int list \<Rightarrow> int list \<Rightarrow> int list \<Rightarrow> cell" where
  "between_cell src lo hi = do {
     p1 \<leftarrow> fetch src 0;
     p2 \<leftarrow> fetch lo 0;
     p3 \<leftarrow> fetch hi 0;
     if simple_CMP p1 (smin 8) = 0 \<or> simple_CMP p2 (smin 8) = 0 \<or> simple_CMP p3 (smin 8) = 0 then Some (smin 8, 1)
     else Some (if simple_CMP p1 p2 \<ge> 0 \<and> simple_CMP p1 p3 \<le> 0 then 1 else 0, 0)
   }"

function between_any :: "int list \<Rightarrow> nat \<Rightarrow> int list \<Rightarrow> nat \<Rightarrow> int list \<Rightarrow> nat \<Rightarrow> nat \<Rightarrow> nat \<Rightarrow> nat \<Rightarrow> nat list option \<Rightarrow> (int list \<times> nat) option" where
  "between_any src incr1 lo incr2 hi incr3 seqbase l e cand =
    (if l < e then
       (case cand of
          None \<Rightarrow> do {
            (v, n) \<leftarrow> between_cell src lo hi;
            (vs, m) \<leftarrow> between_any (drop incr1 src) incr1 (drop incr2 lo) incr2 (drop incr3 hi) incr3 seqbase (l + 1) e None;
            Some (v # vs, n + m)
          }
        | Some [] \<Rightarrow> None
        | Some (c # cs) \<Rightarrow>
            if l < usub c seqbase then do {
              (vs, m) \<leftarrow> between_any src incr1 lo incr2 hi incr3 seqbase (l + 1) e cand;
              Some (smin 8 # vs, 1 + m)
            } else do {
              (v, n) \<leftarrow> between_cell src lo hi;
              (vs, m) \<leftarrow> between_any (drop incr1 src) incr1 (drop incr2 lo) incr2 (drop incr3 hi) incr3 seqbase
                (l + 1) (if cs = [] then l + 1 else e) (Some cs);
              Some (v # vs, n + m)
            })
     else Some ([], 0))"
  by pat_completeness auto
termination
  by (relation "measure (\<lambda>(src, i, lo, j, hi, h, seqbase, l, e, cand). e - l)") auto

declare between_any.simps [simp del]

definition between_bit :: "int list \<Rightarrow> nat \<Rightarrow> int list \<Rightarrow> nat \<Rightarrow> int list \<Rightarrow> nat \<Rightarrow> canditer \<Rightarrow> nat \<Rightarrow> (int list \<times> nat) option" where
  "between_bit src incr1 lo incr2 hi incr3 ci seqbase = do {
     (vs, nils) \<leftarrow> between_any src incr1 lo incr2 hi incr3 seqbase (cstart ci) (cend ci) (ccand ci);
     let e = cstart ci + length vs;
     Some (replicate (cstart ci) (smin 8) @ vs @ replicate (ccnt ci - e) (smin 8), cstart ci + nils + (ccnt ci - e))
   }"

subsection \<open>The operators\<close>

definition BATcalcbetween_intern :: "int list \<Rightarrow> nat \<Rightarrow> int list \<Rightarrow> nat \<Rightarrow> int list \<Rightarrow> nat \<Rightarrow> tpe \<Rightarrow> canditer \<Rightarrow> nat \<Rightarrow> bat option" where
  "BATcalcbetween_intern src incr1 lo incr2 hi incr3 tp ci seqbase = do {
     (dst, nils) \<leftarrow>
       (case tp of
          TYPE_bte \<Rightarrow> BETWEEN_LOOP_TYPE 8 src incr1 lo incr2 hi incr3 ci seqbase
        | TYPE_sht \<Rightarrow> BETWEEN_LOOP_TYPE 16 src incr1 lo incr2 hi incr3 ci seqbase
        | TYPE_int \<Rightarrow> BETWEEN_LOOP_TYPE 32 src incr1 lo incr2 hi incr3 ci seqbase
        | TYPE_lng \<Rightarrow> BETWEEN_LOOP_TYPE 64 src incr1 lo incr2 hi incr3 ci seqbase
        | TYPE_bit \<Rightarrow> between_bit src incr1 lo incr2 hi incr3 ci seqbase
        | TYPE_other \<Rightarrow> None);
     Some (bin_result TYPE_bit seqbase False False (dst, nils))
   }"

text \<open>
  The type of a column that is a bound is not checked: its values are read as values of the type of
  the column that is tested, which is \<^const>\<open>None\<close> here when they are stored differently.
\<close>

definition read_as :: "tpe \<Rightarrow> bat \<Rightarrow> int list option" where
  "read_as t b = (if ATOMstorage (ttype b) = ATOMstorage t then Some (tvals b) else None)"

definition BATcalcbetween :: "bat \<Rightarrow> bat \<Rightarrow> bat \<Rightarrow> cands option \<Rightarrow> bat option" where
  "BATcalcbetween b lo hi s =
    (if \<not> checkbats b (Some lo) then None
     else if \<not> checkbats b (Some hi) then None
     else do {
       l \<leftarrow> read_as (ttype b) lo;
       h \<leftarrow> read_as (ttype b) hi;
       BATcalcbetween_intern (tvals b) 1 l 1 h 1 (ttype b) (candinit b s) (hseq b)
     })"

definition BATcalcbetweencstcst :: "bat \<Rightarrow> tpe \<Rightarrow> int \<Rightarrow> tpe \<Rightarrow> int \<Rightarrow> cands option \<Rightarrow> bat option" where
  "BATcalcbetweencstcst b lt lo ht hi s =
    (if \<not> checkbats b None then None
     else if ATOMstorage (ttype b) \<noteq> ATOMstorage lt \<or> ATOMstorage (ttype b) \<noteq> ATOMstorage ht then None
     else BATcalcbetween_intern (tvals b) 1 [lo] 0 [hi] 0 (ttype b) (candinit b s) (hseq b))"

definition BATcalcbetweenbatcst :: "bat \<Rightarrow> bat \<Rightarrow> tpe \<Rightarrow> int \<Rightarrow> cands option \<Rightarrow> bat option" where
  "BATcalcbetweenbatcst b lo ht hi s =
    (if \<not> checkbats b (Some lo) then None
     else if ATOMstorage (ttype b) \<noteq> ATOMstorage ht then None
     else do {
       l \<leftarrow> read_as (ttype b) lo;
       BATcalcbetween_intern (tvals b) 1 l 1 [hi] 0 (ttype b) (candinit b s) (hseq b)
     })"

definition BATcalcbetweencstbat :: "bat \<Rightarrow> tpe \<Rightarrow> int \<Rightarrow> bat \<Rightarrow> cands option \<Rightarrow> bat option" where
  "BATcalcbetweencstbat b lt lo hi s =
    (if \<not> checkbats b (Some hi) then None
     else if ATOMstorage (ttype b) \<noteq> ATOMstorage lt then None
     else do {
       h \<leftarrow> read_as (ttype b) hi;
       BATcalcbetween_intern (tvals b) 1 [lo] 0 h 1 (ttype b) (candinit b s) (hseq b)
     })"

definition VARcalcbetween :: "tpe \<Rightarrow> int \<Rightarrow> tpe \<Rightarrow> int \<Rightarrow> tpe \<Rightarrow> int \<Rightarrow> (tpe \<times> int) option" where
  "VARcalcbetween vt v lt lo ht hi =
    (if ATOMstorage vt \<noteq> ATOMstorage lt \<or> ATOMstorage vt \<noteq> ATOMstorage ht then None
     else
       (case ATOMstorage vt of
          TYPE_bte \<Rightarrow> Some (TYPE_bit, fst (BETWEEN 8 v lo hi))
        | TYPE_sht \<Rightarrow> Some (TYPE_bit, fst (BETWEEN 16 v lo hi))
        | TYPE_int \<Rightarrow> Some (TYPE_bit, fst (BETWEEN 32 v lo hi))
        | TYPE_lng \<Rightarrow> Some (TYPE_bit, fst (BETWEEN 64 v lo hi))
        | _ \<Rightarrow> None))"

subsection \<open>Rows\<close>

definition open_between :: "tpe \<Rightarrow> int \<Rightarrow> int \<Rightarrow> int \<Rightarrow> bool option" where
  "open_between t v lo hi =
    (if v = nil_of t \<or> lo = nil_of t \<and> hi = nil_of t then None
     else Some ((lo = nil_of t \<or> lo \<le> v) \<and> (hi = nil_of t \<or> v \<le> hi)))"

lemma BETWEEN_tri: "tri (fst (BETWEEN (width t) v lo hi)) = open_between t v lo hi"
  by (auto simp: BETWEEN_def open_between_def tri_bool)

lemma BETWEEN_cell: "BETWEEN w v lo hi = (fst (BETWEEN w v lo hi), if fst (BETWEEN w v lo hi) = nil_of TYPE_bit then 1 else 0)"
  by (auto simp: BETWEEN_def smin_def)

lemma BETWEEN_type: "in_type TYPE_bit (fst (BETWEEN w v lo hi))"
  by (simp add: BETWEEN_def bit_values smin_def)

lemma between_intern:
  assumes o: "operand t src i cnt" "operand t lo j cnt" "operand t hi h cnt" and t: "t \<noteq> TYPE_bit" "t \<noteq> TYPE_other"
    and c: "cands_ok seq s" "seq + cnt < 2 ^ 63"
  shows "\<exists>c. BATcalcbetween_intern src i lo j hi h t (CANDINIT seq cnt s) seq = Some c \<and> BATassertProps c \<and> ttype c = TYPE_bit \<and> hseq c = seq \<and>
    tvals c = map (\<lambda>k. if is_cand s (seq + k) then fst (BETWEEN (width t) (src ! (k * i)) (lo ! (k * j)) (hi ! (k * h))) else nil_of TYPE_bit) [0..<cnt]"
proof (rule counted_column [OF c _ BETWEEN_type bit_nil])
  show "BATcalcbetween_intern src i lo j hi h t (CANDINIT seq cnt s) seq = do {
      (dst, nils) \<leftarrow> cand_run (\<lambda>l. do { v \<leftarrow> fetch src (l * i); x \<leftarrow> fetch lo (l * j); y \<leftarrow> fetch hi (l * h); Some (BETWEEN (width t) v x y) })
        (nil_of TYPE_bit) seq (CANDINIT seq cnt s);
      Some (bin_result TYPE_bit seq False False (dst, nils)) }"
    using t by (cases t) (simp_all add: BATcalcbetween_intern_def BETWEEN_LOOP_TYPE_def)
  fix k assume "k < cnt"
  then have "do { v \<leftarrow> fetch src (k * i); x \<leftarrow> fetch lo (k * j); y \<leftarrow> fetch hi (k * h); Some (BETWEEN (width t) v x y) } =
      Some (BETWEEN (width t) (src ! (k * i)) (lo ! (k * j)) (hi ! (k * h)))"
    using o by (simp add: operand_def fetch_def)
  then show "do { v \<leftarrow> fetch src (k * i); x \<leftarrow> fetch lo (k * j); y \<leftarrow> fetch hi (k * h); Some (BETWEEN (width t) v x y) } =
      Some (fst (BETWEEN (width t) (src ! (k * i)) (lo ! (k * j)) (hi ! (k * h))),
        if fst (BETWEEN (width t) (src ! (k * i)) (lo ! (k * j)) (hi ! (k * h))) = nil_of TYPE_bit then 1 else 0)"
    using BETWEEN_cell by metis
qed

definition betweenable :: "bat \<Rightarrow> bat \<Rightarrow> bat \<Rightarrow> cands option \<Rightarrow> bool" where
  "betweenable b lo hi s \<longleftrightarrow> BATassertProps b \<and> BATassertProps lo \<and> BATassertProps hi \<and>
    length (tvals lo) = length (tvals b) \<and> length (tvals hi) = length (tvals b) \<and>
    ttype lo = ttype b \<and> ttype hi = ttype b \<and> ttype b \<notin> {TYPE_bit, TYPE_other} \<and> cands_ok (hseq b) s \<and> bat_fits b"

lemma between_columns:
  assumes "betweenable b lo hi s"
  shows "\<exists>c. BATcalcbetween b lo hi s = Some c \<and> BATassertProps c \<and> ttype c = TYPE_bit \<and> hseq c = hseq b \<and>
    tvals c = map (\<lambda>k. if is_cand s (hseq b + k) then fst (BETWEEN (width (ttype b)) (tvals b ! k) (tvals lo ! k) (tvals hi ! k)) else nil_of TYPE_bit)
      [0..<length (tvals b)]"
proof -
  have c: "checkbats b (Some lo)" "checkbats b (Some hi)" "read_as (ttype b) lo = Some (tvals lo)" "read_as (ttype b) hi = Some (tvals hi)"
    and t: "ttype b \<noteq> TYPE_bit" "ttype b \<noteq> TYPE_other" and cs: "cands_ok (hseq b) s" "bat_fits b"
    using assms by (simp_all add: betweenable_def checkbats_def read_as_def)
  have o: "operand (ttype b) (tvals b) 1 (length (tvals b))" "operand (ttype b) (tvals lo) 1 (length (tvals b))" "operand (ttype b) (tvals hi) 1 (length (tvals b))"
    using operand_bat [of b "length (tvals b)"] operand_bat [of lo "length (tvals b)"] operand_bat [of hi "length (tvals b)"] assms
    unfolding betweenable_def by (metis, metis, metis)
  have "BATcalcbetween b lo hi s = BATcalcbetween_intern (tvals b) 1 (tvals lo) 1 (tvals hi) 1 (ttype b) (candinit b s) (hseq b)"
    by (simp add: BATcalcbetween_def c)
  then show ?thesis using between_intern [OF o t cs] by (simp only: mult_1_right)
qed

text \<open>
  The test for lying between two columns of bounds gives at every candidate whether the value is not below the lower and not
  above the upper bound, a nil bound being no bound; a nil value or two nil bounds give nil.  The
  properties recorded are right.
\<close>

theorem between_exact:
  assumes "betweenable b lo hi s"
  shows "\<exists>c. BATcalcbetween b lo hi s = Some c \<and> BATassertProps c \<and>
    map tri (tvals c) = map (\<lambda>k. if is_cand s (hseq b + k) then open_between (ttype b) (tvals b ! k) (tvals lo ! k) (tvals hi ! k) else None) [0..<length (tvals b)]"
proof -
  have "tri (if p then fst (BETWEEN (width t) v x y) else nil_of TYPE_bit) = (if p then open_between t v x y else None)" for p t v x y
    by (simp add: BETWEEN_tri tri_bool)
  then show ?thesis using between_columns [OF assms] by (auto simp del: width.simps)
qed

theorem between_exact_witness:
  "\<exists>b lo hi c. BATcalcbetween b lo hi None = Some c \<and> map tri (tvals c) = [Some True, Some False, Some True, None]"
proof -
  let ?b = "(BATnew TYPE_int)\<lparr>tvals := [5, 5, 5, 5], trevsorted := False\<rparr>"
  let ?lo = "(BATnew TYPE_int)\<lparr>tvals := [1, 6, - 2147483648, - 2147483648], tsorted := False, trevsorted := False, tnonil := False\<rparr>"
  let ?hi = "(BATnew TYPE_int)\<lparr>tvals := [5, 9, 9, - 2147483648], tsorted := False, trevsorted := False, tnonil := False\<rparr>"
  have a: "betweenable ?b ?lo ?hi None"
    by (simp add: betweenable_def BATassertProps_iff BATnew_def in_type_def smin_def smax_def cands_ok_def)
  have "map (\<lambda>k. if is_cand None (hseq ?b + k) then open_between (ttype ?b) (tvals ?b ! k) (tvals ?lo ! k) (tvals ?hi ! k) else None) [0..<length (tvals ?b)] =
      [Some True, Some False, Some True, None]"
    by code_simp
  with between_exact [OF a] have "\<exists>c. BATcalcbetween ?b ?lo ?hi None = Some c \<and> map tri (tvals c) = [Some True, Some False, Some True, None]"
    by (elim exE conjE) (intro exI conjI, simp_all only:)
  then show ?thesis by (rule exI [of _ ?b, OF exI [of _ ?lo, OF exI [of _ ?hi]]])
qed

text \<open>
  C17.  On integer columns of one type, \<^verbatim>\<open>bit\<close> excluded, and with bounds that are not nil the test has the values of the and of the
  comparisons with the two bounds.
\<close>

theorem between_is_and:
  assumes a: "betweenable b lo hi s" "nil_of (ttype b) \<notin> set (tvals lo)" "nil_of (ttype b) \<notin> set (tvals hi)"
  shows "\<exists>c g l d. BATcalcbetween b lo hi s = Some c \<and> BATcalcge b lo s = Some g \<and> BATcalcle b hi s = Some l \<and>
    BATcalcand g l s = Some d \<and> tvals c = tvals d"
proof -
  have cm: "comparable_bats b lo s" "comparable_bats b hi s" and m: "(BATcalcge, (\<ge>)) \<in> comparisons" "(BATcalcle, (\<le>)) \<in> comparisons"
    using a(1) by (simp_all add: betweenable_def comparable_bats_def comparable_def comparisons_def)
  obtain c where c: "BATcalcbetween b lo hi s = Some c" "BATassertProps c" "ttype c = TYPE_bit"
    "tvals c = map (\<lambda>k. if is_cand s (hseq b + k) then fst (BETWEEN (width (ttype b)) (tvals b ! k) (tvals lo ! k) (tvals hi ! k)) else nil_of TYPE_bit) [0..<length (tvals b)]"
    using between_columns [OF a(1)] by blast
  obtain g where g: "BATcalcge b lo s = Some g" "BATassertProps g" "ttype g = TYPE_bit" "hseq g = hseq b" "map tri (tvals g) = cmp_rows (\<ge>) b lo s"
    using comparison_columns [OF cm(1) m(1)] by blast
  obtain l where l: "BATcalcle b hi s = Some l" "BATassertProps l" "ttype l = TYPE_bit" "map tri (tvals l) = cmp_rows (\<le>) b hi s"
    using comparison_columns [OF cm(2) m(2)] by blast
  have lens: "length (tvals lo) = length (tvals b)" "length (tvals hi) = length (tvals b)" using a(1) by (simp_all add: betweenable_def)
  have len: "length (tvals g) = length (tvals b)" "length (tvals l) = length (tvals b)"
    using arg_cong [OF g(5), of length] arg_cong [OF l(4), of length] by (simp_all add: cmp_rows_def)
  have "bit_columns g l s" using a(1) g(2-4) l(2,3) len by (simp add: bit_columns_def BATassertProps_iff betweenable_def)
  then obtain d where d: "BATcalcand g l s = Some d" "BATassertProps d" "ttype d = TYPE_bit" "map tri (tvals d) = tri_rows tri_and g l s"
    using or_and_columns(2) by blast
  have gl: "tri (tvals g ! k) = cmp_rows (\<ge>) b lo s ! k" "tri (tvals l ! k) = cmp_rows (\<le>) b hi s ! k" if "k < length (tvals b)" for k
    using that len arg_cong [OF g(5), of "\<lambda>xs. xs ! k"] arg_cong [OF l(4), of "\<lambda>xs. xs ! k"] by simp_all
  have "map tri (tvals c) ! k = tri_rows tri_and g l s ! k" if k: "k < length (tvals b)" for k
  proof -
    have n: "tvals lo ! k \<noteq> nil_of (ttype b)" "tvals hi ! k \<noteq> nil_of (ttype b)"
      using a(2,3) nth_mem [of k "tvals lo"] nth_mem [of k "tvals hi"] lens k by (metis, metis)
    have "map tri (tvals c) ! k = (if is_cand s (hseq b + k) then open_between (ttype b) (tvals b ! k) (tvals lo ! k) (tvals hi ! k) else None)"
      using k by (simp add: c(4) BETWEEN_tri tri_bool)
    moreover have "tri_rows tri_and g l s ! k = (if is_cand s (hseq b + k) then tri_and (cmp_rows (\<ge>) b lo s ! k) (cmp_rows (\<le>) b hi s ! k) else None)"
      using k by (simp add: tri_rows_def len g(4) gl)
    ultimately show ?thesis
      using k n a(1) by (cases "tvals lo ! k \<le> tvals b ! k"; cases "tvals b ! k \<le> tvals hi ! k") (simp_all add: cmp_rows_def open_between_def betweenable_def)
  qed
  then have "map tri (tvals c) = tri_rows tri_and g l s" by (intro nth_equalityI) (simp_all add: c(4) tri_rows_def len)
  then have "tvals c = tvals d" using tri_list_inj [of "tvals c" "tvals d"] c(2,3) d(2-4) by (simp add: BATassertProps_iff)
  with c(1) g(1) l(1) d(1) show ?thesis by blast
qed

theorem between_is_and_witness:
  "\<exists>b lo hi c g l d. BATcalcbetween b lo hi None = Some c \<and> BATcalcge b lo None = Some g \<and> BATcalcle b hi None = Some l \<and>
    BATcalcand g l None = Some d \<and> tvals c = tvals d \<and> tvals c = [1, 0, - 128]"
proof -
  let ?b = "(BATnew TYPE_sht)\<lparr>tvals := [5, 500, - 32768], tsorted := False, trevsorted := False, tnonil := False\<rparr>"
  let ?lo = "(BATnew TYPE_sht)\<lparr>tvals := [1, 6, 1], tsorted := False, trevsorted := False\<rparr>"
  let ?hi = "(BATnew TYPE_sht)\<lparr>tvals := [5, 9, 9], trevsorted := False\<rparr>"
  have a: "betweenable ?b ?lo ?hi None" "nil_of (ttype ?b) \<notin> set (tvals ?lo)" "nil_of (ttype ?b) \<notin> set (tvals ?hi)"
    by (simp_all add: betweenable_def BATassertProps_iff BATnew_def in_type_def smin_def smax_def cands_ok_def)
  have "map_option tvals (BATcalcbetween ?b ?lo ?hi None) = Some [1, 0, - 128]" by code_simp
  with between_is_and [OF a] show ?thesis by (elim exE conjE) (intro exI conjI, assumption+, simp)
qed

text \<open>
  The four column forms of the test agree row by row with the test on single values.
\<close>

theorem between_matches_VAR:
  assumes a: "betweenable b lo hi s" "in_type (ttype b) x" "in_type (ttype b) y" and k: "k < length (tvals b)"
  shows "\<exists>c d e f. BATcalcbetween b lo hi s = Some c \<and> BATcalcbetweencstcst b (ttype b) x (ttype b) y s = Some d \<and>
    BATcalcbetweenbatcst b lo (ttype b) y s = Some e \<and> BATcalcbetweencstbat b (ttype b) x hi s = Some f \<and>
    (if is_cand s (hseq b + k)
     then VARcalcbetween (ttype b) (tvals b ! k) (ttype lo) (tvals lo ! k) (ttype hi) (tvals hi ! k) = Some (TYPE_bit, tvals c ! k) \<and>
       VARcalcbetween (ttype b) (tvals b ! k) (ttype b) x (ttype b) y = Some (TYPE_bit, tvals d ! k) \<and>
       VARcalcbetween (ttype b) (tvals b ! k) (ttype lo) (tvals lo ! k) (ttype b) y = Some (TYPE_bit, tvals e ! k) \<and>
       VARcalcbetween (ttype b) (tvals b ! k) (ttype b) x (ttype hi) (tvals hi ! k) = Some (TYPE_bit, tvals f ! k)
     else tvals c ! k = - 128 \<and> tvals d ! k = - 128 \<and> tvals e ! k = - 128 \<and> tvals f ! k = - 128)"
proof -
  have c: "checkbats b (Some lo)" "checkbats b (Some hi)" "checkbats b None" "read_as (ttype b) lo = Some (tvals lo)" "read_as (ttype b) hi = Some (tvals hi)"
    and t: "ttype b \<noteq> TYPE_bit" "ttype b \<noteq> TYPE_other" "ttype lo = ttype b" "ttype hi = ttype b" and cs: "cands_ok (hseq b) s" "bat_fits b"
    using a(1) by (simp_all add: betweenable_def checkbats_def read_as_def)
  have o: "operand (ttype b) (tvals b) 1 (length (tvals b))" "operand (ttype b) (tvals lo) 1 (length (tvals b))" "operand (ttype b) (tvals hi) 1 (length (tvals b))"
    using operand_bat [of b "length (tvals b)"] operand_bat [of lo "length (tvals b)"] operand_bat [of hi "length (tvals b)"] a(1)
    unfolding betweenable_def by (metis, metis, metis)
  note x = operand_cst [OF a(2)] and y = operand_cst [OF a(3)]
  have V: "VARcalcbetween (ttype b) v (ttype b) l (ttype b) h = Some (TYPE_bit, fst (BETWEEN (width (ttype b)) v l h))" for v l h
    using t(1,2) by (cases "ttype b") (simp_all add: VARcalcbetween_def ATOMstorage_def)
  have e: "BATcalcbetween b lo hi s = BATcalcbetween_intern (tvals b) 1 (tvals lo) 1 (tvals hi) 1 (ttype b) (candinit b s) (hseq b)"
    "BATcalcbetweencstcst b (ttype b) x (ttype b) y s = BATcalcbetween_intern (tvals b) 1 [x] 0 [y] 0 (ttype b) (candinit b s) (hseq b)"
    "BATcalcbetweenbatcst b lo (ttype b) y s = BATcalcbetween_intern (tvals b) 1 (tvals lo) 1 [y] 0 (ttype b) (candinit b s) (hseq b)"
    "BATcalcbetweencstbat b (ttype b) x hi s = BATcalcbetween_intern (tvals b) 1 [x] 0 (tvals hi) 1 (ttype b) (candinit b s) (hseq b)"
    by (simp_all add: BATcalcbetween_def BATcalcbetweencstcst_def BATcalcbetweenbatcst_def BATcalcbetweencstbat_def c)
  show ?thesis
    unfolding e t(3,4) V
    using between_intern [OF o t(1,2) cs] between_intern [OF o(1) x y t(1,2) cs] between_intern [OF o(1,2) y t(1,2) cs] between_intern [OF o(1) x o(3) t(1,2) cs]
    by (elim exE conjE) (intro exI conjI, assumption+, use k in \<open>simp add: smin_def\<close>)
qed

theorem between_matches_VAR_witness:
  "\<exists>b lo hi c. BATcalcbetween b lo hi None = Some c \<and> VARcalcbetween TYPE_lng 5 TYPE_lng 1 TYPE_lng 4 = Some (TYPE_bit, tvals c ! 0) \<and> tvals c ! 0 = 0"
proof -
  let ?b = "(BATnew TYPE_lng)\<lparr>tvals := [5]\<rparr>" and ?lo = "(BATnew TYPE_lng)\<lparr>tvals := [1]\<rparr>" and ?hi = "(BATnew TYPE_lng)\<lparr>tvals := [4]\<rparr>"
  have a: "betweenable ?b ?lo ?hi None" "in_type (ttype ?b) 0" "in_type (ttype ?b) 9" "0 < length (tvals ?b)"
    by (simp_all add: betweenable_def BATassertProps_iff BATnew_def in_type_def smin_def smax_def cands_ok_def)
  have "is_cand None (hseq ?b + 0)" "VARcalcbetween TYPE_lng 5 TYPE_lng 1 TYPE_lng 4 = Some (TYPE_bit, 0)" by code_simp+
  with between_matches_VAR [OF a] have "\<exists>c. BATcalcbetween ?b ?lo ?hi None = Some c \<and>
      VARcalcbetween TYPE_lng 5 TYPE_lng 1 TYPE_lng 4 = Some (TYPE_bit, tvals c ! 0) \<and> tvals c ! 0 = 0" by auto
  then show ?thesis by (rule exI [of _ ?b, OF exI [of _ ?lo, OF exI [of _ ?hi]]])
qed

subsection \<open>Columns of truth values\<close>

lemma between_cell_Cons:
  "between_cell (x # xs) (y # ys) (z # zs) =
    Some (if x = - 128 \<or> y = - 128 \<or> z = - 128 then (- 128, 1) else (if y \<le> x \<and> x \<le> z then 1 else 0, 0))"
proof -
  have "simple_CMP a c = 0 \<longleftrightarrow> a = c" "simple_CMP a c \<ge> 0 \<longleftrightarrow> c \<le> a" "simple_CMP a c \<le> 0 \<longleftrightarrow> a \<le> c" for a c
    by (auto simp: simple_CMP_def)
  then show ?thesis by (simp add: between_cell_def fetch_def smin_def)
qed

lemma between_any_all:
  "between_any src i lo j hi h seq l e None =
    cells (\<lambda>k. between_cell (drop ((k - l) * i) src) (drop ((k - l) * j) lo) (drop ((k - l) * h) hi)) [l..<e]"
proof (induction "e - l" arbitrary: l src lo hi)
  case 0
  then show ?case by (simp add: between_any.simps)
next
  case (Suc m)
  then have le: "l < e" "m = e - (l + 1)" by auto
  have d: "drop ((k - (l + 1)) * i) (drop i xs) = drop ((k - l) * i) xs" if "k \<in> set [l + 1..<e]" for k i and xs :: "int list"
  proof -
    have "k - l = Suc (k - (l + 1))" using that by auto
    then show ?thesis by (simp add: add.commute)
  qed
  have "between_any (drop i src) i (drop j lo) j (drop h hi) h seq (l + 1) e None =
      cells (\<lambda>k. between_cell (drop ((k - l) * i) src) (drop ((k - l) * j) lo) (drop ((k - l) * h) hi)) [l + 1..<e]"
    unfolding Suc.hyps(1) [OF le(2)] by (rule cells_cong) (simp only: d)
  then show ?case using le(1) by (subst between_any.simps) (simp add: upt_step)
qed

text \<open>
  On a column of truth values with a dense candidate list that starts after the column's first row, the candidates are tested with the
  values from the beginning of the column, not with their own.
\<close>

theorem between_bit_shifted:
  assumes b: "ttype b = TYPE_bit" "p + n \<le> length (tvals b)" "0 < n" and s: "s = Some (Dense (hseq b + p) n)"
  shows "\<exists>c. BATcalcbetweencstcst b TYPE_bit lo TYPE_bit hi s = Some c \<and> (\<forall>m<n. tvals c ! (p + m) =
    (if tvals b ! m = - 128 \<or> lo = - 128 \<or> hi = - 128 then - 128 else if lo \<le> tvals b ! m \<and> tvals b ! m \<le> hi then 1 else 0))"
proof -
  define v where "v m = (if tvals b ! m = - 128 \<or> lo = - 128 \<or> hi = - 128 then - 128 else if lo \<le> tvals b ! m \<and> tvals b ! m \<le> hi then 1 else (0 :: int))" for m
  have ci: "candinit b s = \<lparr>cstart = p, cend = p + n, ccnt = length (tvals b), ccand = None\<rparr>"
    using b(2,3) by (auto simp: s CANDINIT_def clip_start_def clip_end_def)
  have cell: "\<exists>n. between_cell (drop ((k - p) * 1) (tvals b)) (drop ((k - p) * 0) [lo]) (drop ((k - p) * 0) [hi]) = Some (v (k - p), n)"
    if "k \<in> set [p..<p + n]" for k
  proof -
    have "k - p < length (tvals b)" using that b(2) by auto
    then show ?thesis by (simp add: Cons_nth_drop_Suc [symmetric] between_cell_Cons v_def)
  qed
  have "\<exists>nils. between_any (tvals b) 1 [lo] 0 [hi] 0 (hseq b) p (p + n) None = Some (map (\<lambda>k. v (k - p)) [p..<p + n], nils)"
    unfolding between_any_all by (rule cells_total, rule cell)
  then obtain nils where r: "between_any (tvals b) 1 [lo] 0 [hi] 0 (hseq b) p (p + n) None = Some (map (\<lambda>k. v (k - p)) [p..<p + n], nils)" by blast
  let ?dst = "replicate p (smin 8) @ map (\<lambda>k. v (k - p)) [p..<p + n] @ replicate (length (tvals b) - (p + n)) (smin 8)"
  have "between_bit (tvals b) 1 [lo] 0 [hi] 0 (candinit b s) (hseq b) = Some (?dst, p + nils + (length (tvals b) - (p + n)))"
    unfolding between_bit_def ci canditer.simps r by (simp add: Let_def)
  then have "BATcalcbetweencstcst b TYPE_bit lo TYPE_bit hi s = Some (bin_result TYPE_bit (hseq b) False False (?dst, p + nils + (length (tvals b) - (p + n))))"
    by (simp only: BATcalcbetweencstcst_def BATcalcbetween_intern_def b(1) checkbats_def option.case simp_thms if_False tpe.case) simp
  moreover have "tvals (bin_result TYPE_bit (hseq b) False False (?dst, nils')) ! (p + m) = v m" if "m < n" for m nils'
    using that by (simp add: bin_result_def Let_def nth_append)
  ultimately show ?thesis unfolding v_def by blast
qed

theorem between_bit_shifted_witness:
  "\<exists>b c. BATcalcbetweencstcst b TYPE_bit 1 TYPE_bit 1 (Some (Dense 1 1)) = Some c \<and> tvals b ! 1 = 1 \<and> tvals c ! 1 = 0"
proof -
  let ?b = "(BATnew TYPE_bit)\<lparr>tvals := [0, 1], trevsorted := False\<rparr>"
  have a: "ttype ?b = TYPE_bit" "1 + 1 \<le> length (tvals ?b)" "0 < (1 :: nat)" "Some (Dense 1 1) = Some (Dense (hseq ?b + 1) 1)"
    by (simp_all add: BATnew_def)
  obtain c where c: "BATcalcbetweencstcst ?b TYPE_bit 1 TYPE_bit 1 (Some (Dense 1 1)) = Some c"
    "\<forall>m<1. tvals c ! (1 + m) = (if tvals ?b ! m = - 128 \<or> 1 = (- 128 :: int) \<or> 1 = (- 128 :: int) then - 128 else if 1 \<le> tvals ?b ! m \<and> tvals ?b ! m \<le> 1 then 1 else 0)"
    using between_bit_shifted [OF a] by blast
  then have "tvals c ! 1 = 0" "tvals ?b ! 1 = 1" by simp_all
  with c(1) show ?thesis by (intro exI [of _ ?b] exI [of _ c]) simp
qed

end
