(* ===== verification/Gdk_Calc_Ifthen.thy ===== *)
theory Gdk_Calc_Ifthen
  imports Gdk_Calc_Compare
begin

text \<open>
  The choice between two columns or values by a column of truth values (\<^verbatim>\<open>gdk/gdk_calc.c\<close>).  Without a
  second alternative the result has no rows for false and its head lists the rows it has;
  it is given as the second component of the result.
\<close>

subsection \<open>The loop\<close>

function IFTHENELSELOOP :: "int \<Rightarrow> int list \<Rightarrow> int list \<Rightarrow> nat \<Rightarrow> int list option \<Rightarrow> nat \<Rightarrow> nat \<Rightarrow> nat \<Rightarrow> (nat list \<times> int list \<times> nat) option" where
  "IFTHENELSELOOP nil src col1 incr1 col2 incr2 off i =
    (if i < length src then
       if src ! i = smin 8 then do {
         (hd, dst, nils) \<leftarrow> IFTHENELSELOOP nil src col1 incr1 col2 incr2 off (i + 1);
         Some (if col2 = None then (i + off) # hd else hd, nil # dst, nils + 1)
       } else if src ! i \<noteq> 0 then do {
         v \<leftarrow> fetch col1 (i * incr1);
         (hd, dst, nils) \<leftarrow> IFTHENELSELOOP nil src col1 incr1 col2 incr2 off (i + 1);
         Some (if col2 = None then (i + off) # hd else hd, v # dst, nils)
       } else
         (case col2 of
            Some c2 \<Rightarrow> do {
              v \<leftarrow> fetch c2 (i * incr2);
              (hd, dst, nils) \<leftarrow> IFTHENELSELOOP nil src col1 incr1 col2 incr2 off (i + 1);
              Some (hd, v # dst, nils)
            }
          | None \<Rightarrow> IFTHENELSELOOP nil src col1 incr1 col2 incr2 off (i + 1))
     else Some ([], [], 0))"
  by pat_completeness auto
termination
  by (relation "measure (\<lambda>(nil, src, col1, incr1, col2, incr2, off, i). length src - i)") auto

declare IFTHENELSELOOP.simps [simp del]

definition BATcalcifthenelse_intern :: "bat \<Rightarrow> int list \<Rightarrow> nat \<Rightarrow> bool \<Rightarrow> int list option \<Rightarrow> nat \<Rightarrow> bool \<Rightarrow> tpe \<Rightarrow> (bat \<times> nat list option) option" where
  "BATcalcifthenelse_intern b col1 incr1 nonil1 col2 incr2 nonil2 tpe = do {
     (hd, dst, nils) \<leftarrow> IFTHENELSELOOP (nil_of tpe) (tvals b) col1 incr1 col2 incr2 (hseq b) 0;
     let cnt = length (tvals b);
     Some ((BATnew tpe)\<lparr>tvals := dst, hseq := hseq b,
         tsorted := cnt \<le> 1 \<or> nils = cnt, trevsorted := cnt \<le> 1 \<or> nils = cnt, tkey := cnt \<le> 1,
         tnil := nils \<noteq> 0, tnonil := nils = 0 \<and> nonil1 \<and> (col2 = None \<or> nonil2)\<rparr>,
       if col2 = None then Some hd else None)
   }"

subsection \<open>The operators\<close>

definition BATcalcifthenelse :: "bat \<Rightarrow> bat \<Rightarrow> bat option \<Rightarrow> (bat \<times> nat list option) option" where
  "BATcalcifthenelse b b1 b2 =
    (if \<not> checkbats b (Some b1) then None
     else if b2 \<noteq> None \<and> \<not> checkbats b b2 then None
     else if ttype b \<noteq> TYPE_bit \<or> (case b2 of None \<Rightarrow> False | Some c \<Rightarrow> ttype b1 \<noteq> ttype c) then None
     else BATcalcifthenelse_intern b (tvals b1) 1 (tnonil b1) (map_option tvals b2) (if b2 = None then 0 else 1)
       (case b2 of None \<Rightarrow> False | Some c \<Rightarrow> tnonil c) (ttype b1))"

definition BATcalcifthenelsecst :: "bat \<Rightarrow> bat \<Rightarrow> tpe \<Rightarrow> int \<Rightarrow> (bat \<times> nat list option) option" where
  "BATcalcifthenelsecst b b1 t2 c2 =
    (if \<not> checkbats b (Some b1) then None
     else if ttype b \<noteq> TYPE_bit \<or> ttype b1 \<noteq> t2 then None
     else BATcalcifthenelse_intern b (tvals b1) 1 (tnonil b1) (Some [c2]) 0 (\<not> VALisnil t2 c2) (ttype b1))"

definition BATcalcifthencstelse :: "bat \<Rightarrow> tpe \<Rightarrow> int \<Rightarrow> bat option \<Rightarrow> (bat \<times> nat list option) option" where
  "BATcalcifthencstelse b t1 c1 b2 =
    (if \<not> checkbats b b2 then None
     else if ttype b \<noteq> TYPE_bit \<or> (case b2 of None \<Rightarrow> False | Some c \<Rightarrow> ttype c \<noteq> t1) then None
     else BATcalcifthenelse_intern b [c1] 0 (\<not> VALisnil t1 c1) (map_option tvals b2) (if b2 = None then 0 else 1)
       (case b2 of None \<Rightarrow> False | Some c \<Rightarrow> tnonil c) t1)"

definition BATcalcifthencstelsecst :: "bat \<Rightarrow> tpe \<Rightarrow> int \<Rightarrow> tpe \<Rightarrow> int \<Rightarrow> (bat \<times> nat list option) option" where
  "BATcalcifthencstelsecst b t1 c1 t2 c2 =
    (if \<not> checkbats b None then None
     else if ttype b \<noteq> TYPE_bit \<or> t1 \<noteq> t2 then None
     else BATcalcifthenelse_intern b [c1] 0 (\<not> VALisnil t1 c1) (Some [c2]) 0 (\<not> VALisnil t2 c2) t1)"

subsection \<open>What the loop computes\<close>

definition choice :: "int \<Rightarrow> int list \<Rightarrow> int list \<Rightarrow> nat \<Rightarrow> int list \<Rightarrow> nat \<Rightarrow> nat \<Rightarrow> int" where
  "choice nil src c1 i c2 j k = (if src ! k = smin 8 then nil else if src ! k \<noteq> 0 then c1 ! (k * i) else c2 ! (k * j))"

lemma IFTHENELSELOOP_else:
  assumes "\<forall>k<length src. k * i < length c1 \<and> k * j < length c2" "m \<le> length src"
  shows "IFTHENELSELOOP nil src c1 i (Some c2) j off m =
    Some ([], map (choice nil src c1 i c2 j) [m..<length src], nil_count (smin 8) (drop m src))"
  using assms(2)
proof (induction "length src - m" arbitrary: m)
  case 0
  then show ?case by (simp add: IFTHENELSELOOP.simps nil_count_def)
next
  case (Suc n)
  then have m: "m < length src" "n = length src - (m + 1)" by auto
  have d: "drop m src = src ! m # drop (m + 1) src" using m(1) by (simp add: Cons_nth_drop_Suc)
  show ?case
    using m assms(1) Suc.hyps(1) [OF m(2)]
    by (subst IFTHENELSELOOP.simps) (auto simp: d upt_step fetch_def choice_def nil_count_def)
qed

lemma IFTHENELSELOOP_no_else:
  assumes "\<forall>k<length src. k * i < length c1" "m \<le> length src"
  shows "IFTHENELSELOOP nil src c1 i None j off m =
    (let ks = filter (\<lambda>k. src ! k \<noteq> 0) [m..<length src]
     in Some (map (\<lambda>k. k + off) ks, map (choice nil src c1 i [] 0) ks, nil_count (smin 8) (drop m src)))"
  using assms(2)
proof (induction "length src - m" arbitrary: m)
  case 0
  then show ?case by (simp add: IFTHENELSELOOP.simps nil_count_def)
next
  case (Suc n)
  then have m: "m < length src" "n = length src - (m + 1)" by auto
  have d: "drop m src = src ! m # drop (m + 1) src" using m(1) by (simp add: Cons_nth_drop_Suc)
  have "smin 8 \<noteq> 0" by (simp add: smin_def)
  then show ?case
    using m assms(1) Suc.hyps(1) [OF m(2)]
    by (subst IFTHENELSELOOP.simps) (auto simp: d upt_step fetch_def choice_def nil_count_def Let_def)
qed

subsection \<open>Properties\<close>

definition choosable :: "bat \<Rightarrow> bat \<Rightarrow> bool" where
  "choosable b c \<longleftrightarrow> BATassertProps b \<and> ttype b = TYPE_bit \<and> BATassertProps c \<and> length (tvals c) = length (tvals b) \<and> ttype c \<noteq> TYPE_other"

lemma nil_in_type: "t \<noteq> TYPE_other \<Longrightarrow> in_type t (nil_of t)"
  by (cases t) (simp_all add: in_type_def smin_def smax_def)

lemma in_type_choice:
  assumes "t \<noteq> TYPE_other" "\<forall>v\<in>set c1. in_type t v" "\<forall>v\<in>set c2. in_type t v" "k * i < length c1" "k * j < length c2"
  shows "in_type t (choice (nil_of t) src c1 i c2 j k)"
  using assms nil_in_type by (simp add: choice_def)

text \<open>The column made from a choice, with the properties recorded for it.\<close>

lemma choice_props:
  assumes v: "vs = map (choice (nil_of t) src c1 i c2 j) [0..<length src]" and t: "t \<noteq> TYPE_other"
    and o: "operand t c1 i (length src)" "operand t c2 j (length src)"
    and n: "nonil1 \<Longrightarrow> nil_of t \<notin> set c1" "nonil2 \<Longrightarrow> nil_of t \<notin> set c2" and nils: "nils = nil_count (smin 8) src" and cnt: "cnt = length src"
  shows "BATassertProps ((BATnew t)\<lparr>tvals := vs, hseq := seq, tsorted := cnt \<le> 1 \<or> nils = cnt, trevsorted := cnt \<le> 1 \<or> nils = cnt,
    tkey := cnt \<le> 1, tnil := nils \<noteq> 0, tnonil := nils = 0 \<and> nonil1 \<and> nonil2\<rparr>)"
proof -
  have len: "length vs = cnt" by (simp add: v cnt)
  have ty: "\<forall>x\<in>set vs. in_type t x" using in_type_choice [OF t] o by (auto simp: v operand_def)
  have all: "\<forall>x\<in>set vs. x = nil_of t" if "nils = cnt"
    using that nil_count_all [of "smin 8" src] by (auto simp: nils cnt v choice_def)
  have some: "nil_of t \<in> set vs" if "nils \<noteq> 0"
  proof -
    have "smin 8 \<in> set src" using that by (simp add: nils)
    then obtain k where "k < length src" "src ! k = smin 8" by (auto simp: in_set_conv_nth)
    then show ?thesis by (auto simp: v choice_def intro!: image_eqI [of _ _ k])
  qed
  have none: "nil_of t \<notin> set vs" if "nils = 0 \<and> nonil1 \<and> nonil2"
  proof
    assume "nil_of t \<in> set vs"
    then obtain k where k: "k < length src" "choice (nil_of t) src c1 i c2 j k = nil_of t" by (auto simp: v)
    have "smin 8 \<notin> set src" using that by (simp add: nils)
    then have "src ! k \<noteq> smin 8" using nth_mem [OF k(1)] by metis
    then have "c1 ! (k * i) = nil_of t \<or> c2 ! (k * j) = nil_of t" using k(2) by (auto simp: choice_def split: if_splits)
    moreover have "c1 ! (k * i) \<in> set c1" "c2 ! (k * j) \<in> set c2" using o k(1) by (simp_all add: operand_def)
    ultimately show False using that n by metis
  qed
  have "sorted vs \<and> sorted_wrt (\<ge>) vs" if "cnt \<le> 1 \<or> nils = cnt"
    using that
  proof
    assume "cnt \<le> 1"
    then show ?thesis using len by (cases vs) auto
  qed (use all sorted_const in blast)
  then show ?thesis using ty some none distinct_short [of vs] len by (auto simp: BATassertProps_iff BATnew_def)
qed

lemma ifthenelse_rows:
  assumes a: "choosable b b1" "choosable b b2" "ttype b1 = ttype b2"
  shows "\<exists>c. BATcalcifthenelse b b1 (Some b2) = Some (c, None) \<and> ttype c = ttype b1 \<and> BATassertProps c \<and>
    tvals c = map (\<lambda>k. case tri (tvals b ! k) of None \<Rightarrow> nil_of (ttype b1) | Some p \<Rightarrow> if p then tvals b1 ! k else tvals b2 ! k) [0..<length (tvals b)]"
proof -
  let ?vs = "map (choice (nil_of (ttype b1)) (tvals b) (tvals b1) 1 (tvals b2) 1) [0..<length (tvals b)]"
  have c: "checkbats b (Some b1)" "checkbats b (Some b2)" "ttype b = TYPE_bit" "ttype b1 \<noteq> TYPE_other"
    "\<forall>k<length (tvals b). k * 1 < length (tvals b1) \<and> k * 1 < length (tvals b2)" using a by (simp_all add: choosable_def checkbats_def)
  have p: "BATassertProps b1" "BATassertProps b2" "length (tvals b) = length (tvals b1)" "length (tvals b) = length (tvals b2)"
    using a by (simp_all add: choosable_def)
  note o = operand_bat [OF p(1,3)] operand_bat [OF p(2,4)]
  have r: "IFTHENELSELOOP (nil_of (ttype b1)) (tvals b) (tvals b1) 1 (Some (tvals b2)) 1 (hseq b) 0 = Some ([], ?vs, nil_count (smin 8) (tvals b))"
    using IFTHENELSELOOP_else [OF c(5), of 0] by simp
  have e: "BATcalcifthenelse b b1 (Some b2) = BATcalcifthenelse_intern b (tvals b1) 1 (tnonil b1) (Some (tvals b2)) 1 (tnonil b2) (ttype b1)"
    using c a(3) by (simp add: BATcalcifthenelse_def)
  have pr: "BATassertProps ((BATnew (ttype b1))\<lparr>tvals := ?vs, hseq := hseq b, tsorted := length (tvals b) \<le> 1 \<or> nil_count (smin 8) (tvals b) = length (tvals b),
      trevsorted := length (tvals b) \<le> 1 \<or> nil_count (smin 8) (tvals b) = length (tvals b), tkey := length (tvals b) \<le> 1,
      tnil := nil_count (smin 8) (tvals b) \<noteq> 0, tnonil := nil_count (smin 8) (tvals b) = 0 \<and> tnonil b1 \<and> tnonil b2\<rparr>)"
    using nonil_bat [OF p(1)] nonil_bat [OF p(2)] o a(3) by (intro choice_props [OF refl c(4) _ _ _ _ refl refl]) simp_all
  have "?vs = map (\<lambda>k. case tri (tvals b ! k) of None \<Rightarrow> nil_of (ttype b1) | Some p \<Rightarrow> if p then tvals b1 ! k else tvals b2 ! k) [0..<length (tvals b)]"
    by (simp add: choice_def tri_def)
  then show ?thesis unfolding e BATcalcifthenelse_intern_def r using pr by (simp add: Let_def)
qed

text \<open>
  C33.  The choice between two columns takes the first where the condition is true, the second where it is false, and nil where it is
  nil; the properties recorded are right.
\<close>

theorem ifthenelse_exact:
  assumes a: "choosable b b1" "choosable b b2" "ttype b1 = ttype b2"
  shows "\<exists>c. BATcalcifthenelse b b1 (Some b2) = Some (c, None) \<and> ttype c = ttype b1 \<and> BATassertProps c \<and>
    tvals c = map (\<lambda>k. case tri (tvals b ! k) of None \<Rightarrow> nil_of (ttype b1) | Some p \<Rightarrow> if p then tvals b1 ! k else tvals b2 ! k) [0..<length (tvals b)]"
  by (rule ifthenelse_rows [OF a])

theorem ifthenelse_exact_witness:
  "\<exists>b b1 b2 c. BATcalcifthenelse b b1 (Some b2) = Some (c, None) \<and> tvals c = [1, 20, - 2147483648] \<and> BATassertProps c"
proof -
  let ?b = "(BATnew TYPE_bit)\<lparr>tvals := [1, 0, - 128], tsorted := False, tnonil := False\<rparr>"
  let ?b1 = "(BATnew TYPE_int)\<lparr>tvals := [1, 2, 3], trevsorted := False\<rparr>" and ?b2 = "(BATnew TYPE_int)\<lparr>tvals := [10, 20, 30], trevsorted := False\<rparr>"
  have a: "choosable ?b ?b1" "choosable ?b ?b2" "ttype ?b1 = ttype ?b2"
    by (simp_all add: choosable_def BATassertProps_iff BATnew_def in_type_def smin_def smax_def)
  have "map (\<lambda>k. case tri (tvals ?b ! k) of None \<Rightarrow> nil_of (ttype ?b1) | Some p \<Rightarrow> if p then tvals ?b1 ! k else tvals ?b2 ! k) [0..<length (tvals ?b)] =
      [1, 20, - 2147483648]" by code_simp
  with ifthenelse_exact [OF a] have "\<exists>c. BATcalcifthenelse ?b ?b1 (Some ?b2) = Some (c, None) \<and> tvals c = [1, 20, - 2147483648] \<and> BATassertProps c"
    by (elim exE conjE) (intro exI conjI, simp_all only:)
  then show ?thesis by (rule exI [of _ ?b, OF exI [of _ ?b1, OF exI [of _ ?b2]]])
qed

text \<open>
  Without a second column the choice keeps the rows whose condition is true or nil, in order and with their own
  identifiers in the head, the nil conditions giving nil.
\<close>

theorem ifthen_selects:
  assumes a: "choosable b b1" and ks: "ks = filter (\<lambda>k. tri (tvals b ! k) \<noteq> Some False) [0..<length (tvals b)]"
  shows "\<exists>c. BATcalcifthenelse b b1 None = Some (c, Some (map (\<lambda>k. hseq b + k) ks)) \<and> ttype c = ttype b1 \<and>
    tvals c = map (\<lambda>k. if tri (tvals b ! k) = None then nil_of (ttype b1) else tvals b1 ! k) ks"
proof -
  have c: "checkbats b (Some b1)" "ttype b = TYPE_bit" "\<forall>k<length (tvals b). k * 1 < length (tvals b1)"
    using a by (simp_all add: choosable_def checkbats_def)
  have f: "ks = filter (\<lambda>k. tvals b ! k \<noteq> 0) [0..<length (tvals b)]"
    unfolding ks by (rule filter_cong) (auto simp: tri_def smin_def)
  have "map (choice (nil_of (ttype b1)) (tvals b) (tvals b1) 1 [] 0) ks = map (\<lambda>k. if tri (tvals b ! k) = None then nil_of (ttype b1) else tvals b1 ! k) ks"
    unfolding f by (auto simp: choice_def tri_def)
  then show ?thesis
    using IFTHENELSELOOP_no_else [OF c(3), of 0 "nil_of (ttype b1)" 0 "hseq b"] c(1,2)
    by (simp add: BATcalcifthenelse_def BATcalcifthenelse_intern_def f [symmetric] Let_def add.commute)
qed

theorem ifthen_selects_witness:
  "\<exists>b b1 c. BATcalcifthenelse b b1 None = Some (c, Some [7, 9]) \<and> tvals c = [1, - 2147483648]"
proof -
  let ?b = "(BATnew TYPE_bit)\<lparr>tvals := [1, 0, - 128], hseq := 7, tsorted := False, tnonil := False\<rparr>"
  let ?b1 = "(BATnew TYPE_int)\<lparr>tvals := [1, 2, 3], trevsorted := False\<rparr>"
  have a: "choosable ?b ?b1" by (simp add: choosable_def BATassertProps_iff BATnew_def in_type_def smin_def smax_def)
  have e: "filter (\<lambda>k. tri (tvals ?b ! k) \<noteq> Some False) [0..<length (tvals ?b)] = [0, 2]" by code_simp
  have "map (\<lambda>k. hseq ?b + k) [0, 2] = [7, 9]"
    "map (\<lambda>k. if tri (tvals ?b ! k) = None then nil_of (ttype ?b1) else tvals ?b1 ! k) [0, 2] = [1, - 2147483648]" by code_simp+
  with ifthen_selects [OF a e [symmetric]] have "\<exists>c. BATcalcifthenelse ?b ?b1 None = Some (c, Some [7, 9]) \<and> tvals c = [1, - 2147483648]"
    by (elim exE conjE) (intro exI conjI, simp_all only:)
  then show ?thesis by (rule exI [of _ ?b, OF exI [of _ ?b1]])
qed

text \<open>
  C16.  Comparing two columns of one type and choosing by the result computes the smaller value of each row, with nil where a value
  is nil or the row is no candidate.
\<close>

theorem rowwise_minimum:
  assumes a: "comparable_bats b1 b2 s" "ttype b1 = ttype b2"
  shows "\<exists>c d. BATcalclt b1 b2 s = Some c \<and> BATcalcifthenelse c b1 (Some b2) = Some (d, None) \<and> BATassertProps d \<and>
    tvals d = map (\<lambda>k. if is_cand s (hseq b1 + k) \<and> tvals b1 ! k \<noteq> nil_of (ttype b1) \<and> tvals b2 ! k \<noteq> nil_of (ttype b1)
      then min (tvals b1 ! k) (tvals b2 ! k) else nil_of (ttype b1)) [0..<length (tvals b1)]"
proof -
  have "(BATcalclt, (<)) \<in> comparisons" by (simp add: comparisons_def)
  then obtain c where c: "BATcalclt b1 b2 s = Some c" "BATassertProps c" "ttype c = TYPE_bit" "map tri (tvals c) = cmp_rows (<) b1 b2 s"
    using comparison_columns [OF a(1)] by blast
  have len: "length (tvals c) = length (tvals b1)" using arg_cong [OF c(4), of length] by (simp add: cmp_rows_def)
  have "choosable c b1" "choosable c b2" using a c(2,3) len by (auto simp: choosable_def comparable_bats_def comparable_def)
  then obtain d where d: "BATcalcifthenelse c b1 (Some b2) = Some (d, None)" "BATassertProps d"
    "tvals d = map (\<lambda>k. case tri (tvals c ! k) of None \<Rightarrow> nil_of (ttype b1) | Some p \<Rightarrow> if p then tvals b1 ! k else tvals b2 ! k) [0..<length (tvals c)]"
    using ifthenelse_rows [OF _ _ a(2)] by blast
  have "tri (tvals c ! k) = cmp_rows (<) b1 b2 s ! k" if "k < length (tvals b1)" for k
    using that len arg_cong [OF c(4), of "\<lambda>xs. xs ! k"] by simp
  then have "tvals d = map (\<lambda>k. if is_cand s (hseq b1 + k) \<and> tvals b1 ! k \<noteq> nil_of (ttype b1) \<and> tvals b2 ! k \<noteq> nil_of (ttype b1)
      then min (tvals b1 ! k) (tvals b2 ! k) else nil_of (ttype b1)) [0..<length (tvals b1)]"
    unfolding d(3) len using a(2) by (intro map_cong) (auto simp: cmp_rows_def min_def)
  with c(1) d(1,2) show ?thesis by blast
qed

theorem rowwise_minimum_witness:
  "\<exists>b1 b2 c d. BATcalclt b1 b2 None = Some c \<and> BATcalcifthenelse c b1 (Some b2) = Some (d, None) \<and> tvals d = [1, 4, - 2147483648]"
proof -
  let ?b1 = "(BATnew TYPE_int)\<lparr>tvals := [1, 5, 3], tsorted := False, trevsorted := False\<rparr>"
  let ?b2 = "(BATnew TYPE_int)\<lparr>tvals := [2, 4, - 2147483648], tsorted := False, trevsorted := False, tnonil := False\<rparr>"
  have a: "comparable_bats ?b1 ?b2 None" "ttype ?b1 = ttype ?b2"
    by (simp_all add: comparable_bats_def comparable_def BATassertProps_iff BATnew_def in_type_def smin_def smax_def cands_ok_def)
  have "map (\<lambda>k. if is_cand None (hseq ?b1 + k) \<and> tvals ?b1 ! k \<noteq> nil_of (ttype ?b1) \<and> tvals ?b2 ! k \<noteq> nil_of (ttype ?b1)
      then min (tvals ?b1 ! k) (tvals ?b2 ! k) else nil_of (ttype ?b1)) [0..<length (tvals ?b1)] = [1, 4, - 2147483648]" by code_simp
  with rowwise_minimum [OF a] have "\<exists>c d. BATcalclt ?b1 ?b2 None = Some c \<and> BATcalcifthenelse c ?b1 (Some ?b2) = Some (d, None) \<and> tvals d = [1, 4, - 2147483648]"
    by (elim exE conjE) (intro exI conjI, assumption, assumption, simp only:)
  then show ?thesis by (rule exI [of _ ?b1, OF exI [of _ ?b2]])
qed

end
