(* ===== verification/Gdk_Calc_Convert.thy ===== *)
theory Gdk_Calc_Convert
  imports Gdk_Logic
begin

text \<open>
  Conversion of columns and single values to another integer type or to \<^verbatim>\<open>bit\<close> (\<^verbatim>\<open>gdk/gdk_calc.c\<close>).  Except when
  the sizes are equal, the loops move through both columns with pointers.  The new column is
  written into the memory \<open>mem\<close> that \<^verbatim>\<open>BATnew\<close> provides, which has room for at least the rows of the
  argument; a write outside of it is \<^const>\<open>None\<close>.
\<close>

subsection \<open>The loops\<close>

definition put :: "int list \<Rightarrow> nat \<Rightarrow> int \<Rightarrow> int list option" where
  "put dst k v = (if k < length dst then Some (dst[k := v]) else None)"

fun CANDLOOP :: "int list \<Rightarrow> int \<Rightarrow> nat list \<Rightarrow> int list option" where
  "CANDLOOP dst NIL [] = Some dst"
| "CANDLOOP dst NIL (k # ks) = do { dst \<leftarrow> put dst k NIL; CANDLOOP dst NIL ks }"

text \<open>
  The loop that reads \<^verbatim>\<open>*src\<close> and writes \<^verbatim>\<open>*dst\<close>: both pointers have advanced by \<open>p\<close>, \<open>i\<close> counts the rows.
  \<^verbatim>\<open>CHECKCAND\<close> writes at \<open>i\<close> relative to the pointer and does not advance it.  The result is
  the memory, the pointer, the end of the rows and the number of nils.
\<close>

function convert_loop :: "(int \<Rightarrow> cell) \<Rightarrow> int \<Rightarrow> int list \<Rightarrow> int list \<Rightarrow> nat \<Rightarrow> nat \<Rightarrow> nat \<Rightarrow> nat \<Rightarrow> nat list option \<Rightarrow> nat \<Rightarrow>
    (int list \<times> nat \<times> nat \<times> nat) option" where
  "convert_loop F NIL src dst p candoff i e cand nils =
    (if i < e then
       (case cand of
          None \<Rightarrow> do {
            v \<leftarrow> fetch src p;
            (w, n) \<leftarrow> F v;
            dst \<leftarrow> put dst p w;
            convert_loop F NIL src dst (p + 1) candoff (i + 1) e None (nils + n)
          }
        | Some [] \<Rightarrow> None
        | Some (c # cs) \<Rightarrow>
            if i < usub c candoff then do {
              dst \<leftarrow> put dst (p + i) NIL;
              convert_loop F NIL src dst p candoff (i + 1) e cand (nils + 1)
            } else do {
              v \<leftarrow> fetch src p;
              (w, n) \<leftarrow> F v;
              dst \<leftarrow> put dst p w;
              convert_loop F NIL src dst (p + 1) candoff (i + 1) (if cs = [] then i + 1 else e) (Some cs) (nils + n)
            })
     else Some (dst, p, e, nils))"
  by pat_completeness auto
termination
  by (relation "measure (\<lambda>(F, NIL, src, dst, p, candoff, i, e, cand, nils). e - i)") auto

declare convert_loop.simps [simp del]

type_synonym converter = "int list \<Rightarrow> int list \<Rightarrow> canditer \<Rightarrow> nat \<Rightarrow> (int list \<times> nat) option"

definition convert_ptr :: "(int \<Rightarrow> cell) \<Rightarrow> int \<Rightarrow> converter" where
  "convert_ptr F NIL src mem ci candoff = do {
     dst \<leftarrow> CANDLOOP mem NIL [0..<cstart ci];
     (dst, p, e, nils) \<leftarrow> convert_loop F NIL src dst 0 candoff (cstart ci) (cend ci) (ccand ci) (cstart ci);
     dst \<leftarrow> CANDLOOP dst NIL (map (\<lambda>i. p + i) [e..<ccnt ci]);
     Some (take (ccnt ci) dst, nils + (ccnt ci - e))
   }"

definition convertimpl_copy :: "nat \<Rightarrow> converter" where
  "convertimpl_copy w src mem ci candoff =
    cand_run (\<lambda>i. do { v \<leftarrow> fetch src i; Some (v, if v = smin w then 1 else 0) }) (smin w) candoff ci"

definition convertimpl_enlarge :: "nat \<Rightarrow> nat \<Rightarrow> converter" where
  "convertimpl_enlarge w1 w2 =
    convert_ptr (\<lambda>v. if v = smin w1 then Some (smin w2, 1) else Some (swrap w2 v, 0)) (smin w2)"

definition convertimpl_reduce :: "nat \<Rightarrow> nat \<Rightarrow> bool \<Rightarrow> converter" where
  "convertimpl_reduce w1 w2 abort_on_error =
    convert_ptr (\<lambda>v. if v = smin w1 then Some (smin w2, 1)
        else if v \<le> smin w2 \<or> v > smax w2 then overflow w2 abort_on_error
        else Some (swrap w2 v, 0)) (smin w2)"

definition convert2bit_impl :: "nat \<Rightarrow> converter" where
  "convert2bit_impl w =
    convert_ptr (\<lambda>v. if v = smin w then Some (smin 8, 1) else Some (if v \<noteq> 0 then 1 else 0, 0)) (smin 8)"

definition convert_bte :: "tpe \<Rightarrow> bool \<Rightarrow> converter option" where
  "convert_bte dtp abort_on_error =
    (case ATOMstorage dtp of
       TYPE_bte \<Rightarrow> Some (if dtp = TYPE_bit then convert2bit_impl 8 else convertimpl_copy 8)
     | TYPE_sht \<Rightarrow> Some (convertimpl_enlarge 8 16)
     | TYPE_int \<Rightarrow> Some (convertimpl_enlarge 8 32)
     | TYPE_lng \<Rightarrow> Some (convertimpl_enlarge 8 64)
     | _ \<Rightarrow> None)"

definition convert_sht :: "tpe \<Rightarrow> bool \<Rightarrow> converter option" where
  "convert_sht dtp abort_on_error =
    (case ATOMstorage dtp of
       TYPE_bte \<Rightarrow> Some (if dtp = TYPE_bit then convert2bit_impl 16 else convertimpl_reduce 16 8 abort_on_error)
     | TYPE_sht \<Rightarrow> Some (convertimpl_copy 16)
     | TYPE_int \<Rightarrow> Some (convertimpl_enlarge 16 32)
     | TYPE_lng \<Rightarrow> Some (convertimpl_enlarge 16 64)
     | _ \<Rightarrow> None)"

definition convert_int :: "tpe \<Rightarrow> bool \<Rightarrow> converter option" where
  "convert_int dtp abort_on_error =
    (case ATOMstorage dtp of
       TYPE_bte \<Rightarrow> Some (if dtp = TYPE_bit then convert2bit_impl 32 else convertimpl_reduce 32 8 abort_on_error)
     | TYPE_sht \<Rightarrow> Some (convertimpl_reduce 32 16 abort_on_error)
     | TYPE_int \<Rightarrow> Some (convertimpl_copy 32)
     | TYPE_lng \<Rightarrow> Some (convertimpl_enlarge 32 64)
     | _ \<Rightarrow> None)"

definition convert_lng :: "tpe \<Rightarrow> bool \<Rightarrow> converter option" where
  "convert_lng dtp abort_on_error =
    (case ATOMstorage dtp of
       TYPE_bte \<Rightarrow> Some (if dtp = TYPE_bit then convert2bit_impl 64 else convertimpl_reduce 64 8 abort_on_error)
     | TYPE_sht \<Rightarrow> Some (convertimpl_reduce 64 16 abort_on_error)
     | TYPE_int \<Rightarrow> Some (convertimpl_reduce 64 32 abort_on_error)
     | TYPE_lng \<Rightarrow> Some (convertimpl_copy 64)
     | _ \<Rightarrow> None)"

definition convert_typeswitchloop :: "int list \<Rightarrow> tpe \<Rightarrow> int list \<Rightarrow> tpe \<Rightarrow> canditer \<Rightarrow> nat \<Rightarrow> bool \<Rightarrow> (int list \<times> nat) option" where
  "convert_typeswitchloop src stp mem dtp ci candoff abort_on_error = do {
     loop \<leftarrow>
       (case ATOMstorage stp of
          TYPE_bte \<Rightarrow> convert_bte dtp abort_on_error
        | TYPE_sht \<Rightarrow> convert_sht dtp abort_on_error
        | TYPE_int \<Rightarrow> convert_int dtp abort_on_error
        | TYPE_lng \<Rightarrow> convert_lng dtp abort_on_error
        | _ \<Rightarrow> None);
     loop src mem ci candoff
   }"

subsection \<open>The operators\<close>

text \<open>\<^verbatim>\<open>BATcopy\<close> of a column that is only read is a view of it with the requested type.\<close>

definition BATcopy_view :: "bat \<Rightarrow> tpe \<Rightarrow> bat" where
  "BATcopy_view b tp = b\<lparr>ttype := tp\<rparr>"

definition BATconvert :: "int list \<Rightarrow> bat \<Rightarrow> cands option \<Rightarrow> tpe \<Rightarrow> bool \<Rightarrow> bat option" where
  "BATconvert mem b s tp abort_on_error =
    (let ci = candinit b s in
     if s = None \<and> tp \<noteq> TYPE_bit \<and> ATOMstorage (ttype b) = ATOMstorage tp then Some (BATcopy_view b tp)
     else do {
       (dst, nils) \<leftarrow> convert_typeswitchloop (tvals b) (ttype b) mem tp ci (hseq b) abort_on_error;
       Some ((BATnew tp)\<lparr>tvals := dst, hseq := hseq b, tnil := nils \<noteq> 0, tnonil := nils = 0,
         tsorted := nils = 0 \<and> tsorted b, trevsorted := nils = 0 \<and> trevsorted b, tkey := tkey b \<and> nils \<le> 1\<rparr>)
     })"

definition VARconvert :: "tpe \<Rightarrow> tpe \<Rightarrow> int \<Rightarrow> bool \<Rightarrow> int option" where
  "VARconvert rt vt v abort_on_error = do {
     (dst, nils) \<leftarrow> convert_typeswitchloop [v] vt [0] rt one_row 0 abort_on_error;
     fetch dst 0
   }"

subsection \<open>What the loops compute\<close>

lemma put_Some: "k < length dst \<Longrightarrow> put dst k v = Some (take k dst @ v # drop (Suc k) dst)"
  by (simp add: put_def upd_conv_take_nth_drop)

lemma CANDLOOP_fill:
  assumes "a \<le> b" "b \<le> length dst"
  shows "CANDLOOP dst NIL [a..<b] = Some (take a dst @ replicate (b - a) NIL @ drop b dst)"
  using assms
proof (induction "b - a" arbitrary: a dst)
  case 0
  then show ?case by simp
next
  case (Suc n)
  then have a: "a < b" "n = b - (a + 1)" "b - a = Suc (b - (a + 1))" by auto
  have "CANDLOOP (take a dst @ NIL # drop (Suc a) dst) NIL [a + 1..<b] =
      Some (take (a + 1) (take a dst @ NIL # drop (Suc a) dst) @ replicate (b - (a + 1)) NIL @ drop b (take a dst @ NIL # drop (Suc a) dst))"
    using Suc.prems a by (intro Suc.hyps(1)) auto
  moreover have "take (a + 1) (take a dst @ NIL # drop (Suc a) dst) = take a dst @ [NIL]" "drop b (take a dst @ NIL # drop (Suc a) dst) = drop b dst"
    using a Suc.prems by (simp_all add: drop_Cons' min_def)
  ultimately show ?case using a Suc.prems by (simp add: upt_step put_Some)
qed

lemma CANDLOOP_outside: "\<exists>k\<in>set ks. length dst \<le> k \<Longrightarrow> CANDLOOP dst NIL ks = None"
proof (induction ks arbitrary: dst)
  case (Cons k ks)
  then show ?case by (cases "k < length dst") (auto simp: put_def)
qed simp

lemma convert_loop_all:
  assumes "i \<le> e" "p + (e - i) \<le> length dst"
  shows "convert_loop F NIL src dst p off i e None nils =
    map_option (\<lambda>(ws, n). (take p dst @ ws @ drop (p + (e - i)) dst, p + (e - i), e, nils + n))
      (cells (\<lambda>k. do { v \<leftarrow> fetch src k; F v }) [p..<p + (e - i)])"
  using assms
proof (induction "e - i" arbitrary: i p dst nils)
  case 0
  then show ?case by (simp add: convert_loop.simps)
next
  case (Suc m)
  then have i: "i < e" "m = e - (i + 1)" "e - i = Suc m" by auto
  have p: "p < length dst" using Suc.prems i by auto
  have up: "[p..<p + (e - i)] = p # [p + 1..<p + (e - i)]" using i by (intro upt_step) simp
  show ?case
  proof (cases "do { v \<leftarrow> fetch src p; F v }")
    case None
    then have "convert_loop F NIL src dst p off i e None nils = None" using i(1) by (subst convert_loop.simps) (cases "fetch src p"; auto)
    then show ?thesis unfolding up using None by simp
  next
    case (Some wn)
    obtain w n where wn: "wn = (w, n)" by (cases wn)
    let ?d = "take p dst @ w # drop (Suc p) dst"
    have "convert_loop F NIL src dst p off i e None nils = convert_loop F NIL src ?d (p + 1) off (i + 1) e None (nils + n)"
      using Some i(1) p by (subst convert_loop.simps) (auto simp: wn put_Some bind_eq_Some_conv)
    also have "\<dots> = map_option (\<lambda>(ws, n'). (take (p + 1) ?d @ ws @ drop (p + 1 + (e - (i + 1))) ?d, p + 1 + (e - (i + 1)), e, nils + n + n'))
        (cells (\<lambda>k. do { v \<leftarrow> fetch src k; F v }) [p + 1..<p + 1 + (e - (i + 1))])"
      using Suc.prems i p by (intro Suc.hyps(1)) auto
    also have "take (p + 1) ?d = take p dst @ [w]" using p by simp
    also have "drop (p + 1 + (e - (i + 1))) ?d = drop (p + (e - i)) dst" using p i by (simp add: drop_Cons' min_def add.commute)
    also have "p + 1 + (e - (i + 1)) = p + (e - i)" using i by simp
    finally show ?thesis
      unfolding up using Some
      by (cases "cells (\<lambda>k. fetch src k \<bind> F) [p + 1..<p + (e - i)]") (simp_all add: wn split: prod.splits)
  qed
qed

text \<open>The conversion of one value: nil stays nil, a value that does not fit has no conversion.\<close>

definition conv :: "tpe \<Rightarrow> tpe \<Rightarrow> int \<Rightarrow> int option" where
  "conv stp dtp v =
    (if v = nil_of stp then Some (nil_of dtp)
     else if dtp = TYPE_bit then Some (if v \<noteq> 0 then 1 else 0)
     else if nil_of dtp < v \<and> v \<le> smax (width dtp) then Some v else None)"

definition conv_or_nil :: "tpe \<Rightarrow> tpe \<Rightarrow> int \<Rightarrow> int" where
  "conv_or_nil stp dtp v = (case conv stp dtp v of Some w \<Rightarrow> w | None \<Rightarrow> nil_of dtp)"

definition conv_cell :: "tpe \<Rightarrow> tpe \<Rightarrow> bool \<Rightarrow> int \<Rightarrow> cell" where
  "conv_cell stp dtp ab v = (if ab \<and> conv stp dtp v = None then None
     else let w = conv_or_nil stp dtp v in Some (w, if w = nil_of dtp then 1 else 0))"

lemma convert_switch_eq:
  assumes "stp \<noteq> TYPE_other" "dtp \<noteq> TYPE_other"
  shows "convert_typeswitchloop src stp mem dtp ci off ab =
    (if dtp = TYPE_bit then convert2bit_impl (width stp) src mem ci off
     else if width stp = width dtp then convertimpl_copy (width stp) src mem ci off
     else if width stp < width dtp then convertimpl_enlarge (width stp) (width dtp) src mem ci off
     else convertimpl_reduce (width stp) (width dtp) ab src mem ci off)"
  using assms
  by (cases stp; cases dtp) (simp_all add: convert_typeswitchloop_def ATOMstorage_def convert_bte_def convert_sht_def convert_int_def convert_lng_def)

lemma conv_cells:
  assumes v: "in_type stp v" and t: "stp \<noteq> TYPE_other" "dtp \<noteq> TYPE_other"
  shows "dtp = TYPE_bit \<Longrightarrow> (if v = nil_of stp then Some (smin 8, 1) else Some (if v \<noteq> 0 then 1 else 0, 0)) = conv_cell stp dtp ab v"
    and "dtp \<noteq> TYPE_bit \<Longrightarrow> width stp = width dtp \<Longrightarrow> Some (v, if v = nil_of stp then 1 else 0) = conv_cell stp dtp ab v"
    and "dtp \<noteq> TYPE_bit \<Longrightarrow> width stp < width dtp \<Longrightarrow>
      (if v = nil_of stp then Some (nil_of dtp, 1) else Some (swrap (width dtp) v, 0)) = conv_cell stp dtp ab v"
    and "dtp \<noteq> TYPE_bit \<Longrightarrow> (if v = nil_of stp then Some (nil_of dtp, 1)
        else if v \<le> nil_of dtp \<or> v > smax (width dtp) then overflow (width dtp) ab else Some (swrap (width dtp) v, 0)) = conv_cell stp dtp ab v"
proof -
  note d = conv_cell_def conv_or_nil_def conv_def Let_def
  have r: "v \<noteq> nil_of stp \<Longrightarrow> nil_of stp < v \<and> v \<le> smax (width stp)" using in_type_range [OF v] by blast
  have w: "swrap (width dtp) v = v" if "nil_of dtp < v" "v \<le> smax (width dtp)"
    using that width_pos [OF t(2)] by (intro swrap_id) auto
  show "dtp = TYPE_bit \<Longrightarrow> (if v = nil_of stp then Some (smin 8, 1) else Some (if v \<noteq> 0 then 1 else 0, 0)) = conv_cell stp dtp ab v"
    by (simp add: d smin_def)
  show "dtp \<noteq> TYPE_bit \<Longrightarrow> width stp = width dtp \<Longrightarrow> Some (v, if v = nil_of stp then 1 else 0) = conv_cell stp dtp ab v"
    using r by (auto simp: d)
  show "(if v = nil_of stp then Some (nil_of dtp, 1) else Some (swrap (width dtp) v, 0)) = conv_cell stp dtp ab v"
    if "dtp \<noteq> TYPE_bit" "width stp < width dtp"
    using that r w smin_mono [of "width stp" "width dtp"] smax_mono [of "width stp" "width dtp"] by (cases "v = nil_of stp") (auto simp: d)
  show "(if v = nil_of stp then Some (nil_of dtp, 1)
      else if v \<le> nil_of dtp \<or> v > smax (width dtp) then overflow (width dtp) ab else Some (swrap (width dtp) v, 0)) = conv_cell stp dtp ab v"
    if "dtp \<noteq> TYPE_bit"
    using that w by (cases "v = nil_of stp"; cases "nil_of dtp < v \<and> v \<le> smax (width dtp)") (auto simp: d overflow_def)
qed

text \<open>The loops that use pointers, for a dense range of candidates.\<close>

lemma convert_ptr_dense:
  assumes "ci = \<lparr>cstart = p, cend = p + n, ccnt = cnt, ccand = None\<rparr>" "p + n \<le> cnt" "cnt \<le> length mem"
  shows "convert_ptr F NIL src mem ci off = do {
      (ws, m) \<leftarrow> cells (\<lambda>k. do { v \<leftarrow> fetch src k; F v }) [0..<n];
      dst \<leftarrow> CANDLOOP (ws @ drop n (replicate p NIL @ drop p mem)) NIL (map (\<lambda>i. n + i) [p + n..<cnt]);
      Some (take cnt dst, p + m + (cnt - (p + n))) }"
proof -
  let ?d = "replicate p NIL @ drop p mem"
  have "CANDLOOP mem NIL [0..<p] = Some ?d" using CANDLOOP_fill [of 0 p mem NIL] assms by simp
  moreover have "convert_loop F NIL src ?d 0 off p (p + n) None p =
      map_option (\<lambda>(ws, m). (ws @ drop n ?d, n, p + n, p + m)) (cells (\<lambda>k. do { v \<leftarrow> fetch src k; F v }) [0..<n])"
    using convert_loop_all [of p "p + n" 0 ?d F NIL src off p] assms by simp
  ultimately show ?thesis
    unfolding convert_ptr_def assms(1)
    by (cases "cells (\<lambda>k. do { v \<leftarrow> fetch src k; F v }) [0..<n]") auto
qed

lemma conv_run:
  assumes "\<forall>v\<in>set src. in_type stp v" "n \<le> length src" "\<And>v. in_type stp v \<Longrightarrow> G v = conv_cell stp dtp ab v"
    and ws: "ws = map (conv_or_nil stp dtp) (take n src)"
  shows "cells (\<lambda>k. do { v \<leftarrow> fetch src k; G v }) [0..<n] =
    (if ab \<and> (\<exists>v\<in>set (take n src). conv stp dtp v = None) then None else Some (ws, nil_count (nil_of dtp) ws))"
proof -
  let ?f = "\<lambda>k. do { v \<leftarrow> fetch src k; G v }"
  have cell: "?f k = conv_cell stp dtp ab (src ! k)" if "k < n" for k using that assms(1-3) by (simp add: fetch_def)
  show ?thesis
  proof (cases "ab \<and> (\<exists>v\<in>set (take n src). conv stp dtp v = None)")
    case True
    then obtain k where k: "k < n" "conv stp dtp (src ! k) = None" using assms(2) by (auto simp: in_set_conv_nth)
    then have "?f k = None" using cell True by (simp add: conv_cell_def)
    then have "cells ?f [0..<n] = None" using k(1) by (intro cells_None [of k]) auto
    then show ?thesis using True by simp
  next
    case False
    have e: "ws = map (\<lambda>k. conv_or_nil stp dtp (src ! k)) [0..<n]" using assms(2) unfolding ws by (intro nth_equalityI) auto
    have "?f k = Some (conv_or_nil stp dtp (src ! k), if conv_or_nil stp dtp (src ! k) = nil_of dtp then 1 else 0)" if "k \<in> set [0..<n]" for k
    proof -
      have "src ! k \<in> set (take n src)" using that assms(2) by (auto simp: in_set_conv_nth)
      then show ?thesis using False cell that by (auto simp: conv_cell_def Let_def)
    qed
    then show ?thesis using False unfolding e by (subst cells_nil_count) auto
  qed
qed

lemma convert_ptr_path:
  assumes t: "stp \<noteq> TYPE_other" "dtp \<noteq> TYPE_other" "dtp = TYPE_bit \<or> width stp \<noteq> width dtp"
  shows "\<exists>G. (\<forall>v. in_type stp v \<longrightarrow> G v = conv_cell stp dtp ab v) \<and>
    (\<forall>src mem ci off. convert_typeswitchloop src stp mem dtp ci off ab = convert_ptr G (nil_of dtp) src mem ci off)"
proof -
  have path: ?thesis if "\<And>v. in_type stp v \<Longrightarrow> G v = conv_cell stp dtp ab v"
    "\<And>src mem ci off. convert_typeswitchloop src stp mem dtp ci off ab = convert_ptr G (nil_of dtp) src mem ci off" for G
    using that by (intro exI [of _ G]) simp
  consider (bit) "dtp = TYPE_bit" | (enlarge) "dtp \<noteq> TYPE_bit" "width stp < width dtp" | (reduce) "dtp \<noteq> TYPE_bit" "width dtp < width stp"
    using t(3) by linarith
  then show ?thesis
  proof cases
    case bit
    then show ?thesis
      by (intro path [OF conv_cells(1) [OF _ t(1,2) bit]]) (simp_all add: convert_switch_eq t(1) convert2bit_impl_def)
  next
    case enlarge
    then show ?thesis
      by (intro path [OF conv_cells(3) [OF _ t(1,2) enlarge]]) (simp_all add: convert_switch_eq [OF t(1,2)] convertimpl_enlarge_def)
  next
    case reduce
    then show ?thesis
      by (intro path [OF conv_cells(4) [OF _ t(1,2) reduce(1)]]) (simp_all add: convert_switch_eq [OF t(1,2)] convertimpl_reduce_def)
  qed
qed

text \<open>Without candidates every conversion converts row by row.\<close>

lemma convert_all:
  assumes t: "stp \<noteq> TYPE_other" "dtp \<noteq> TYPE_other" and v: "\<forall>v\<in>set src. in_type stp v" and m: "length src \<le> length mem"
    and fit: "seq + length src < 2 ^ 63" and ws: "ws = map (conv_or_nil stp dtp) src"
  shows "convert_typeswitchloop src stp mem dtp (CANDINIT seq (length src) None) seq ab =
    (if ab \<and> (\<exists>v\<in>set src. conv stp dtp v = None) then None else Some (ws, nil_count (nil_of dtp) ws))"
proof (cases "dtp = TYPE_bit \<or> width stp \<noteq> width dtp")
  case True
  obtain G where G: "\<And>v. in_type stp v \<Longrightarrow> G v = conv_cell stp dtp ab v"
    "\<And>src mem ci off. convert_typeswitchloop src stp mem dtp ci off ab = convert_ptr G (nil_of dtp) src mem ci off"
    using convert_ptr_path [OF t True, of ab] by blast
  have ci: "CANDINIT seq (length src) None = \<lparr>cstart = 0, cend = 0 + length src, ccnt = length src, ccand = None\<rparr>" by (simp add: CANDINIT_def)
  have "cells (\<lambda>k. do { v \<leftarrow> fetch src k; G v }) [0..<length src] =
      (if ab \<and> (\<exists>v\<in>set src. conv stp dtp v = None) then None else Some (ws, nil_count (nil_of dtp) ws))"
    using conv_run [OF v order_refl G(1) refl] ws by simp
  then show ?thesis unfolding G(2) convert_ptr_dense [OF ci _ m, simplified] by (simp add: ws)
next
  case False
  have "convert_typeswitchloop src stp mem dtp (CANDINIT seq (length src) None) seq ab =
      cells (\<lambda>i. do { v \<leftarrow> fetch src i; Some (v, if v = nil_of stp then 1 else 0) }) [0..<length src]"
    using False cand_run_cells [OF _ fit, of None]
    by (simp add: convert_switch_eq [OF t] convertimpl_copy_def cands_ok_def is_cand_def cells_masked_in)
  then show ?thesis
    using conv_run [OF v order_refl conv_cells(2) [OF _ t] refl, of ab] False ws by simp
qed

subsection \<open>Properties\<close>

lemma conv_or_nil_same: "dtp \<noteq> TYPE_bit \<Longrightarrow> conv_or_nil stp dtp v = v \<or> conv_or_nil stp dtp v = nil_of dtp"
  by (simp add: conv_or_nil_def conv_def)

lemma conv_or_nil_in_type: "dtp \<noteq> TYPE_other \<Longrightarrow> in_type dtp (conv_or_nil stp dtp v)"
  by (cases dtp) (auto simp: conv_or_nil_def conv_def in_type_def smin_def smax_def)

lemma map_nil_distinct:
  assumes "\<And>x. f x = x \<or> f x = NIL" "distinct xs" "nil_count NIL (map f xs) \<le> 1"
  shows "distinct (map f xs)"
  using assms(2,3)
proof (induction xs)
  case (Cons x xs)
  have "f x \<noteq> f y" if "y \<in> set xs" for y
  proof
    assume eq: "f x = f y"
    have "x \<noteq> y" using that Cons.prems by auto
    then have "f x = NIL" using eq assms(1) [of x] assms(1) [of y] by auto
    moreover have "0 < nil_count NIL (map f xs)" using that calculation eq by (auto simp: nil_count_def filter_empty_conv)
    ultimately show False using Cons.prems(2) by (simp add: nil_count_def)
  qed
  then show ?case using Cons by (auto simp: nil_count_def split: if_splits)
qed simp

lemma map_nil_free: "(\<And>x. f x = x \<or> f x = NIL) \<Longrightarrow> NIL \<notin> set (map f xs) \<Longrightarrow> map f xs = xs"
  by (intro map_idI) (metis image_eqI set_map)

lemma BATconvert_all:
  assumes b: "BATassertProps b" "bat_fits b" "length (tvals b) \<le> length mem" and t: "ttype b \<noteq> TYPE_other" "tp \<noteq> TYPE_other"
    and ws: "ws = map (conv_or_nil (ttype b) tp) (tvals b)"
    and ok: "ab \<Longrightarrow> \<forall>v\<in>set (tvals b). conv (ttype b) tp v \<noteq> None"
  shows "\<exists>bn. BATconvert mem b None tp ab = Some bn \<and> ttype bn = tp \<and> hseq bn = hseq b \<and> tvals bn = ws \<and>
    (tsorted bn \<longleftrightarrow> tsorted b \<and> (tp \<noteq> TYPE_bit \<and> width (ttype b) = width tp \<or> nil_of tp \<notin> set ws)) \<and>
    (tp \<noteq> TYPE_bit \<longrightarrow> BATassertProps bn)"
proof (cases "tp \<noteq> TYPE_bit \<and> ATOMstorage (ttype b) = ATOMstorage tp")
  case True
  have w: "width (ttype b) = width tp" using True t by (cases "ttype b"; cases tp) (simp_all add: ATOMstorage_def)
  have same: "conv_or_nil (ttype b) tp v = v" if "v \<in> set (tvals b)" for v
    using conv_cells(2) [of "ttype b" v tp False] that b(1) True w t unfolding BATassertProps_iff by (simp add: conv_cell_def Let_def)
  have e: "ws = tvals b" unfolding ws using same by (rule map_idI)
  have "in_type tp v" if "v \<in> set (tvals b)" for v using conv_or_nil_in_type [OF t(2), of "ttype b" v] same [OF that] by simp
  then show ?thesis using True w b(1) by (auto simp: BATconvert_def BATcopy_view_def e BATassertProps_iff)
next
  case False
  let ?n = "nil_count (nil_of tp) ws"
  have n: "?n = 0 \<longleftrightarrow> nil_of tp \<notin> set ws" by (auto simp: nil_count_def filter_empty_conv)
  have w: "\<not> (tp \<noteq> TYPE_bit \<and> width (ttype b) = width tp)" using False t by (cases "ttype b"; cases tp) (auto simp: ATOMstorage_def)
  have v: "\<forall>v\<in>set (tvals b). in_type (ttype b) v" using b(1) by (simp add: BATassertProps_iff)
  have run: "convert_typeswitchloop (tvals b) (ttype b) mem tp (candinit b None) (hseq b) ab = Some (ws, ?n)"
    using convert_all [OF t v b(3) _ ws, of "hseq b" ab] ok b(2) by auto
  have "BATassertProps ((BATnew tp)\<lparr>tvals := ws, hseq := hseq b, tnil := ?n \<noteq> 0, tnonil := ?n = 0,
      tsorted := ?n = 0 \<and> tsorted b, trevsorted := ?n = 0 \<and> trevsorted b, tkey := tkey b \<and> ?n \<le> 1\<rparr>)" if "tp \<noteq> TYPE_bit"
  proof -
    note same = conv_or_nil_same [OF that, of "ttype b"]
    have "\<forall>v\<in>set ws. in_type tp v" using conv_or_nil_in_type [OF t(2)] by (simp add: ws)
    moreover have "?n = 0 \<Longrightarrow> ws = tvals b" using n map_nil_free [OF same, of "tvals b"] by (simp add: ws)
    then have "?n = 0 \<and> tsorted b \<Longrightarrow> sorted ws" "?n = 0 \<and> trevsorted b \<Longrightarrow> sorted_wrt (\<ge>) ws" using b(1) by (auto simp: BATassertProps_iff)
    moreover have "tkey b \<Longrightarrow> ?n \<le> 1 \<Longrightarrow> distinct ws"
      using b(1) map_nil_distinct [OF same, of "tvals b"] unfolding ws BATassertProps_iff by blast
    ultimately show ?thesis using n by (simp add: BATassertProps_iff BATnew_def)
  qed
  then show ?thesis using False w run n by (auto simp: BATconvert_def Let_def BATnew_def)
qed

lemma BATconvert_fails:
  assumes b: "BATassertProps b" "bat_fits b" "length (tvals b) \<le> length mem" and t: "ttype b \<noteq> TYPE_other" "tp \<noteq> TYPE_other"
    and v: "ab" "v \<in> set (tvals b)" "conv (ttype b) tp v = None"
  shows "BATconvert mem b None tp ab = None"
proof -
  have ty: "\<forall>v\<in>set (tvals b). in_type (ttype b) v" using b(1) by (simp add: BATassertProps_iff)
  then have "\<not> (tp \<noteq> TYPE_bit \<and> width (ttype b) = width tp)"
    using v conv_cells(2) [of "ttype b" v tp True] t by (auto simp: conv_cell_def)
  then have "\<not> (tp \<noteq> TYPE_bit \<and> ATOMstorage (ttype b) = ATOMstorage tp)"
    using t by (cases "ttype b"; cases tp) (simp_all add: ATOMstorage_def)
  then show ?thesis using convert_all [OF t ty b(3) _ refl, of "hseq b" ab] v b(2) by (auto simp: BATconvert_def)
qed

text \<open>
  C18.  A whole column, without a candidate list, is converted row by row: nil becomes the nil of the new type, a value the
  new type can hold is kept, for \<^verbatim>\<open>bit\<close> it becomes whether it is not zero.  A value that does not fit
  ends the operation with an error or becomes nil, as asked for.  Apart from \<^verbatim>\<open>bit\<close>, the
  properties recorded for the new column hold.
\<close>

theorem convert_exact:
  assumes b: "BATassertProps b" "bat_fits b" "length (tvals b) \<le> length mem" and t: "ttype b \<noteq> TYPE_other" "tp \<noteq> TYPE_other"
  shows "if ab \<and> (\<exists>v\<in>set (tvals b). conv (ttype b) tp v = None) then BATconvert mem b None tp ab = None
    else \<exists>bn. BATconvert mem b None tp ab = Some bn \<and> ttype bn = tp \<and> hseq bn = hseq b \<and>
      tvals bn = map (conv_or_nil (ttype b) tp) (tvals b) \<and> (tp \<noteq> TYPE_bit \<longrightarrow> BATassertProps bn)"
  using BATconvert_fails [OF b t, of ab] BATconvert_all [OF b t refl, of ab] by auto

theorem convert_exact_witness:
  "tvals (the (BATconvert [7, 7, 7] ((BATnew TYPE_int)\<lparr>tvals := [3, 300, - 128], tsorted := False, trevsorted := False\<rparr>) None TYPE_bte False)) = [3, - 128, - 128] \<and>
   BATconvert [7, 7, 7] ((BATnew TYPE_int)\<lparr>tvals := [3, 300, - 128], tsorted := False, trevsorted := False\<rparr>) None TYPE_bte True = None"
proof -
  let ?b = "(BATnew TYPE_int)\<lparr>tvals := [3, 300, - 128], tsorted := False, trevsorted := False\<rparr>"
  have "BATassertProps ?b" "bat_fits ?b" "length (tvals ?b) \<le> length [7, 7, 7::int]" "ttype ?b \<noteq> TYPE_other" "TYPE_bte \<noteq> TYPE_other"
    by (simp_all add: BATassertProps_iff BATnew_def in_type_def smin_def smax_def)
  note c = convert_exact [OF this]
  from c [of False] c [of True] show ?thesis by (auto simp: BATnew_def conv_def conv_or_nil_def smin_def smax_def)
qed

text \<open>
  C19.  Converting a column to a type other than \<^verbatim>\<open>bit\<close> that is at least as wide, and back, gives the values it
  had, also from \<^verbatim>\<open>bit\<close> and back.  There is no candidate list, and neither conversion can fail.
\<close>

theorem convert_roundtrip:
  assumes b: "BATassertProps b" "bat_fits b" "length (tvals b) \<le> length mem" "length (tvals b) \<le> length mem'"
    and t: "ttype b \<noteq> TYPE_other" "tp \<noteq> TYPE_other" "tp \<noteq> TYPE_bit" "width (ttype b) \<le> width tp"
  shows "\<exists>bn b'. BATconvert mem b None tp ab = Some bn \<and> BATconvert mem' bn None (ttype b) ab' = Some b' \<and>
    tvals b' = tvals b \<and> ttype b' = ttype b \<and> hseq b' = hseq b"
proof -
  let ?f = "conv_or_nil (ttype b) tp" and ?g = "conv_or_nil tp (ttype b)"
  have c: "conv (ttype b) tp v \<noteq> None \<and> conv tp (ttype b) (?f v) \<noteq> None \<and> ?g (?f v) = v" if "v \<in> set (tvals b)" for v
  proof -
    have v: "in_type (ttype b) v" using b(1) that by (simp add: BATassertProps_iff)
    have "nil_of tp \<le> nil_of (ttype b)" "smax (width (ttype b)) \<le> smax (width tp)"
      using smin_mono [OF t(4)] smax_mono [OF t(4)] by auto
    then show ?thesis using in_type_range [OF v] v t(3) by (auto simp: conv_or_nil_def conv_def in_type_def)
  qed
  obtain bn where bn: "BATconvert mem b None tp ab = Some bn" "ttype bn = tp" "hseq bn = hseq b" "tvals bn = map ?f (tvals b)" "BATassertProps bn"
    using BATconvert_all [OF b(1-3) t(1,2) refl, of ab] c t(3) by auto
  have fit: "bat_fits bn" "length (tvals bn) \<le> length mem'" using b bn by simp_all
  have "\<forall>v\<in>set (tvals bn). conv (ttype bn) (ttype b) v \<noteq> None" using c bn(2,4) by auto
  moreover have "map (conv_or_nil (ttype bn) (ttype b)) (tvals bn) = tvals b" using c bn(2,4) by (simp add: map_idI)
  ultimately show ?thesis
    using BATconvert_all [OF bn(5) fit _ t(1) refl, of ab'] bn(1-3) t(2) by auto
qed

theorem convert_roundtrip_witness:
  "\<exists>bn b'. BATconvert [7, 7] ((BATnew TYPE_bit)\<lparr>tvals := [1, - 128], tsorted := False, tnonil := False\<rparr>) None TYPE_lng True = Some bn \<and>
    BATconvert [9, 9] bn None TYPE_bit True = Some b' \<and> tvals b' = [1, - 128]"
proof -
  let ?b = "(BATnew TYPE_bit)\<lparr>tvals := [1, - 128], tsorted := False, tnonil := False\<rparr>"
  have "BATassertProps ?b" "bat_fits ?b" "length (tvals ?b) \<le> length [7, 7::int]" "length (tvals ?b) \<le> length [9, 9::int]"
    "ttype ?b \<noteq> TYPE_other" "TYPE_lng \<noteq> TYPE_other" "TYPE_lng \<noteq> TYPE_bit" "width (ttype ?b) \<le> width TYPE_lng"
    by (simp_all add: BATassertProps_iff BATnew_def in_type_def smin_def smax_def)
  from convert_roundtrip [OF this, of True True] show ?thesis by (auto simp: BATnew_def)
qed

text \<open>
  The order recorded for the argument is also recorded for its conversion to \<^verbatim>\<open>bit\<close>.  It
  need not hold: where a sorted column without nils has a number that is not zero before a zero,
  the new column is marked as sorted and is not.
\<close>

theorem convert_bit_unsorted:
  assumes b: "BATassertProps b" "bat_fits b" "length (tvals b) \<le> length mem" "ttype b \<noteq> TYPE_other"
    and "tsorted b" "nil_of (ttype b) \<notin> set (tvals b)" "p < q" "q < length (tvals b)" "tvals b ! p \<noteq> 0" "tvals b ! q = 0"
  shows "\<exists>bn. BATconvert mem b None TYPE_bit ab = Some bn \<and> tsorted bn \<and> \<not> sorted (tvals bn) \<and> \<not> BATassertProps bn"
proof -
  let ?ws = "map (conv_or_nil (ttype b) TYPE_bit) (tvals b)"
  have v: "conv (ttype b) TYPE_bit v = Some (if v \<noteq> 0 then 1 else 0)" if "v \<in> set (tvals b)" for v
    using that assms(6) by (auto simp: conv_def)
  then have "nil_of TYPE_bit \<notin> set ?ws" by (auto simp: conv_or_nil_def smin_def split: if_splits)
  moreover have "?ws ! p = 1" "?ws ! q = 0" using v [OF nth_mem, of p] v [OF nth_mem, of q] assms(7-) by (simp_all add: conv_or_nil_def)
  then have "\<not> sorted ?ws" using assms(7,8) sorted_nth_mono [of ?ws p q] by auto
  ultimately show ?thesis
    using BATconvert_all [OF b(1-4) _ refl, of TYPE_bit ab] v assms(5) by (auto simp: BATassertProps_iff)
qed

theorem convert_bit_unsorted_witness:
  "\<exists>bn. BATconvert [7, 7, 7] ((BATnew TYPE_int)\<lparr>tvals := [- 1, 0, 1], trevsorted := False\<rparr>) None TYPE_bit False = Some bn \<and> tsorted bn \<and> \<not> BATassertProps bn"
proof -
  let ?b = "(BATnew TYPE_int)\<lparr>tvals := [- 1, 0, 1], trevsorted := False\<rparr>"
  have "BATassertProps ?b" "bat_fits ?b" "length (tvals ?b) \<le> length [7, 7, 7::int]" "ttype ?b \<noteq> TYPE_other" "tsorted ?b"
    "nil_of (ttype ?b) \<notin> set (tvals ?b)" "(0::nat) < 1" "1 < length (tvals ?b)" "tvals ?b ! 0 \<noteq> 0" "tvals ?b ! 1 = 0"
    by (simp_all add: BATassertProps_iff BATnew_def in_type_def smin_def smax_def)
  from convert_bit_unsorted [OF this, of False] show ?thesis by auto
qed

lemma VARconvert_eq:
  assumes "in_type vt v" "vt \<noteq> TYPE_other" "tp \<noteq> TYPE_other"
  shows "VARconvert tp vt v ab = (if ab \<and> conv vt tp v = None then None else Some (conv_or_nil vt tp v))"
  using convert_all [OF assms(2,3), of "[v]" "[0]" 0 _ ab, OF _ _ _ refl] assms(1) by (auto simp: VARconvert_def fetch_def one_row_def CANDINIT_def)

lemma those_None: "v \<in> set vs \<Longrightarrow> f v = None \<Longrightarrow> those (map f vs) = None"
  by (induction vs) (auto split: option.splits)

lemma those_Some: "(\<And>v. v \<in> set vs \<Longrightarrow> f v = Some (g v)) \<Longrightarrow> those (map f vs) = Some (map g vs)"
  by (induction vs) auto

text \<open>
  Converting a whole column gives the values that converting each of its values alone gives,
  and fails where one of these fails.
\<close>

theorem convert_matches_VAR:
  assumes b: "BATassertProps b" "bat_fits b" "length (tvals b) \<le> length mem" and t: "ttype b \<noteq> TYPE_other" "tp \<noteq> TYPE_other"
  shows "map_option tvals (BATconvert mem b None tp ab) = those (map (\<lambda>v. VARconvert tp (ttype b) v ab) (tvals b))"
proof -
  have V: "VARconvert tp (ttype b) v ab = (if ab \<and> conv (ttype b) tp v = None then None else Some (conv_or_nil (ttype b) tp v))"
    if "v \<in> set (tvals b)" for v
    using VARconvert_eq [OF _ t] that b(1) by (simp add: BATassertProps_iff)
  show ?thesis
  proof (cases "ab \<and> (\<exists>v\<in>set (tvals b). conv (ttype b) tp v = None)")
    case True
    then obtain v where "v \<in> set (tvals b)" "conv (ttype b) tp v = None" by blast
    then show ?thesis using BATconvert_fails [OF b t] those_None [of v "tvals b" "\<lambda>v. VARconvert tp (ttype b) v ab"] V True by simp
  next
    case False
    then have "those (map (\<lambda>v. VARconvert tp (ttype b) v ab) (tvals b)) = Some (map (conv_or_nil (ttype b) tp) (tvals b))"
      using V by (intro those_Some) auto
    then show ?thesis using BATconvert_all [OF b t refl, of ab] False by auto
  qed
qed

theorem convert_matches_VAR_witness:
  "VARconvert TYPE_sht TYPE_lng 40000 True = None \<and>
   BATconvert [7, 7] ((BATnew TYPE_lng)\<lparr>tvals := [5, 40000], trevsorted := False\<rparr>) None TYPE_sht True = None"
proof -
  let ?b = "(BATnew TYPE_lng)\<lparr>tvals := [5, 40000], trevsorted := False\<rparr>"
  have "BATassertProps ?b" "bat_fits ?b" "length (tvals ?b) \<le> length [7, 7::int]" "ttype ?b \<noteq> TYPE_other" "TYPE_sht \<noteq> TYPE_other"
    by (simp_all add: BATassertProps_iff BATnew_def in_type_def smin_def smax_def)
  note c = convert_matches_VAR [OF this, of True]
  have v: "VARconvert TYPE_sht TYPE_lng 40000 True = None" by code_simp
  show ?thesis using c v by (simp add: BATnew_def split: option.splits)
qed

lemma shift_upt: "map (\<lambda>i. n + i) [a..<b] = [n + a..<n + b]"
  by (induction b) auto

lemma clip_dense: "0 < n \<Longrightarrow> p + n \<le> cnt \<Longrightarrow>
    CANDINIT seq cnt (Some (Dense (seq + p) n)) = \<lparr>cstart = p, cend = p + n, ccnt = cnt, ccand = None\<rparr>"
  by (simp add: CANDINIT_def clip_start_def clip_end_def)

text \<open>
  C38.  With a dense range of \<open>n\<close> candidates from row \<open>p\<close> on, and errors not reported, conversions between different sizes and to
  \<^verbatim>\<open>bit\<close> read the first \<open>n\<close> rows instead of the candidates and write them to the first \<open>n\<close> rows.  Of the other
  rows those before \<open>p\<close> and those from \<open>p + 2 n\<close> on are nil, the others keep what the memory held.
  Where rows follow the candidates, \<open>n\<close> values are written past the end of the column, which is
  outside of the memory unless it has that much room.
\<close>

theorem convert_cands_misplaced:
  assumes b: "BATassertProps b" and m: "length (tvals b) \<le> length mem" and t: "ttype b \<noteq> TYPE_other" "tp \<noteq> TYPE_other"
    and w: "tp = TYPE_bit \<or> width (ttype b) \<noteq> width tp" and n: "0 < n" "p + n \<le> length (tvals b)"
  shows "if p + n < length (tvals b) \<and> length mem < n + length (tvals b) then BATconvert mem b (Some (Dense (hseq b + p) n)) tp False = None
    else \<exists>bn. BATconvert mem b (Some (Dense (hseq b + p) n)) tp False = Some bn \<and> length (tvals bn) = length (tvals b) \<and>
      (\<forall>k<length (tvals b). tvals bn ! k = (if k < n then conv_or_nil (ttype b) tp (tvals b ! k)
        else if k < p \<or> p + 2 * n \<le> k then nil_of tp else mem ! k))"
proof -
  let ?l = "length (tvals b)" and ?N = "nil_of tp"
  define ws where "ws = map (conv_or_nil (ttype b) tp) (take n (tvals b))"
  define d where "d = ws @ drop n (replicate p ?N @ drop p mem)"
  obtain G where G: "\<And>v. in_type (ttype b) v \<Longrightarrow> G v = conv_cell (ttype b) tp False v"
    "\<And>src mem ci off. convert_typeswitchloop src (ttype b) mem tp ci off False = convert_ptr G ?N src mem ci off"
    using convert_ptr_path [OF t w, of False] by blast
  have "\<forall>v\<in>set (tvals b). in_type (ttype b) v" using b by (simp add: BATassertProps_iff)
  then have "cells (\<lambda>k. do { v \<leftarrow> fetch (tvals b) k; G v }) [0..<n] = Some (ws, nil_count ?N ws)"
    using conv_run [OF _ _ G(1) ws_def] n by simp
  then have run: "convert_typeswitchloop (tvals b) (ttype b) mem tp (candinit b (Some (Dense (hseq b + p) n))) (hseq b) False = do {
      dst \<leftarrow> CANDLOOP d ?N [n + (p + n)..<n + ?l];
      Some (take ?l dst, p + nil_count ?N ws + (?l - (p + n))) }"
    unfolding G(2) convert_ptr_dense [OF clip_dense [OF n] n(2) m] shift_upt d_def by simp
  have d: "length ws = n" "length d = length mem" using n m by (simp_all add: ws_def d_def)
  have dk: "d ! k = (if k < n then conv_or_nil (ttype b) tp (tvals b ! k) else if k < p then ?N else mem ! k)" if "k < ?l" for k
    using that n m d(1) by (cases "k < n") (simp_all add: d_def nth_append ws_def del: drop_append)
  have bn: "\<exists>bn. BATconvert mem b (Some (Dense (hseq b + p) n)) tp False = Some bn \<and> tvals bn = take ?l dst"
    if "CANDLOOP d ?N [n + (p + n)..<n + ?l] = Some dst" for dst
    using that run by (simp add: BATconvert_def Let_def)
  consider "p + n < ?l" "length mem < n + ?l" | "p + n = ?l" | "p + n < ?l" "n + ?l \<le> length mem" using n by linarith
  then show ?thesis
  proof cases
    case 1
    then have "CANDLOOP d ?N [n + (p + n)..<n + ?l] = None" using d(2) n(1) by (intro CANDLOOP_outside bexI [of _ "n + ?l - 1"]) auto
    then show ?thesis using 1 run by (simp add: BATconvert_def Let_def)
  next
    case 2
    then show ?thesis using bn [of d] dk d(2) m n(1) by auto
  next
    case 3
    let ?d = "take (n + (p + n)) d @ replicate (?l - (p + n)) ?N @ drop (n + ?l) d"
    have "CANDLOOP d ?N [n + (p + n)..<n + ?l] = Some ?d" using CANDLOOP_fill [of "n + (p + n)" "n + ?l" d ?N] 3 d(2) by simp
    then obtain c where c: "BATconvert mem b (Some (Dense (hseq b + p) n)) tp False = Some c" "tvals c = take ?l ?d" using bn by blast
    have "length (tvals c) = ?l" unfolding c(2) using 3 d(2) by simp
    moreover have "tvals c ! k = (if p + 2 * n \<le> k then ?N else d ! k)" if "k < ?l" for k
      unfolding c(2) using that 3 d(2) by (simp add: nth_append)
    ultimately show ?thesis using 3 n(1) by (simp add: c(1) dk)
  qed
qed

theorem convert_cands_misplaced_witness:
  "BATconvert [7, 7, 7] ((BATnew TYPE_int)\<lparr>tvals := [1, 2, 3], trevsorted := False\<rparr>) (Some (Dense 1 1)) TYPE_lng False = None \<and>
   tvals (the (BATconvert [7, 7, 7] ((BATnew TYPE_int)\<lparr>tvals := [1, 2, 3], trevsorted := False\<rparr>) (Some (Dense 2 1)) TYPE_lng False)) = [1, smin 64, 7]"
proof -
  let ?b = "(BATnew TYPE_int)\<lparr>tvals := [1, 2, 3], trevsorted := False\<rparr>"
  have "BATassertProps ?b" "length (tvals ?b) \<le> length [7, 7, 7::int]" "ttype ?b \<noteq> TYPE_other" "TYPE_lng \<noteq> TYPE_other"
    "TYPE_lng = TYPE_bit \<or> width (ttype ?b) \<noteq> width TYPE_lng" "(0::nat) < 1"
    by (simp_all add: BATassertProps_iff BATnew_def in_type_def smin_def smax_def)
  note c = convert_cands_misplaced [OF this]
  have n: "1 + 1 \<le> length (tvals ?b)" "2 + 1 \<le> length (tvals ?b)" "hseq ?b = 0" by (simp_all add: BATnew_def)
  obtain bn where "BATconvert [7, 7, 7] ?b (Some (Dense 2 1)) TYPE_lng False = Some bn" "length (tvals bn) = 3"
    "tvals bn ! 0 = 1" "tvals bn ! 1 = smin 64" "tvals bn ! 2 = 7"
    using c [OF n(2)] n(3) by (auto simp: conv_def conv_or_nil_def smin_def smax_def numeral_2_eq_2)
  moreover have "BATconvert [7, 7, 7] ?b (Some (Dense 1 1)) TYPE_lng False = None" using c [OF n(1)] n(3) by simp
  ultimately show ?thesis by (auto simp: list_eq_iff_nth_eq nth_Cons numeral_2_eq_2 numeral_3_eq_3 less_Suc_eq)
qed

end
