(* ===== verification/Spec2Isabelle.thy ===== *)
theory Spec2Isabelle
  imports Mtime_RuleText Pqueue_Topn Sql_Mem Sql_List_Sort Sql_String Gdk_Arith_Props
    Gdk_Calc_Between Gdk_Calc_Ifthen Gdk_Calc_Convert
begin

text \<open>
  A verification library for the database kernel of monetinr (MonetDB embedded in R).
  The library grows bottom up, one theory for each component of the C sources under
  \<^verbatim>\<open>src/src/\<close>; this theory collects them.

  \<^bold>\<open>Conventions.\<close>  A C integer is an \<^typ>\<open>int\<close>; every conversion or operation that can leave
  the width of its type is wrapped by \<^verbatim>\<open>swrap\<close> (\<^verbatim>\<open>i8\<close> to \<^verbatim>\<open>i64\<close> of \<^verbatim>\<open>Prelude\<close>), two's
  complement as the compilers in use implement it.  The nil of a type is its smallest
  value.  Division and remainder are the truncating ones of C.  A function that stores
  through pointers returns the values it stores; a global it changes is passed in and
  out; an error is a value, and so is a trap of the machine.  Loops are recursive functions with a termination proof, or
  partial functions with a proof that they return.  Little endian layout is assumed
  where a union overlays bit fields with an integer.

  \<^bold>\<open>Temporal types\<close> (\<^verbatim>\<open>monetdb5/modules/atoms/mtime.c\<close>, \<^verbatim>\<open>mtime.h\<close>).
  \<^item> \<^verbatim>\<open>Mtime_Calendar\<close>: \<^verbatim>\<open>todate\<close>, \<^verbatim>\<open>fromdate\<close>, \<^verbatim>\<open>totime\<close>, \<^verbatim>\<open>fromtime\<close> and their tables.  A closed
    form of the proleptic calendar (\<^verbatim>\<open>daynum\<close>) is the specification; both directions are
    proved to invert each other, with the exact exception for leap days before year 1.
  \<^item> \<^verbatim>\<open>Mtime_Arith\<close>: adding days, months, years and milliseconds.  The day adder is an
    interface (locale \<^verbatim>\<open>day_adder\<close>) from which the month and year loops are derived.
  \<^item> \<^verbatim>\<open>Mtime_Extract\<close>: fields of dates, times and SQL intervals, week numbers, interval
    operators.
  \<^item> \<^verbatim>\<open>Mtime_Zone\<close>: daylight saving rules and zones as bit fields, evaluation of a rule in a
    year (both weekday loops are instances of the locale \<^verbatim>\<open>weekday_walk\<close>), local time.
  \<^item> \<^verbatim>\<open>Mtime_Text\<close>: the scanners and printers of dates, times of day and timestamps.  The
    four shapes of digit loop in the scanners are instances of the locale \<^verbatim>\<open>digit_loop\<close> of
    \<^verbatim>\<open>Digits\<close>, which also holds the decimal text of \<^verbatim>\<open>sprintf\<close>;
    printing and reading are proved inverse.
  \<^item> \<^verbatim>\<open>Mtime_RuleText\<close>: the same for daylight saving rules and zones, and Unix time.

  \<^bold>\<open>Priority queues\<close> (\<^verbatim>\<open>monetdb5/modules/mal/pqueue.c\<close>).
  \<^item> \<^verbatim>\<open>Gdk_Atoms\<close>: the comparison functions of the atoms; the locale \<^verbatim>\<open>atom_order\<close> is their
    contract.
  \<^item> \<^verbatim>\<open>Pqueue\<close>: the queue operations over an arbitrary comparison (locale \<^verbatim>\<open>heap_order\<close>,
    interpreted for every instance of the macro and for every atom comparison) with the
    heap invariant, the top-N queries, and the lookup and deletion of rows (\<^verbatim>\<open>gdk_bat.c\<close>) that the
    query with unique values uses.
  \<^item> \<^verbatim>\<open>Pqueue_Topn\<close>: the query with unique values (locale \<^verbatim>\<open>heap_total\<close>) and the properties.

  \<^bold>\<open>Kernel: sorting and columns\<close> (\<^verbatim>\<open>gdk\<close>).
  \<^item> \<^verbatim>\<open>Gdk_Qsort\<close> (\<^verbatim>\<open>gdk_qsort.c\<close>, \<^verbatim>\<open>gdk_qsort_impl.h\<close>): the quicksort with its three-way
    partition, over an arbitrary order (locale \<^verbatim>\<open>qsort_order\<close>, interpreted for the integer
    instances and, through \<^verbatim>\<open>atom_order\<close>, for every comparison function).  It returns, stays
    inside the rows, permutes them and sorts them.
  \<^item> \<^verbatim>\<open>Gdk_Bat\<close> (\<^verbatim>\<open>gdk.h\<close>, \<^verbatim>\<open>gdk_bat.c\<close>, \<^verbatim>\<open>gdk_calc_private.h\<close>): columns of the integer types with the
    properties the kernel records, the check of these properties and what it establishes, and the loops over candidate lists, which are proved
    equal to a computation on every position of the column.
  \<^item> \<^verbatim>\<open>Gdk_Calc_Unary\<close> (\<^verbatim>\<open>gdk_calc.c\<close>): the operators with one argument on columns and on
    single values.  The locale \<^verbatim>\<open>unary_op\<close> is the contract of the function the loop applies;
    from it follow the values and the recorded properties of the result.
  \<^item> \<^verbatim>\<open>Gdk_Calc_Binary\<close>: what the operators with two arguments share; the locale \<^verbatim>\<open>binary_loop\<close> is the
    contract between the loops for the type combinations and the operators, with the arguments for
    which the machine traps as a parameter; \<^verbatim>\<open>binary_op\<close> adds that results other than nil stay in
    the range of their type.
  \<^item> \<^verbatim>\<open>Gdk_Calc_Arith\<close>: addition, subtraction, multiplication, division and remainder with their
    type switches.  \<^verbatim>\<open>Gdk_Arith_Exact\<close> proves the overflow checks exact and interprets the
    contract for the five operators, of which only the remainder can trap; \<^verbatim>\<open>Gdk_Arith_Props\<close> derives exact results, agreement with the
    operators on single values, and the recorded order and nil properties.
  \<^item> \<^verbatim>\<open>Gdk_Calc_Bits\<close>: exclusive or, or, and, and the shifts.  \<^verbatim>\<open>Gdk_Bits_Props\<close> shows what they
    compute on integers, \<^verbatim>\<open>Gdk_Logic\<close> that on truth values they are three-valued logic.
  \<^item> \<^verbatim>\<open>Gdk_Calc_Compare\<close> (with \<^verbatim>\<open>gdk_calc_compare.h\<close>): the comparisons; the header is included once for
    each of them, its operator is the parameter of the definitions and of the locale \<^verbatim>\<open>compare_op\<close>.
  \<^item> \<^verbatim>\<open>Gdk_Calc_Between\<close>, \<^verbatim>\<open>Gdk_Calc_Ifthen\<close>: the test for lying between bounds and the choice between
    columns, related to the comparisons and the logical operators.
  \<^item> \<^verbatim>\<open>Gdk_Calc_Convert\<close>: conversion between the types.  Its loops move pointers through memory that
    is a parameter; without candidates they convert row by row, with candidates they do not.

  \<^bold>\<open>SQL common layer\<close> (\<^verbatim>\<open>sql/common\<close>).
  \<^item> \<^verbatim>\<open>Sql_Mem\<close> (\<^verbatim>\<open>sql_mem.c\<close>, \<^verbatim>\<open>sql_stack.c\<close>): the arena allocator over an explicit heap of
    blocks.  Runs of the allocator are an inductive relation; live pieces never overlap
    and keep what is written to them.
    The stack refines a list.
  \<^item> \<^verbatim>\<open>Sql_List\<close> and \<^verbatim>\<open>Sql_List_Rep\<close> (\<^verbatim>\<open>sql_list.c\<close>, \<^verbatim>\<open>sql_hash.c\<close>): linked lists in a store of
    nodes, where \<^const>\<open>None\<close> is a null dereference or a use after free, also of data given to a destructor.  The representation
    predicate \<^verbatim>\<open>list_rep\<close> relates a store to a sequence, and the operations are proved to
    act on that sequence and on the hash table the list carries.
  \<^item> \<^verbatim>\<open>Sql_List_Sort\<close> (\<^verbatim>\<open>sql_list.c\<close>): sorting a list by keys with the quicksort of the kernel.
  \<^item> \<^verbatim>\<open>Sql_String\<close> (\<^verbatim>\<open>sql_string.c\<close>): case mapping, escapes of SQL strings and their inverse.

  \<^bold>\<open>Not modelled.\<close>  Memory allocation of result buffers, locale dependent formatting
  (\<^verbatim>\<open>strftime\<close>, \<^verbatim>\<open>strptime\<close>), the system clock, and everything that is input and output.  The operators
  on columns are modelled for \<^verbatim>\<open>bit\<close> and the integer types: floating point columns, columns of
  strings and identifiers, and columns without values of their own (\<^verbatim>\<open>void\<close>) are left out.
\<close>

end
